(* ===== verification/Kernel_Prelude.thy ===== *)
theory Kernel_Prelude
  imports Main "HOL-Library.Word" "HOL-Library.Code_Target_Nat"
begin

unbundle bit_operations_syntax

text \<open>
  Shared vocabulary of the development: the machine integers of the C sources, byte
  buffers and the block copies made on them, and bit arrays.

  \<^item> An unsigned C integer is a \<open>nat\<close> below \<open>2 ^ w\<close>; every addition, subtraction or
    cast that could leave the range is written with \<open>u64\<close>, \<open>u32\<close>, \<open>u16\<close> or
    \<open>sub64\<close>, which wrap as the C types do. Bytes are \<open>8 word\<close>s.
  \<^item> A buffer is a list of bytes. \<open>bslice off n xs\<close> is the \<open>n\<close> bytes at \<open>off\<close>, and
    \<open>bsplice off ys xs\<close> overwrites the bytes at \<open>off\<close> by \<open>ys\<close> (the effect of
    \<^verbatim>\<open>memcpy(xs + off, ys, n)\<close> between distinct objects). A bsplice that
    ran past the end of the buffer would change its length, so an invariant that fixes
    the length of a buffer also says that no copy leaves it.
  \<^item> C strings are byte lists without the terminator; \<open>cstr\<close> turns a literal into one.
\<close>

section \<open>Machine integers\<close>

type_synonym byte = "8 word"

definition u64 :: "nat \<Rightarrow> nat" where "u64 n = n mod 2 ^ 64"
definition u32 :: "nat \<Rightarrow> nat" where "u32 n = n mod 2 ^ 32"
definition u16 :: "nat \<Rightarrow> nat" where "u16 n = n mod 2 ^ 16"

text \<open>Unsigned 64-bit subtraction, which wraps below zero.\<close>

definition sub64 :: "nat \<Rightarrow> nat \<Rightarrow> nat" where
  "sub64 a b = (2 ^ 64 + a - b) mod 2 ^ 64"

named_theorems wrap_simps \<open>wrap-around arithmetic that stays in range\<close>

lemma u64_id [simp, wrap_simps]: "n < 2 ^ 64 \<Longrightarrow> u64 n = n"
  by (simp only: u64_def mod_less)

lemma u32_id [simp, wrap_simps]: "n < 2 ^ 32 \<Longrightarrow> u32 n = n"
  by (simp only: u32_def mod_less)

lemma u16_id [simp, wrap_simps]: "n < 2 ^ 16 \<Longrightarrow> u16 n = n"
  by (simp only: u16_def mod_less)

lemma u64_less [simp]: "u64 n < 2 ^ 64"
  by (simp add: u64_def)

lemma u32_less [simp]: "u32 n < 2 ^ 32"
  by (simp add: u32_def)

lemma u16_less [simp]: "u16 n < 2 ^ 16"
  by (simp add: u16_def)

lemma sub64_in_range [simp, wrap_simps]:
  "b \<le> a \<Longrightarrow> a < 2 ^ 64 \<Longrightarrow> sub64 a b = a - b"
proof -
  assume le: "b \<le> a" and lt: "a < 2 ^ 64"
  have "2 ^ 64 + a - b = 2 ^ 64 + (a - b)" using le by (rule diff_add_assoc)
  moreover have "a - b < 2 ^ 64" using lt by (rule less_imp_diff_less)
  ultimately show ?thesis by (simp only: sub64_def mod_add_self1 mod_less)
qed

lemma sub64_less [simp]: "sub64 a b < 2 ^ 64"
  by (simp add: sub64_def)

lemma sub64_self [simp]: "a < 2 ^ 64 \<Longrightarrow> sub64 a a = 0"
  by simp

text \<open>The same bounds with the powers evaluated, as the simplifier leaves them.\<close>

lemma u64_less_lit [simp]: "u64 n < 18446744073709551616"
  using u64_less [of n] by (simp del: u64_less)

lemma u32_less_lit [simp]: "u32 n < 4294967296"
  using u32_less [of n] by (simp del: u32_less)

lemma u16_less_lit [simp]: "u16 n < 65536"
  using u16_less [of n] by (simp del: u16_less)

lemma sub64_less_lit [simp]: "sub64 a b < 18446744073709551616"
  using sub64_less [of a b] by (simp del: sub64_less)

text \<open>Code equations with the moduli written out, so that evaluation does not recompute the powers.\<close>

lemma u64_code [code]: "u64 n = (if n < 18446744073709551616 then n else n mod 18446744073709551616)"
  by (simp add: u64_def)

lemma u32_code [code]: "u32 n = (if n < 4294967296 then n else n mod 4294967296)"
  by (simp add: u32_def)

lemma u16_code [code]: "u16 n = (if n < 65536 then n else n mod 65536)"
  by (simp add: u16_def)

lemma sub64_code [code]: "sub64 a b = (18446744073709551616 + a - b) mod 18446744073709551616"
  by (simp add: sub64_def)

definition cstr :: "string \<Rightarrow> byte list" where
  "cstr s = map of_char s"

section \<open>Buffers: slices and splices\<close>

text \<open>A buffer cleared by \<^verbatim>\<open>memset(buf, 0, n)\<close>.\<close>

definition zeros :: "nat \<Rightarrow> byte list" where
  "zeros n = replicate n 0"

lemma length_zeros [simp]: "length (zeros n) = n"
  by (simp add: zeros_def)

lemma nth_zeros [simp]: "i < n \<Longrightarrow> zeros n ! i = 0"
  by (simp add: zeros_def)

definition bslice :: "nat \<Rightarrow> nat \<Rightarrow> 'a list \<Rightarrow> 'a list" where
  "bslice off n xs = take n (drop off xs)"

definition bsplice :: "nat \<Rightarrow> 'a list \<Rightarrow> 'a list \<Rightarrow> 'a list" where
  "bsplice off ys xs = take off xs @ ys @ drop (off + length ys) xs"

named_theorems buf_simps \<open>slices of spliced buffers\<close>

lemma length_slice [simp]: "length (bslice off n xs) = min n (length xs - off)"
  by (simp add: bslice_def)

lemma length_splice [simp, buf_simps]:
  "off + length ys \<le> length xs \<Longrightarrow> length (bsplice off ys xs) = length xs"
  by (simp add: bsplice_def)

lemma slice_0 [simp]: "bslice off 0 xs = []"
  by (simp add: bslice_def)

lemma slice_all [simp]: "bslice 0 (length xs) xs = xs"
  by (simp add: bslice_def)

lemma slice_whole: "length xs \<le> n \<Longrightarrow> bslice 0 n xs = xs"
  by (simp add: bslice_def)

lemma splice_Nil [simp]: "bsplice off [] xs = xs"
  by (simp add: bsplice_def)

lemma splice_all: "length ys = length xs \<Longrightarrow> bsplice 0 ys xs = ys"
  by (simp add: bsplice_def)

lemma nth_slice [simp]: "i < n \<Longrightarrow> off + i < length xs \<Longrightarrow> bslice off n xs ! i = xs ! (off + i)"
  by (simp add: bslice_def)

lemma nth_splice:
  assumes "off + length ys \<le> length xs" "i < length xs"
  shows "bsplice off ys xs ! i = (if off \<le> i \<and> i < off + length ys then ys ! (i - off) else xs ! i)"
proof -
  consider "i < off" | "off \<le> i" "i < off + length ys" | "off + length ys \<le> i" by linarith
  then show ?thesis
  proof cases
    case 3
    then obtain k where "i = off + length ys + k" using le_Suc_ex by blast
    with assms show ?thesis by (simp add: bsplice_def nth_append)
  qed (use assms in \<open>auto simp: bsplice_def nth_append\<close>)
qed

lemma slice_eqI:
  assumes "length xs = length ys"
    and "\<And>i. off \<le> i \<Longrightarrow> i < off + n \<Longrightarrow> i < length xs \<Longrightarrow> xs ! i = ys ! i"
  shows "bslice off n xs = bslice off n ys"
  using assms by (intro nth_equalityI) auto

lemma slice_splice_same [simp, buf_simps]:
  assumes "off + length ys \<le> length xs" "length ys = n"
  shows "bslice off n (bsplice off ys xs) = ys"
  using assms by (intro nth_equalityI) (auto simp: nth_splice)

lemma slice_splice_disjoint [buf_simps]:
  assumes "off + length ys \<le> length xs" "off' + n \<le> off \<or> off + length ys \<le> off'"
  shows "bslice off' n (bsplice off ys xs) = bslice off' n xs"
  using assms by (intro slice_eqI) (auto simp: nth_splice)

lemma slice_splice_inside [buf_simps]:
  assumes "off + length ys \<le> length xs" "off \<le> off'" "off' + n \<le> off + length ys"
  shows "bslice off' n (bsplice off ys xs) = bslice (off' - off) n ys"
  using assms by (intro nth_equalityI) (auto simp: nth_splice)

lemma slice_slice [simp]: "a + n \<le> m \<Longrightarrow> bslice a n (bslice b m xs) = bslice (b + a) n xs"
  by (simp add: bslice_def drop_take ac_simps min_def)

lemma splice_slice_id [simp]:
  "off + n \<le> length xs \<Longrightarrow> bsplice off (bslice off n xs) xs = xs"
  by (intro nth_equalityI) (auto simp: nth_splice)

lemma splice_append_right:
  "off + length ys \<le> length xs \<Longrightarrow> bsplice off ys (xs @ zs) = bsplice off ys xs @ zs"
  by (simp add: bsplice_def)

lemma take_splice [simp]:
  "off + length ys \<le> length xs \<Longrightarrow> take off (bsplice off ys xs) = take off xs"
  by (simp add: bsplice_def)

lemma take_slice_append:
  "a \<le> b \<Longrightarrow> b \<le> length xs \<Longrightarrow> take a xs @ bslice a (b - a) xs = take b xs"
  by (simp add: bslice_def flip: take_add)

lemma map_nth_eqI: "n \<le> length xs \<Longrightarrow> map (nth xs) [0..<n] = take n xs"
  by (intro nth_equalityI) auto

section \<open>Bit arrays\<close>

text \<open>
  Both the frame allocator and graphfs keep a bitmap: bit \<open>i\<close> is bit \<open>i mod 8\<close> of byte
  \<open>i div 8\<close>. The functions follow the C expressions \<^verbatim>\<open>(bm[i / 8] >> (i % 8)) & 1\<close>,
  \<^verbatim>\<open>bm[i / 8] |= 1 << (i % 8)\<close> and \<^verbatim>\<open>bm[i / 8] &= ~(1 << (i % 8))\<close>.
\<close>

definition bm_test :: "byte list \<Rightarrow> nat \<Rightarrow> bool" where
  "bm_test bm i \<longleftrightarrow> drop_bit (i mod 8) (bm ! (i div 8)) AND 1 \<noteq> 0"

definition bm_set :: "byte list \<Rightarrow> nat \<Rightarrow> byte list" where
  "bm_set bm i = bm[i div 8 := bm ! (i div 8) OR push_bit (i mod 8) 1]"

definition bm_clr :: "byte list \<Rightarrow> nat \<Rightarrow> byte list" where
  "bm_clr bm i = bm[i div 8 := bm ! (i div 8) AND NOT (push_bit (i mod 8) 1)]"

named_theorems bm_simps \<open>reading a bit of an updated bitmap\<close>

lemma bm_test_bit: "bm_test bm i \<longleftrightarrow> bit (bm ! (i div 8)) (i mod 8)"
  by (simp add: bm_test_def and_one_eq odd_iff_mod_2_eq_one[symmetric] bit_iff_odd_drop_bit)

lemma length_bm_set [simp, bm_simps]: "length (bm_set bm i) = length bm"
  by (simp add: bm_set_def)

lemma length_bm_clr [simp, bm_simps]: "length (bm_clr bm i) = length bm"
  by (simp add: bm_clr_def)

lemma bit_index_eq: "i div 8 = j div 8 \<Longrightarrow> i mod 8 = j mod 8 \<Longrightarrow> i = (j::nat)"
  by (metis div_mult_mod_eq)

lemma bit_shifted_one: "k < 8 \<Longrightarrow> bit (push_bit n (1::byte)) k \<longleftrightarrow> k = n"
  by (auto simp: bit_push_bit_iff bit_1_iff simp del: push_bit_of_1)

lemma bm_test_set [simp, bm_simps]:
  assumes "i div 8 < length bm"
  shows "bm_test (bm_set bm i) j \<longleftrightarrow> j = i \<or> bm_test bm j"
proof (cases "j div 8 = i div 8")
  case True
  have "j mod 8 = i mod 8 \<longleftrightarrow> j = i" using True bit_index_eq by blast
  with True assms show ?thesis
    by (simp add: bm_test_bit bm_set_def bit_or_iff bit_shifted_one del: push_bit_of_1) blast
next
  case False
  then have "j \<noteq> i" by blast
  with False show ?thesis by (simp add: bm_test_bit bm_set_def)
qed

lemma bm_test_clr [simp, bm_simps]:
  assumes "i div 8 < length bm"
  shows "bm_test (bm_clr bm i) j \<longleftrightarrow> j \<noteq> i \<and> bm_test bm j"
proof (cases "j div 8 = i div 8")
  case True
  have "j mod 8 = i mod 8 \<longleftrightarrow> j = i" using True bit_index_eq by blast
  with True assms show ?thesis
    by (simp add: bm_test_bit bm_clr_def bit_and_iff bit_not_iff bit_shifted_one
        del: push_bit_of_1) blast
next
  case False
  then have "j \<noteq> i" by blast
  with False show ?thesis by (simp add: bm_test_bit bm_clr_def)
qed

lemma bm_test_replicate_ones: "i < 8 * n \<Longrightarrow> bm_test (replicate n 0xFF) i"
proof -
  assume "i < 8 * n"
  then have "i div 8 < n" by auto
  moreover have "(0xFF :: byte) = - 1" by simp
  then have "k < 8 \<Longrightarrow> bit (0xFF :: byte) k" for k by (simp only:) simp
  ultimately show ?thesis by (simp add: bm_test_bit del: bit_numeral_rec)
qed

lemma bm_test_replicate_zero: "i < 8 * n \<Longrightarrow> \<not> bm_test (replicate n 0) i"
proof -
  assume "i < 8 * n"
  then have "i div 8 < n" by auto
  then show ?thesis by (simp add: bm_test_bit)
qed

end
