(* ===== verification/Pipe_Core.thy ===== *)
theory Pipe_Core
  imports Kernel_Prelude
begin

text \<open>
  The ring buffer behind pipes and socket pairs (\<^verbatim>\<open>kernel/fs/pipe_core.c\<close>). The
  concrete state is the C struct: a backing array, its capacity, the index of the next
  byte to read and the fill level. The specification is a bounded FIFO byte queue; the
  lemmas show that every operation refines the queue operation, that no copy leaves the
  array and that the index arithmetic cannot wrap for capacities up to half the range of
  \<^verbatim>\<open>size_t\<close>.
\<close>

section \<open>State and operations\<close>

record pipe_core =
  pc_buf :: "byte list"
  pc_cap :: nat
  pc_head :: nat
  pc_count :: nat

definition pipe_core_init :: "byte list \<Rightarrow> nat \<Rightarrow> pipe_core" where
  "pipe_core_init buf cap = \<lparr>pc_buf = buf, pc_cap = cap, pc_head = 0, pc_count = 0\<rparr>"

definition pipe_core_avail :: "pipe_core \<Rightarrow> nat" where
  "pipe_core_avail pc = pc_count pc"

definition pipe_core_space :: "pipe_core \<Rightarrow> nat" where
  "pipe_core_space pc = sub64 (pc_cap pc) (pc_count pc)"

text \<open>The bytes stored into the caller's \<^verbatim>\<open>dst\<close>, the returned count is their number.\<close>

definition pipe_core_read :: "pipe_core \<Rightarrow> nat \<Rightarrow> byte list \<times> nat \<times> pipe_core" where
  "pipe_core_read pc len =
     (let n = (if len < pc_count pc then len else pc_count pc);
          first0 = sub64 (pc_cap pc) (pc_head pc);
          first = (if first0 > n then n else first0);
          dst = bslice (pc_head pc) first (pc_buf pc) @ bslice 0 (sub64 n first) (pc_buf pc)
      in (dst, n, pc\<lparr>pc_head := u64 (pc_head pc + n) mod pc_cap pc,
                     pc_count := sub64 (pc_count pc) n\<rparr>))"

definition pipe_core_write :: "pipe_core \<Rightarrow> byte list \<Rightarrow> nat \<Rightarrow> nat \<times> pipe_core" where
  "pipe_core_write pc src len =
     (let space = sub64 (pc_cap pc) (pc_count pc);
          n = (if len < space then len else space);
          tail = u64 (pc_head pc + pc_count pc) mod pc_cap pc;
          first0 = sub64 (pc_cap pc) tail;
          first = (if first0 > n then n else first0);
          buf1 = bsplice tail (bslice 0 first src) (pc_buf pc);
          buf2 = bsplice 0 (bslice first (sub64 n first) src) buf1
      in (n, pc\<lparr>pc_buf := buf2, pc_count := u64 (pc_count pc + n)\<rparr>))"

section \<open>Invariant and abstraction\<close>

definition pipe_inv :: "pipe_core \<Rightarrow> bool" where
  "pipe_inv pc \<longleftrightarrow> 0 < pc_cap pc \<and> pc_cap pc \<le> 2 ^ 63 \<and> length (pc_buf pc) = pc_cap pc
     \<and> pc_head pc < pc_cap pc \<and> pc_count pc \<le> pc_cap pc"

text \<open>The queue a ring stands for: \<open>count\<close> bytes from \<open>head\<close> on, wrapping at \<open>cap\<close>.\<close>

definition pipe_bytes :: "pipe_core \<Rightarrow> byte list" where
  "pipe_bytes pc = map (\<lambda>i. pc_buf pc ! ((pc_head pc + i) mod pc_cap pc)) [0..<pc_count pc]"

lemma length_pipe_bytes [simp]: "length (pipe_bytes pc) = pc_count pc"
  by (simp add: pipe_bytes_def)

lemma nth_pipe_bytes [simp]:
  "i < pc_count pc \<Longrightarrow> pipe_bytes pc ! i = pc_buf pc ! ((pc_head pc + i) mod pc_cap pc)"
  by (simp add: pipe_bytes_def)

text \<open>Indices of a ring of capacity \<open>c\<close>: wrapping at most once.\<close>

lemma ring_index:
  assumes "(h::nat) < c" "i \<le> c"
  shows "(h + i) mod c = (if h + i < c then h + i else h + i - c)"
  using assms by (simp add: mod_if)

lemma ring_index_inj:
  assumes "(h::nat) < c" "i < c" "j < c" "(h + i) mod c = (h + j) mod c"
  shows "i = j"
  using assms by (auto simp: ring_index split: if_splits)

lemma ring_add_index:
  shows "((h + n) mod c + i) mod c = (h + (n + i)) mod (c::nat)"
  by (simp add: mod_add_left_eq add.assoc)

lemma pipe_inv_bounds:
  assumes "pipe_inv pc"
  shows "pc_cap pc < 2 ^ 64" "pc_head pc + pc_count pc < 2 ^ 64" "pc_count pc < 2 ^ 64"
  using assms by (simp_all add: pipe_inv_def)

lemma pipe_inv_init: "length buf = cap \<Longrightarrow> 0 < cap \<Longrightarrow> cap \<le> 2 ^ 63 \<Longrightarrow> pipe_inv (pipe_core_init buf cap)"
  by (simp add: pipe_inv_def pipe_core_init_def)

lemma pipe_bytes_init [simp]: "pipe_bytes (pipe_core_init buf cap) = []"
  by (simp add: pipe_bytes_def pipe_core_init_def)

section \<open>Refinement of the byte queue\<close>

text \<open>
  Reading: the two copies together deliver the first \<open>n\<close> bytes of the queue, and the
  ring that remains stands for the rest.
\<close>

lemma pipe_core_read_run:
  assumes inv: "pipe_inv pc" and run: "pipe_core_read pc len = (dst, n, pc')"
  shows "n = min len (pc_count pc)" "dst = take n (pipe_bytes pc)"
    "pipe_bytes pc' = drop n (pipe_bytes pc)" "pipe_inv pc'"
proof -
  note b = pipe_inv_bounds [OF inv]
  have h: "pc_head pc < pc_cap pc" "pc_count pc \<le> pc_cap pc" "length (pc_buf pc) = pc_cap pc"
    using inv by (simp_all add: pipe_inv_def)
  define first where "first = min (pc_cap pc - pc_head pc) n"
  show n: "n = min len (pc_count pc)"
    using run by (auto simp: pipe_core_read_def Let_def)
  have sub1: "sub64 (pc_cap pc) (pc_head pc) = pc_cap pc - pc_head pc"
    and sub2: "sub64 n first = n - first" and sub3: "sub64 (pc_count pc) n = pc_count pc - n"
    and add: "u64 (pc_head pc + n) = pc_head pc + n"
    using b h n by (auto simp: first_def intro!: sub64_in_range u64_id)
  have dst: "dst = bslice (pc_head pc) first (pc_buf pc) @ bslice 0 (n - first) (pc_buf pc)"
    using run sub1 sub2 n by (auto simp: pipe_core_read_def Let_def first_def min_def)
  have pc': "pc' = pc\<lparr>pc_head := (pc_head pc + n) mod pc_cap pc, pc_count := pc_count pc - n\<rparr>"
    using run n sub3 add by (auto simp: pipe_core_read_def Let_def min_def)
  show "dst = take n (pipe_bytes pc)"
    unfolding dst using h n
    by (intro nth_equalityI) (auto simp: first_def nth_append ring_index min_def add.commute split: if_splits)
  show "pipe_bytes pc' = drop n (pipe_bytes pc)"
    unfolding pc' using n
    by (intro nth_equalityI) (auto simp: pipe_bytes_def mod_add_left_eq add.assoc)
  show "pipe_inv pc'"
    unfolding pc' using inv by (auto simp: pipe_inv_def)
qed

text \<open>
  The two copies of a write together store \<open>n\<close> consecutive ring positions and leave the
  other positions alone.
\<close>

definition ring_store :: "nat \<Rightarrow> byte list \<Rightarrow> nat \<Rightarrow> byte list \<Rightarrow> byte list" where
  "ring_store tail src n buf =
     (let first = min (length buf - tail) n
      in bsplice 0 (bslice first (n - first) src) (bsplice tail (bslice 0 first src) buf))"

lemma ring_store_facts:
  assumes "tail < length buf" "n \<le> length buf" "n \<le> length src"
  shows length_ring_store: "length (ring_store tail src n buf) = length buf"
    and nth_ring_store: "j < length buf \<Longrightarrow> ring_store tail src n buf ! j =
      (if j < n - min (length buf - tail) n then src ! (min (length buf - tail) n + j)
       else if tail \<le> j \<and> j < tail + min (length buf - tail) n then src ! (j - tail) else buf ! j)"
proof -
  define first where "first = min (length buf - tail) n"
  have f: "first \<le> n" "tail + first \<le> length buf" "n - first \<le> length buf"
    using assms by (auto simp: first_def)
  then have l: "length (bslice 0 first src) = first" "length (bslice first (n - first) src) = n - first"
    using assms by simp_all
  show "length (ring_store tail src n buf) = length buf"
    using f l by (simp add: ring_store_def Let_def flip: first_def)
  show "j < length buf \<Longrightarrow> ring_store tail src n buf ! j =
      (if j < n - min (length buf - tail) n then src ! (min (length buf - tail) n + j)
       else if tail \<le> j \<and> j < tail + min (length buf - tail) n then src ! (j - tail) else buf ! j)"
    using f l assms by (auto simp: ring_store_def Let_def nth_splice simp flip: first_def)
qed

lemma ring_store_written:
  assumes "tail < length buf" "n \<le> length buf" "n \<le> length src" "k < n"
  shows "ring_store tail src n buf ! ((tail + k) mod length buf) = src ! k"
proof (cases "tail + k < length buf")
  case True
  then show ?thesis using assms by (auto simp: nth_ring_store)
next
  case False
  then have "(tail + k) mod length buf = tail + k - length buf" "tail + k - length buf < length buf"
    using assms by (auto simp: ring_index)
  moreover have "tail + k - length buf < n - (length buf - tail)" "length buf - tail \<le> n"
    using assms False by linarith+
  ultimately show ?thesis using assms False by (simp add: nth_ring_store)
qed

lemma ring_store_kept:
  assumes "tail < length buf" "n \<le> length buf" "n \<le> length src" "j < length buf"
    and other: "\<And>k. k < n \<Longrightarrow> j \<noteq> (tail + k) mod length buf"
  shows "ring_store tail src n buf ! j = buf ! j"
proof -
  define first where "first = min (length buf - tail) n"
  have "\<not> j < n - first"
  proof
    assume "j < n - first"
    then have "first + j < n" and eq: "tail + (first + j) = length buf + j"
      using assms by (auto simp: first_def)
    moreover have "(tail + (first + j)) mod length buf = j"
      using \<open>j < length buf\<close> unfolding eq by simp
    ultimately show False using other by metis
  qed
  moreover have "\<not> (tail \<le> j \<and> j < tail + first)"
  proof
    assume "tail \<le> j \<and> j < tail + first"
    then have "j - tail < n" "tail + (j - tail) = j" by (auto simp: first_def)
    then show False using other [of "j - tail"] assms by simp
  qed
  ultimately show ?thesis using assms by (auto simp: nth_ring_store simp flip: first_def)
qed

text \<open>
  Writing: the bytes accepted are appended to the queue. The source buffer holds at
  least \<open>len\<close> bytes.
\<close>

lemma pipe_core_write_eq:
  assumes inv: "pipe_inv pc"
  shows "pipe_core_write pc src len =
    (let n = min len (pc_cap pc - pc_count pc)
     in (n, pc\<lparr>pc_buf := ring_store ((pc_head pc + pc_count pc) mod pc_cap pc) src n (pc_buf pc),
               pc_count := pc_count pc + n\<rparr>))"
proof -
  note b = pipe_inv_bounds [OF inv]
  have h: "pc_head pc < pc_cap pc" "pc_count pc \<le> pc_cap pc" "length (pc_buf pc) = pc_cap pc"
    using inv by (simp_all add: pipe_inv_def)
  define n where "n = min len (pc_cap pc - pc_count pc)"
  define tail where "tail = (pc_head pc + pc_count pc) mod pc_cap pc"
  define first where "first = min (pc_cap pc - tail) n"
  have "tail < pc_cap pc" using h by (simp add: tail_def)
  have arith: "sub64 (pc_cap pc) (pc_count pc) = pc_cap pc - pc_count pc"
    "u64 (pc_head pc + pc_count pc) = pc_head pc + pc_count pc"
    "sub64 (pc_cap pc) tail = pc_cap pc - tail" "sub64 n first = n - first"
    "u64 (pc_count pc + n) = pc_count pc + n"
    using b h \<open>tail < pc_cap pc\<close> by (auto simp: first_def n_def intro!: sub64_in_range u64_id)
  have ifs: "(if len < pc_cap pc - pc_count pc then len else pc_cap pc - pc_count pc) = n"
    "(if pc_cap pc - tail > n then n else pc_cap pc - tail) = first"
    by (simp_all add: n_def first_def min_def)
  show ?thesis
    unfolding pipe_core_write_def Let_def ring_store_def h(3)
    by (simp only: arith ifs flip: n_def tail_def) (simp add: arith flip: first_def)
qed

lemma pipe_core_write_run:
  assumes inv: "pipe_inv pc" and src: "len \<le> length src"
    and run: "pipe_core_write pc src len = (n, pc')"
  shows "n = min len (pc_cap pc - pc_count pc)" "pipe_bytes pc' = pipe_bytes pc @ take n src"
    "pipe_inv pc'" "pc_cap pc' = pc_cap pc" "pc_count pc' = pc_count pc + n"
proof -
  have h: "pc_head pc < pc_cap pc" "pc_count pc \<le> pc_cap pc" "length (pc_buf pc) = pc_cap pc"
    using inv by (simp_all add: pipe_inv_def)
  define tail where "tail = (pc_head pc + pc_count pc) mod pc_cap pc"
  show n: "n = min len (pc_cap pc - pc_count pc)"
    using run by (auto simp: pipe_core_write_eq [OF inv] Let_def)
  define buf' where "buf' = ring_store tail src n (pc_buf pc)"
  have pc': "pc' = pc\<lparr>pc_buf := buf', pc_count := pc_count pc + n\<rparr>"
    using run by (auto simp: pipe_core_write_eq [OF inv] Let_def n buf'_def tail_def)
  have nle: "pc_count pc + n \<le> pc_cap pc" "n \<le> length src" using n h src by auto
  then have pre: "tail < length (pc_buf pc)" "n \<le> length (pc_buf pc)" "n \<le> length src"
    using h by (simp_all add: tail_def)
  show "pipe_inv pc'" "pc_cap pc' = pc_cap pc" "pc_count pc' = pc_count pc + n"
    unfolding pc' using inv length_ring_store [OF pre] nle by (auto simp: pipe_inv_def buf'_def)
  have kept: "buf' ! ((pc_head pc + i) mod pc_cap pc) = pc_buf pc ! ((pc_head pc + i) mod pc_cap pc)"
    if i: "i < pc_count pc" for i
    unfolding buf'_def
  proof (rule ring_store_kept [OF pre])
    show "(pc_head pc + i) mod pc_cap pc < length (pc_buf pc)" using h by simp
    fix k assume "k < n"
    then show "(pc_head pc + i) mod pc_cap pc \<noteq> (tail + k) mod length (pc_buf pc)"
      using ring_index_inj [of "pc_head pc" "pc_cap pc" i "pc_count pc + k"] h i nle
      by (auto simp: tail_def mod_add_left_eq add.assoc)
  qed
  have new: "buf' ! ((pc_head pc + (pc_count pc + k)) mod pc_cap pc) = src ! k" if "k < n" for k
    using ring_store_written [OF pre that] h
    by (simp add: buf'_def tail_def mod_add_left_eq add.assoc)
  show "pipe_bytes pc' = pipe_bytes pc @ take n src"
  proof (rule nth_equalityI)
    fix i assume "i < length (pipe_bytes pc')"
    then have i: "i < pc_count pc + n" by (simp add: pc')
    then show "pipe_bytes pc' ! i = (pipe_bytes pc @ take n src) ! i"
      using kept [of i] new [of "i - pc_count pc"]
      by (auto simp: pc' nth_append pipe_bytes_def)
  qed (use nle in \<open>simp add: pc'\<close>)
qed

section \<open>The channel interface\<close>

text \<open>
  What the blocking layers (\<^verbatim>\<open>pipe.c\<close>, \<^verbatim>\<open>socket.c\<close>) rely on: a bounded byte FIFO with a
  short-transfer read and write. A run of a channel is any sequence of write and read
  calls; \<open>fifo_run\<close> collects the bytes accepted and the bytes delivered.
\<close>

datatype fifo_call = Fifo_write "byte list" | Fifo_read nat

fun fifo_run :: "('q \<Rightarrow> nat \<Rightarrow> byte list \<times> nat \<times> 'q) \<Rightarrow> ('q \<Rightarrow> byte list \<Rightarrow> nat \<Rightarrow> nat \<times> 'q)
    \<Rightarrow> 'q \<Rightarrow> fifo_call list \<Rightarrow> byte list \<times> byte list \<times> 'q" where
  "fifo_run rd wr q [] = ([], [], q)"
| "fifo_run rd wr q (Fifo_write src # cs) =
     (let (n, q') = wr q src (length src); (sent, got, q'') = fifo_run rd wr q' cs
      in (take n src @ sent, got, q''))"
| "fifo_run rd wr q (Fifo_read len # cs) =
     (let (dst, n, q') = rd q len; (sent, got, q'') = fifo_run rd wr q' cs
      in (sent, dst @ got, q''))"

locale byte_fifo =
  fixes rd :: "'q \<Rightarrow> nat \<Rightarrow> byte list \<times> nat \<times> 'q"
    and wr :: "'q \<Rightarrow> byte list \<Rightarrow> nat \<Rightarrow> nat \<times> 'q"
    and bytes :: "'q \<Rightarrow> byte list" and cap :: "'q \<Rightarrow> nat" and inv :: "'q \<Rightarrow> bool"
  assumes rd_data: "inv q \<Longrightarrow> rd q len = (dst, n, q') \<Longrightarrow> dst = take len (bytes q)"
    and rd_count: "inv q \<Longrightarrow> rd q len = (dst, n, q') \<Longrightarrow> n = min len (length (bytes q))"
    and rd_bytes: "inv q \<Longrightarrow> rd q len = (dst, n, q') \<Longrightarrow> bytes q' = drop len (bytes q)"
    and rd_inv: "inv q \<Longrightarrow> rd q len = (dst, n, q') \<Longrightarrow> inv q' \<and> cap q' = cap q"
    and wr_count: "inv q \<Longrightarrow> len \<le> length src \<Longrightarrow> wr q src len = (n, q')
       \<Longrightarrow> n = min len (cap q - length (bytes q))"
    and wr_bytes: "inv q \<Longrightarrow> len \<le> length src \<Longrightarrow> wr q src len = (n, q')
       \<Longrightarrow> bytes q' = bytes q @ take n src"
    and wr_inv: "inv q \<Longrightarrow> len \<le> length src \<Longrightarrow> wr q src len = (n, q') \<Longrightarrow> inv q' \<and> cap q' = cap q"
    and bounded: "inv q \<Longrightarrow> length (bytes q) \<le> cap q"
begin

lemma rd_progress:
  assumes "inv q" "bytes q \<noteq> []" "0 < len" "rd q len = (dst, n, q')"
  shows "0 < n \<and> length dst = n"
  using assms rd_count [OF assms(1,4)] rd_data [OF assms(1,4)] by auto

lemma rd_empty_iff:
  assumes "inv q" "0 < len" "rd q len = (dst, n, q')"
  shows "n = 0 \<longleftrightarrow> bytes q = []"
  using assms rd_count [OF assms(1,3)] by (auto simp: min_def split: if_splits)

lemma wr_full_iff:
  assumes "inv q" "0 < len" "len \<le> length src" "wr q src len = (n, q')"
  shows "n = 0 \<longleftrightarrow> length (bytes q) = cap q"
  using wr_count [OF assms(1,3,4)] bounded [OF assms(1)] assms(2) by auto

lemma wr_short_full:
  assumes "inv q" "len \<le> length src" "wr q src len = (n, q')" "n < len"
  shows "length (bytes q') = cap q'"
  using wr_count [OF assms(1-3)] wr_bytes [OF assms(1-3)] wr_inv [OF assms(1-3)]
    bounded [OF assms(1)] assms by auto

lemma fifo_stream:
  assumes "inv q" "fifo_run rd wr q cs = (sent, got, q')"
  shows "bytes q @ sent = got @ bytes q' \<and> inv q' \<and> cap q' = cap q"
  using assms
proof (induction cs arbitrary: q sent got q')
  case Nil
  then show ?case by simp
next
  case (Cons c cs)
  show ?case
  proof (cases c)
    case (Fifo_write src)
    obtain n q1 where w: "wr q src (length src) = (n, q1)" by force
    obtain s1 g1 q2 where r: "fifo_run rd wr q1 cs = (s1, g1, q2)" by (metis prod_cases3)
    have "inv q1" "cap q1 = cap q" "bytes q1 = bytes q @ take n src"
      using wr_inv [OF Cons.prems(1) le_refl w] wr_bytes [OF Cons.prems(1) le_refl w] by simp_all
    with Cons.IH [OF _ r] Cons.prems(2) show ?thesis by (auto simp: Fifo_write w r)
  next
    case (Fifo_read len)
    obtain dst n q1 where w: "rd q len = (dst, n, q1)" by (metis prod_cases3)
    obtain s1 g1 q2 where r: "fifo_run rd wr q1 cs = (s1, g1, q2)" by (metis prod_cases3)
    have "inv q1" "cap q1 = cap q" "dst @ bytes q1 = bytes q"
      using rd_inv [OF Cons.prems(1) w] rd_bytes [OF Cons.prems(1) w] rd_data [OF Cons.prems(1) w]
      by simp_all
    with Cons.IH [OF _ r] Cons.prems(2) show ?thesis
      by (auto simp: Fifo_read w r) (metis append.assoc)
  qed
qed

end

interpretation ring: byte_fifo pipe_core_read pipe_core_write pipe_bytes pc_cap pipe_inv
proof (unfold_locales, goal_cases)
  case (1 q len dst n q') then show ?case using pipe_core_read_run [OF 1] by (simp add: min_def)
next
  case (2 q len dst n q') then show ?case using pipe_core_read_run [OF 2] by simp
next
  case (3 q len dst n q') then show ?case using pipe_core_read_run [OF 3] by (simp add: min_def)
next
  case (4 q len dst n q')
  then show ?case using pipe_core_read_run [OF 4] by (auto simp: pipe_core_read_def Let_def)
next
  case (5 q len src n q') then show ?case using pipe_core_write_run [OF 5] by simp
next
  case (6 q len src n q') then show ?case using pipe_core_write_run [OF 6] by simp
next
  case (7 q len src n q') then show ?case using pipe_core_write_run [OF 7] by simp
next
  case (8 q) then show ?case by (simp add: pipe_inv_def)
qed

section \<open>Properties\<close>

text \<open>
  C36. The ring buffer is a lossless byte stream: over any interleaving of
  \<^verbatim>\<open>pipe_core_write\<close> and \<^verbatim>\<open>pipe_core_read\<close> calls of any sizes from an empty pipe, the bytes
  accepted by the writes are, in order, the bytes delivered by the reads followed by the bytes
  still buffered, and never more than the capacity is buffered.
\<close>

theorem pipe_fifo_stream:
  assumes "0 < cap" and "cap \<le> 2 ^ 63" and "length buf = cap"
    and run: "fifo_run pipe_core_read pipe_core_write (pipe_core_init buf cap) cs = (sent, got, q)"
  shows "sent = got @ pipe_bytes q \<and> length (pipe_bytes q) = pipe_core_avail q
    \<and> pipe_core_avail q + pipe_core_space q = cap"
proof -
  have inv: "pipe_inv (pipe_core_init buf cap)" using assms by (simp add: pipe_inv_init)
  note s = ring.fifo_stream [OF inv run]
  have "pc_cap (pipe_core_init buf cap) = cap" by (simp add: pipe_core_init_def)
  moreover have "pipe_core_avail q + pipe_core_space q = pc_cap q" if "pipe_inv q" for q
    using that by (auto simp: pipe_core_avail_def pipe_core_space_def pipe_inv_def)
  ultimately show ?thesis using s by (simp add: pipe_bytes_init pipe_core_avail_def)
qed

theorem pipe_fifo_stream_witness:
  "\<exists>q. fifo_run pipe_core_read pipe_core_write (pipe_core_init [0, 0, 0] 3)
      [Fifo_write [1, 2], Fifo_read 1, Fifo_write [3, 4, 5]] = ([1, 2, 3, 4], [1], q)
    \<and> [1, 2, 3, 4] = [1] @ pipe_bytes q"
proof -
  let ?q = "\<lambda>b h c. \<lparr>pc_buf = b, pc_cap = 3, pc_head = h, pc_count = c\<rparr>"
  have s: "pipe_core_write (pipe_core_init [0, 0, 0] 3) [1, 2] (length [1 :: byte, 2]) = (2, ?q [1, 2, 0] 0 2)"
    "pipe_core_read (?q [1, 2, 0] 0 2) 1 = ([1], 1, ?q [1, 2, 0] 1 1)"
    "pipe_core_write (?q [1, 2, 0] 1 1) [3, 4, 5] (length [3 :: byte, 4, 5]) = (2, ?q [4, 2, 3] 1 3)"
    by code_simp+
  have r: "fifo_run pipe_core_read pipe_core_write (pipe_core_init [0, 0, 0] 3)
      [Fifo_write [1, 2], Fifo_read 1, Fifo_write [3, 4, 5]] = ([1, 2, 3, 4], [1], ?q [4, 2, 3] 1 3)"
    by (simp only: fifo_run.simps s Let_def prod.case) code_simp
  show ?thesis using pipe_fifo_stream [OF _ _ _ r] r by (intro exI conjI) auto
qed

text \<open>
  C37. Short transfers happen only at the boundaries: a write of \<open>len\<close> bytes takes
  \<open>min len space\<close> of them and appends that prefix of the source, so a short write leaves the
  ring full; a read takes \<open>min len avail\<close> bytes from the front, so a short read leaves it
  empty.
\<close>

theorem pipe_short_transfer:
  assumes inv: "pipe_inv pc" and len: "len \<le> length src"
    and w: "pipe_core_write pc src len = (n, pw)" and r: "pipe_core_read pc rlen = (dst, m, pr)"
  shows "n = min len (pipe_core_space pc) \<and> pipe_bytes pw = pipe_bytes pc @ take n src
    \<and> pipe_inv pw \<and> (n < len \<longrightarrow> pipe_core_space pw = 0)
    \<and> m = min rlen (pipe_core_avail pc) \<and> dst = take m (pipe_bytes pc)
    \<and> pipe_bytes pr = drop m (pipe_bytes pc) \<and> pipe_inv pr \<and> (m < rlen \<longrightarrow> pipe_core_avail pr = 0)"
proof -
  have space: "pipe_core_space x = pc_cap x - length (pipe_bytes x)" if "pipe_inv x" for x
    using that by (auto simp: pipe_core_space_def pipe_inv_def)
  have avail: "pipe_core_avail x = length (pipe_bytes x)" for x by (simp add: pipe_core_avail_def)
  have "pipe_inv pw" using ring.wr_inv [OF inv len w] by blast
  then have "n < len \<longrightarrow> pipe_core_space pw = 0"
    using ring.wr_short_full [OF inv len w] by (simp add: space)
  moreover have "dst = take m (pipe_bytes pc)" "pipe_bytes pr = drop m (pipe_bytes pc)"
    using ring.rd_count [OF inv r] ring.rd_data [OF inv r] ring.rd_bytes [OF inv r]
    by (simp_all add: min_def)
  moreover from this have "m < rlen \<longrightarrow> pipe_core_avail pr = 0"
    using ring.rd_count [OF inv r] by (simp add: avail del: length_pipe_bytes)
  ultimately show ?thesis
    using ring.wr_count [OF inv len w] ring.wr_bytes [OF inv len w] ring.wr_inv [OF inv len w]
      ring.rd_count [OF inv r] ring.rd_inv [OF inv r] space [OF inv] avail [of pc] by presburger
qed

theorem pipe_short_transfer_witness:
  "\<exists>pw pr. pipe_core_write \<lparr>pc_buf = [7, 0, 9], pc_cap = 3, pc_head = 2, pc_count = 2\<rparr> [4, 5] 2 = (1, pw)
     \<and> pipe_core_space pw = 0
     \<and> pipe_core_read \<lparr>pc_buf = [7, 0, 9], pc_cap = 3, pc_head = 2, pc_count = 2\<rparr> 4 = ([9, 7], 2, pr)
     \<and> pipe_core_avail pr = 0"
proof -
  let ?p = "\<lparr>pc_buf = [7, 0, 9], pc_cap = 3, pc_head = 2, pc_count = 2\<rparr>"
  let ?w = "pipe_core_write ?p [4, 5] 2" and ?r = "pipe_core_read ?p 4"
  have "fst ?w = 1" "fst ?r = [9, 7]" "fst (snd ?r) = 2" by code_simp+
  then have w: "?w = (1, snd ?w)" and r: "?r = ([9, 7], 2, snd (snd ?r))" by (metis prod.collapse)+
  have inv: "pipe_inv ?p" by code_simp
  show ?thesis using pipe_short_transfer [OF inv _ w r] w r by (intro exI conjI) auto
qed

end
