(* ===== verification/Pmm_Core.thy ===== *)
theory Pmm_Core
  imports Kernel_Prelude
begin

text \<open>
  The physical frame allocator (\<^verbatim>\<open>kernel/mm/pmm_core.c\<close>): a bitmap with a set bit for
  every used frame, an exact count of the free ones and a next-fit search position. The
  abstract state is the set of free frames; the lemmas show that every operation moves
  that set as its contract in \<^verbatim>\<open>pmm_core.h\<close> says, that the counter stays exact and that
  the searches are complete: they fail only when no frame (no aligned run) is free.
\<close>

section \<open>State and operations\<close>

record pmm =
  pmm_bitmap :: "byte list"
  pmm_nframes :: nat
  pmm_free_count :: nat
  pmm_hint :: nat

definition pmm_core_bitmap_size :: "nat \<Rightarrow> nat" where
  "pmm_core_bitmap_size nframes = u64 (nframes + 8 - 1) div 8"

definition pmm_core_init :: "byte list \<Rightarrow> nat \<Rightarrow> pmm" where
  "pmm_core_init bitmap nframes =
     \<lparr>pmm_bitmap = bsplice 0 (replicate (pmm_core_bitmap_size nframes) 0xFF) bitmap,
      pmm_nframes = nframes, pmm_free_count = 0, pmm_hint = 0\<rparr>"

definition pmm_test_bit :: "pmm \<Rightarrow> nat \<Rightarrow> bool" where
  "pmm_test_bit p frame = bm_test (pmm_bitmap p) frame"

definition pmm_set_bit :: "pmm \<Rightarrow> nat \<Rightarrow> pmm" where
  "pmm_set_bit p frame = p\<lparr>pmm_bitmap := bm_set (pmm_bitmap p) frame\<rparr>"

definition pmm_clear_bit :: "pmm \<Rightarrow> nat \<Rightarrow> pmm" where
  "pmm_clear_bit p frame = p\<lparr>pmm_bitmap := bm_clr (pmm_bitmap p) frame\<rparr>"

text \<open>
  The marking loops. The bound \<open>first + count\<close> is computed with wrap-around in C; \<open>f\<close> runs
  from \<open>first\<close> and stops at the bound or at the end of managed memory.
\<close>

function pmm_mark_used_from :: "pmm \<Rightarrow> nat \<Rightarrow> nat \<Rightarrow> pmm" where
  "pmm_mark_used_from p f bound =
     (if f < bound \<and> f < pmm_nframes p
      then pmm_mark_used_from
             (if \<not> pmm_test_bit p f
              then (pmm_set_bit p f)\<lparr>pmm_free_count := sub64 (pmm_free_count p) 1\<rparr> else p)
             (f + 1) bound
      else p)"
  by pat_completeness auto
termination
  by (relation "measure (\<lambda>(p, f, bound). bound - f)") auto

definition pmm_core_mark_used :: "pmm \<Rightarrow> nat \<Rightarrow> nat \<Rightarrow> pmm" where
  "pmm_core_mark_used p first count = pmm_mark_used_from p first (u64 (first + count))"

function pmm_mark_free_from :: "pmm \<Rightarrow> nat \<Rightarrow> nat \<Rightarrow> pmm" where
  "pmm_mark_free_from p f bound =
     (if f < bound \<and> f < pmm_nframes p
      then pmm_mark_free_from
             (if pmm_test_bit p f
              then (pmm_clear_bit p f)\<lparr>pmm_free_count := u64 (pmm_free_count p + 1)\<rparr> else p)
             (f + 1) bound
      else p)"
  by pat_completeness auto
termination
  by (relation "measure (\<lambda>(p, f, bound). bound - f)") auto

definition pmm_core_mark_free :: "pmm \<Rightarrow> nat \<Rightarrow> nat \<Rightarrow> pmm" where
  "pmm_core_mark_free p first count = pmm_mark_free_from p first (u64 (first + count))"

definition pmm_core_is_free :: "pmm \<Rightarrow> nat \<Rightarrow> bool" where
  "pmm_core_is_free p frame = (if frame \<ge> pmm_nframes p then False else \<not> pmm_test_bit p frame)"

text \<open>
  Next-fit search. The loop counter advances by one, or by eight over a fully used byte
  (\<^verbatim>\<open>scanned += BITS_PER_BYTE - 1\<close> and the \<^verbatim>\<open>scanned++\<close> of the loop). The result \<open>None\<close> is
  the C value -1.
\<close>

function pmm_scan :: "pmm \<Rightarrow> nat \<Rightarrow> nat option \<times> pmm" where
  "pmm_scan p scanned =
     (if scanned < pmm_nframes p
      then let f = u64 (pmm_hint p + scanned) mod pmm_nframes p in
        if f mod 8 = 0 \<and> pmm_bitmap p ! (f div 8) = 0xFF \<and> f + 8 \<le> pmm_nframes p
        then pmm_scan p (scanned + 7 + 1)
        else if \<not> pmm_test_bit p f
        then (Some f, (pmm_set_bit p f)\<lparr>pmm_free_count := sub64 (pmm_free_count p) 1,
                                        pmm_hint := (f + 1) mod pmm_nframes p\<rparr>)
        else pmm_scan p (scanned + 1)
      else (None, p))"
  by pat_completeness auto
termination
  by (relation "measure (\<lambda>(p, scanned). pmm_nframes p - scanned)") auto

definition pmm_core_alloc :: "pmm \<Rightarrow> nat option \<times> pmm" where
  "pmm_core_alloc p = (if pmm_free_count p = 0 then (None, p) else pmm_scan p 0)"

text \<open>Contiguous runs: the inner loop counts free frames from \<open>base\<close>, up to \<open>count\<close>.\<close>

function pmm_run_length :: "pmm \<Rightarrow> nat \<Rightarrow> nat \<Rightarrow> nat \<Rightarrow> nat" where
  "pmm_run_length p base count run =
     (if run < count \<and> \<not> pmm_test_bit p (base + run) then pmm_run_length p base count (run + 1)
      else run)"
  by pat_completeness auto
termination
  by (relation "measure (\<lambda>(p, base, count, run). count - run)") auto

text \<open>
  The outer loop steps \<open>base\<close> by \<open>align\<close>; the caller guard makes \<open>align\<close> positive, and the
  definition keeps the test so that it terminates for every argument. A frame count is a
  64-bit byte address divided by the page size, so \<open>base + align\<close> and \<open>base + count\<close> stay
  far below the range of \<^verbatim>\<open>uint64_t\<close> and are written without wrap-around.
\<close>

function pmm_run_search :: "pmm \<Rightarrow> nat \<Rightarrow> nat \<Rightarrow> nat \<Rightarrow> nat option \<times> pmm" where
  "pmm_run_search p count align base =
     (if base + count \<le> pmm_nframes p
      then if pmm_run_length p base count 0 = count
           then (Some base, pmm_core_mark_used p base count)
           else if align = 0 then (None, p) else pmm_run_search p count align (base + align)
      else (None, p))"
  by pat_completeness auto
termination
  by (relation "measure (\<lambda>(p, count, align, base). pmm_nframes p + 1 - base)") auto

definition pmm_core_alloc_run :: "pmm \<Rightarrow> nat \<Rightarrow> nat \<Rightarrow> nat option \<times> pmm" where
  "pmm_core_alloc_run p count align =
     (if count = 0 \<or> align = 0 \<or> align AND (align - 1) \<noteq> 0 \<or> count > pmm_free_count p
      then (None, p) else pmm_run_search p count align 0)"

text \<open>\<open>True\<close> is the C result 0, \<open>False\<close> is -1.\<close>

definition pmm_core_free :: "pmm \<Rightarrow> nat \<Rightarrow> bool \<times> pmm" where
  "pmm_core_free p frame =
     (if frame \<ge> pmm_nframes p \<or> \<not> pmm_test_bit p frame then (False, p)
      else (True, (pmm_clear_bit p frame)\<lparr>pmm_free_count := u64 (pmm_free_count p + 1)\<rparr>))"

declare pmm_mark_used_from.simps [simp del] pmm_mark_free_from.simps [simp del]
  pmm_scan.simps [simp del] pmm_run_length.simps [simp del] pmm_run_search.simps [simp del]

section \<open>Invariant and abstraction\<close>

definition pmm_free_set :: "pmm \<Rightarrow> nat set" where
  "pmm_free_set p = set (filter (\<lambda>f. \<not> pmm_test_bit p f) [0..<pmm_nframes p])"

lemma pmm_free_set_eq: "pmm_free_set p = {f. f < pmm_nframes p \<and> \<not> pmm_test_bit p f}"
  by (auto simp: pmm_free_set_def)

definition pmm_inv :: "pmm \<Rightarrow> bool" where
  "pmm_inv p \<longleftrightarrow> pmm_nframes p < 2 ^ 63 \<and> pmm_nframes p \<le> 8 * length (pmm_bitmap p)
     \<and> pmm_free_count p = card (pmm_free_set p) \<and> (pmm_hint p < pmm_nframes p \<or> pmm_hint p = 0)"

lemma finite_free_set [simp]: "finite (pmm_free_set p)"
  by (rule finite_subset [of _ "{..<pmm_nframes p}"]) (auto simp: pmm_free_set_eq)

lemma card_free_set_le: "card (pmm_free_set p) \<le> pmm_nframes p"
  using card_mono [of "{..<pmm_nframes p}" "pmm_free_set p"] by (auto simp: pmm_free_set_eq)

lemma pmm_inv_index: "pmm_inv p \<Longrightarrow> f < pmm_nframes p \<Longrightarrow> f div 8 < length (pmm_bitmap p)"
  unfolding pmm_inv_def by linarith

text \<open>Taking and returning one frame, the updates all operations are made of.\<close>

definition pmm_take :: "pmm \<Rightarrow> nat \<Rightarrow> pmm" where
  "pmm_take p f = (pmm_set_bit p f)\<lparr>pmm_free_count := sub64 (pmm_free_count p) 1\<rparr>"

definition pmm_give :: "pmm \<Rightarrow> nat \<Rightarrow> pmm" where
  "pmm_give p f = (pmm_clear_bit p f)\<lparr>pmm_free_count := u64 (pmm_free_count p + 1)\<rparr>"

lemma pmm_take_fields [simp]:
  "pmm_nframes (pmm_take p f) = pmm_nframes p" "pmm_hint (pmm_take p f) = pmm_hint p"
  "length (pmm_bitmap (pmm_take p f)) = length (pmm_bitmap p)"
  "pmm_free_count (pmm_take p f) = sub64 (pmm_free_count p) 1"
  by (simp_all add: pmm_take_def pmm_set_bit_def)

lemma pmm_give_fields [simp]:
  "pmm_nframes (pmm_give p f) = pmm_nframes p" "pmm_hint (pmm_give p f) = pmm_hint p"
  "length (pmm_bitmap (pmm_give p f)) = length (pmm_bitmap p)"
  "pmm_free_count (pmm_give p f) = u64 (pmm_free_count p + 1)"
  by (simp_all add: pmm_give_def pmm_clear_bit_def)

lemma pmm_take_free_set:
  assumes "pmm_inv p" "f < pmm_nframes p"
  shows "pmm_free_set (pmm_take p f) = pmm_free_set p - {f}"
  using pmm_inv_index [OF assms]
  by (auto simp: pmm_free_set_eq pmm_take_def pmm_set_bit_def pmm_test_bit_def)

lemma pmm_give_free_set:
  assumes "pmm_inv p" "f < pmm_nframes p"
  shows "pmm_free_set (pmm_give p f) = insert f (pmm_free_set p)"
  using pmm_inv_index [OF assms] assms(2)
  by (auto simp: pmm_free_set_eq pmm_give_def pmm_clear_bit_def pmm_test_bit_def)

lemma pmm_take_inv:
  assumes inv: "pmm_inv p" and f: "f \<in> pmm_free_set p"
  shows "pmm_inv (pmm_take p f)"
proof -
  have "f < pmm_nframes p" using f by (simp add: pmm_free_set_eq)
  moreover have "card (pmm_free_set p) > 0" using f by (auto simp: card_gt_0_iff)
  moreover have "card (pmm_free_set p) < 2 ^ 64"
    using card_free_set_le [of p] inv by (simp add: pmm_inv_def)
  ultimately show ?thesis
    using inv f pmm_take_free_set [OF inv, of f]
    by (simp add: pmm_inv_def card_Diff_singleton)
qed

lemma pmm_give_inv:
  assumes inv: "pmm_inv p" and f: "f < pmm_nframes p" "f \<notin> pmm_free_set p"
  shows "pmm_inv (pmm_give p f)"
proof -
  have "card (pmm_free_set p) + 1 < 2 ^ 64"
    using card_free_set_le [of p] inv by (simp add: pmm_inv_def)
  then show ?thesis
    using inv f pmm_give_free_set [OF inv, of f] by (simp add: pmm_inv_def)
qed

lemma pmm_init_inv:
  assumes "nframes < 2 ^ 63" "pmm_core_bitmap_size nframes \<le> length bitmap"
  shows "pmm_inv (pmm_core_init bitmap nframes)" "pmm_free_set (pmm_core_init bitmap nframes) = {}"
proof -
  let ?m = "pmm_core_bitmap_size nframes"
  have "u64 (nframes + 8 - 1) = nframes + 7" using assms(1) by (subst u64_id) simp_all
  then have m: "nframes \<le> 8 * ?m" by (simp only: pmm_core_bitmap_size_def)
  have "bm_test (bsplice 0 (replicate ?m 0xFF) bitmap) f" if "f < nframes" for f
  proof -
    have "f div 8 < ?m" using that m by linarith
    then have "bsplice 0 (replicate ?m 0xFF) bitmap ! (f div 8) = replicate ?m 0xFF ! (f div 8)"
      using assms(2) by (simp add: nth_splice)
    then have "bm_test (bsplice 0 (replicate ?m 0xFF) bitmap) f = bm_test (replicate ?m 0xFF) f"
      by (simp add: bm_test_def)
    then show ?thesis using that m bm_test_replicate_ones [of f ?m] by simp
  qed
  then show "pmm_free_set (pmm_core_init bitmap nframes) = {}"
    by (auto simp: pmm_free_set_eq pmm_core_init_def pmm_test_bit_def)
  then show "pmm_inv (pmm_core_init bitmap nframes)"
    using assms m by (simp add: pmm_inv_def) (simp add: pmm_core_init_def)
qed

section \<open>Marking ranges\<close>

lemma pmm_mark_used_from_run:
  assumes "pmm_inv p"
  shows "pmm_inv (pmm_mark_used_from p f bound)
    \<and> pmm_free_set (pmm_mark_used_from p f bound) = pmm_free_set p - {f..<bound}
    \<and> pmm_nframes (pmm_mark_used_from p f bound) = pmm_nframes p"
  using assms
proof (induction p f bound rule: pmm_mark_used_from.induct)
  case (1 p f bound)
  show ?case
  proof (cases "f < bound \<and> f < pmm_nframes p")
    case True
    let ?p = "if \<not> pmm_test_bit p f then pmm_take p f else p"
    have inv: "pmm_inv ?p" using "1.prems" True by (auto intro: pmm_take_inv simp: pmm_free_set_eq)
    have free: "pmm_free_set ?p = pmm_free_set p - {f}"
      using pmm_take_free_set [OF "1.prems", of f] True by (auto simp: pmm_free_set_eq)
    have "pmm_mark_used_from p f bound = pmm_mark_used_from ?p (f + 1) bound"
      using True by (simp add: pmm_mark_used_from.simps [of p f] pmm_take_def)
    moreover have "{f..<bound} = insert f {f + 1..<bound}" using True by auto
    moreover note "1.IH" [OF True, folded pmm_take_def, OF inv]
    ultimately show ?thesis using free by auto
  next
    case False
    then show ?thesis using "1.prems"
      by (subst (1 2 3) pmm_mark_used_from.simps) (auto simp: pmm_free_set_eq)
  qed
qed

lemma pmm_mark_free_from_run:
  assumes "pmm_inv p"
  shows "pmm_inv (pmm_mark_free_from p f bound)
    \<and> pmm_free_set (pmm_mark_free_from p f bound) = pmm_free_set p \<union> ({f..<bound} \<inter> {..<pmm_nframes p})
    \<and> pmm_nframes (pmm_mark_free_from p f bound) = pmm_nframes p"
  using assms
proof (induction p f bound rule: pmm_mark_free_from.induct)
  case (1 p f bound)
  show ?case
  proof (cases "f < bound \<and> f < pmm_nframes p")
    case True
    let ?p = "if pmm_test_bit p f then pmm_give p f else p"
    have inv: "pmm_inv ?p" using "1.prems" True by (auto intro: pmm_give_inv simp: pmm_free_set_eq)
    have free: "pmm_free_set ?p = insert f (pmm_free_set p)"
      using pmm_give_free_set [OF "1.prems", of f] True by (auto simp: pmm_free_set_eq)
    have "pmm_mark_free_from p f bound = pmm_mark_free_from ?p (f + 1) bound"
      using True by (simp add: pmm_mark_free_from.simps [of p f] pmm_give_def)
    moreover have "{f..<bound} = insert f {f + 1..<bound}" using True by auto
    moreover have "pmm_nframes ?p = pmm_nframes p" by simp
    moreover note "1.IH" [OF True, folded pmm_give_def, OF inv]
    ultimately show ?thesis using free True by auto
  next
    case False
    then show ?thesis using "1.prems"
      by (subst (1 2 3) pmm_mark_free_from.simps) (auto simp: pmm_free_set_eq)
  qed
qed

lemma pmm_mark_used_from_hint [simp]: "pmm_hint (pmm_mark_used_from p f bound) = pmm_hint p"
proof (induction p f bound rule: pmm_mark_used_from.induct)
  case (1 p f bound)
  then show ?case
    by (subst pmm_mark_used_from.simps) (simp add: pmm_set_bit_def)
qed

section \<open>Next-fit allocation\<close>

text \<open>The frame the search looks at after \<open>k\<close> positions.\<close>

abbreviation pmm_pos :: "pmm \<Rightarrow> nat \<Rightarrow> nat" where
  "pmm_pos p k \<equiv> (pmm_hint p + k) mod pmm_nframes p"

lemma full_byte_used:
  assumes "f mod 8 = 0" "bm ! (f div 8) = (0xFF :: byte)" "i < 8"
  shows "bm_test bm (f + i)"
proof -
  obtain q where q: "f = 8 * q" using assms(1) by (metis mod_0_imp_dvd dvdE)
  then have "(f + i) div 8 = f div 8" "(f + i) mod 8 = i" using assms(3) by simp_all
  moreover have "bit (0xFF :: byte) i"
    using bm_test_replicate_ones [of i 1] assms(3) by (simp only: bm_test_bit) simp
  ultimately show ?thesis using assms(2) by (simp only: bm_test_bit)
qed

lemma skip_byte_used:
  assumes inv: "pmm_inv p" and "scanned < pmm_nframes p" and f: "f = pmm_pos p scanned"
    and byte: "f mod 8 = 0" "pmm_bitmap p ! (f div 8) = 0xFF" "f + 8 \<le> pmm_nframes p"
    and j: "scanned \<le> j" "j < scanned + 8"
  shows "pmm_pos p j \<notin> pmm_free_set p"
proof -
  have "pmm_hint p + j = (pmm_hint p + scanned) + (j - scanned)" using j by simp
  then have "pmm_pos p j = (f + (j - scanned)) mod pmm_nframes p"
    using f mod_add_left_eq by metis
  also have "\<dots> = f + (j - scanned)" using j byte(3) by simp
  finally have "pmm_pos p j = f + (j - scanned)" .
  moreover have "pmm_test_bit p (f + (j - scanned))"
    unfolding pmm_test_bit_def using j by (intro full_byte_used [OF byte(1,2)]) linarith
  ultimately show ?thesis by (simp add: pmm_free_set_eq)
qed

text \<open>
  From position \<open>scanned\<close> on, the search stops at the first free frame, which it takes,
  or it has seen that none is free.
\<close>

definition pmm_first_free :: "pmm \<Rightarrow> nat \<Rightarrow> nat option" where
  "pmm_first_free p from =
     map_option (pmm_pos p) (List.find (\<lambda>k. pmm_pos p k \<in> pmm_free_set p) [from..<pmm_nframes p])"

lemma find_upt_step:
  "i < n \<Longrightarrow> List.find P [i..<n] = (if P i then Some i else List.find P [Suc i..<n])"
  by (simp add: upt_conv_Cons)

lemma find_upt_skip:
  assumes "\<And>j. i \<le> j \<Longrightarrow> j < i + d \<Longrightarrow> \<not> P j"
  shows "List.find P [i..<n] = List.find P [i + d..<n]"
  using assms
proof (induction d)
  case 0
  then show ?case by simp
next
  case (Suc d)
  then have "List.find P [i..<n] = List.find P [i + d..<n]" by simp
  moreover have "\<not> P (i + d)" using Suc.prems [of "i + d"] by simp
  ultimately show ?case by (cases "i + d < n") (simp_all add: find_upt_step)
qed

lemma pmm_scan_run:
  assumes "pmm_inv p"
  shows "pmm_scan p scanned =
    (case pmm_first_free p scanned of None \<Rightarrow> (None, p)
     | Some f \<Rightarrow> (Some f, (pmm_take p f)\<lparr>pmm_hint := (f + 1) mod pmm_nframes p\<rparr>))"
  using assms
proof (induction p scanned rule: pmm_scan.induct)
  case (1 p scanned)
  let ?P = "\<lambda>k. pmm_pos p k \<in> pmm_free_set p"
  show ?case
  proof (cases "scanned < pmm_nframes p")
    case False
    then show ?thesis by (subst pmm_scan.simps) (simp add: pmm_first_free_def)
  next
    case True
    have u: "u64 (pmm_hint p + scanned) = pmm_hint p + scanned"
      using "1.prems" True by (intro u64_id) (auto simp: pmm_inv_def)
    define f where "f = pmm_pos p scanned"
    have fn: "f < pmm_nframes p" using True by (simp add: f_def)
    note step = pmm_scan.simps [of p scanned, unfolded Let_def u, folded f_def]
    consider (skip) "f mod 8 = 0 \<and> pmm_bitmap p ! (f div 8) = 0xFF \<and> f + 8 \<le> pmm_nframes p"
      | (hit) "\<not> (f mod 8 = 0 \<and> pmm_bitmap p ! (f div 8) = 0xFF \<and> f + 8 \<le> pmm_nframes p)"
          "\<not> pmm_test_bit p f"
      | (used) "\<not> (f mod 8 = 0 \<and> pmm_bitmap p ! (f div 8) = 0xFF \<and> f + 8 \<le> pmm_nframes p)"
          "pmm_test_bit p f" by blast
    then show ?thesis
    proof cases
      case skip
      then have "pmm_first_free p scanned = pmm_first_free p (scanned + 8)"
        unfolding pmm_first_free_def
        using skip_byte_used [OF "1.prems" True f_def]
        by (subst find_upt_skip [of _ 8]) auto
      moreover have "pmm_scan p scanned = pmm_scan p (scanned + 7 + 1)"
        by (subst step) (simp only: True skip if_True simp_thms)
      ultimately show ?thesis
        using "1.IH"(1) [OF True refl] skip "1.prems" u by (simp add: f_def add.commute)
    next
      case hit
      then have "pmm_first_free p scanned = Some f"
        using True fn by (simp add: pmm_first_free_def find_upt_step pmm_free_set_eq f_def)
      moreover have "pmm_scan p scanned =
          (Some f, (pmm_take p f)\<lparr>pmm_hint := (f + 1) mod pmm_nframes p\<rparr>)"
        by (subst step) (simp only: True hit pmm_take_def if_True if_False not_False_eq_True
          pmm.update_convs)
      ultimately show ?thesis by simp
    next
      case used
      then have "pmm_first_free p scanned = pmm_first_free p (scanned + 1)"
        using True fn by (simp add: pmm_first_free_def find_upt_step pmm_free_set_eq f_def)
      moreover have "pmm_scan p scanned = pmm_scan p (scanned + 1)"
        by (subst step) (simp only: True used if_True if_False not_True_eq_False)
      ultimately show ?thesis
        using "1.IH"(2) [OF True refl] used "1.prems" u by (simp add: f_def)
    qed
  qed
qed

lemma pmm_first_free_Some:
  assumes "pmm_first_free p 0 = Some f"
  shows "f \<in> pmm_free_set p"
    and "\<exists>k < pmm_nframes p. f = pmm_pos p k \<and> (\<forall>j < k. pmm_pos p j \<notin> pmm_free_set p)"
  using assms by (auto simp: pmm_first_free_def find_Some_iff)

lemma pmm_first_free_None:
  assumes "pmm_inv p" "pmm_first_free p 0 = None"
  shows "pmm_free_set p = {}"
proof -
  have none: "pmm_pos p k \<notin> pmm_free_set p" if "k < pmm_nframes p" for k
    using assms(2) that by (auto simp: pmm_first_free_def find_None_iff)
  have "f \<notin> pmm_free_set p" for f
  proof
    assume f: "f \<in> pmm_free_set p"
    then have fn: "f < pmm_nframes p" by (simp add: pmm_free_set_eq)
    define k where "k = (f + (pmm_nframes p - pmm_hint p)) mod pmm_nframes p"
    have h: "pmm_hint p \<le> pmm_nframes p" using assms(1) fn by (auto simp: pmm_inv_def)
    have "pmm_pos p k = (pmm_hint p + (f + (pmm_nframes p - pmm_hint p))) mod pmm_nframes p"
      by (simp add: k_def mod_add_right_eq)
    also have "pmm_hint p + (f + (pmm_nframes p - pmm_hint p)) = f + pmm_nframes p" using h by simp
    finally have "pmm_pos p k = f" using fn by simp
    moreover have "k < pmm_nframes p" using fn by (simp add: k_def)
    ultimately show False using none f by metis
  qed
  then show ?thesis by blast
qed

lemma pmm_hint_inv:
  "pmm_inv p \<Longrightarrow> f < pmm_nframes p \<Longrightarrow> pmm_inv (p\<lparr>pmm_hint := (f + 1) mod pmm_nframes p\<rparr>)"
  by (auto simp: pmm_inv_def pmm_free_set_eq pmm_test_bit_def)

lemma pmm_hint_free_set [simp]: "pmm_free_set (p\<lparr>pmm_hint := h\<rparr>) = pmm_free_set p"
  by (simp add: pmm_free_set_eq pmm_test_bit_def)

lemma pmm_core_alloc_run_Some:
  assumes inv: "pmm_inv p" and run: "pmm_core_alloc p = (Some f, p')"
  shows "f \<in> pmm_free_set p" "pmm_free_set p' = pmm_free_set p - {f}" "pmm_inv p'"
    "\<exists>k < pmm_nframes p. f = pmm_pos p k \<and> (\<forall>j < k. pmm_pos p j \<notin> pmm_free_set p)"
proof -
  have ff: "pmm_first_free p 0 = Some f"
    and p': "p' = (pmm_take p f)\<lparr>pmm_hint := (f + 1) mod pmm_nframes p\<rparr>"
    using run pmm_scan_run [OF inv, of 0] by (auto simp: pmm_core_alloc_def split: if_splits option.splits)
  show f: "f \<in> pmm_free_set p"
    "\<exists>k < pmm_nframes p. f = pmm_pos p k \<and> (\<forall>j < k. pmm_pos p j \<notin> pmm_free_set p)"
    using pmm_first_free_Some [OF ff] by blast+
  then have "f < pmm_nframes p" by (simp add: pmm_free_set_eq)
  then show "pmm_free_set p' = pmm_free_set p - {f}"
    by (simp add: p' pmm_take_free_set [OF inv])
  show "pmm_inv p'"
    using pmm_hint_inv [OF pmm_take_inv [OF inv f(1)], of f] \<open>f < pmm_nframes p\<close> by (simp add: p')
qed

lemma pmm_core_alloc_None_iff:
  assumes inv: "pmm_inv p"
  shows "fst (pmm_core_alloc p) = None \<longleftrightarrow> pmm_free_set p = {}"
proof
  assume "fst (pmm_core_alloc p) = None"
  then have "pmm_free_count p = 0 \<or> pmm_first_free p 0 = None"
    using pmm_scan_run [OF inv, of 0] by (auto simp: pmm_core_alloc_def split: if_splits option.splits)
  then show "pmm_free_set p = {}"
    using inv pmm_first_free_None [OF inv] by (auto simp: pmm_inv_def)
next
  assume "pmm_free_set p = {}"
  then show "fst (pmm_core_alloc p) = None" using inv by (simp add: pmm_core_alloc_def pmm_inv_def)
qed

lemma pmm_core_alloc_None_same:
  "pmm_inv p \<Longrightarrow> pmm_core_alloc p = (None, p') \<Longrightarrow> p' = p"
  using pmm_scan_run [of p 0] by (auto simp: pmm_core_alloc_def split: if_splits option.splits)

section \<open>Contiguous runs\<close>

definition pmm_free_run :: "pmm \<Rightarrow> nat \<Rightarrow> nat \<Rightarrow> bool" where
  "pmm_free_run p base count \<longleftrightarrow> {base..<base + count} \<subseteq> pmm_free_set p"

lemma pmm_run_length_full_iff:
  assumes "run \<le> count"
  shows "pmm_run_length p base count run = count \<longleftrightarrow>
    (\<forall>i. run \<le> i \<and> i < count \<longrightarrow> \<not> pmm_test_bit p (base + i))"
  using assms
proof (induction p base count run rule: pmm_run_length.induct)
  case (1 p base count run)
  show ?case
  proof (cases "run < count \<and> \<not> pmm_test_bit p (base + run)")
    case True
    then have "pmm_run_length p base count run = pmm_run_length p base count (run + 1)"
      by (subst pmm_run_length.simps) simp
    moreover have "(\<forall>i. run \<le> i \<and> i < count \<longrightarrow> \<not> pmm_test_bit p (base + i)) \<longleftrightarrow>
        (\<forall>i. run + 1 \<le> i \<and> i < count \<longrightarrow> \<not> pmm_test_bit p (base + i))"
      using True by (auto simp: Suc_le_eq order_le_less [of run])
    ultimately show ?thesis using "1.IH" [OF True] True by simp
  next
    case False
    then have "pmm_run_length p base count run = run"
      by (subst pmm_run_length.simps) auto
    then show ?thesis using False "1.prems" by (cases "run = count") auto
  qed
qed

lemma pmm_run_length_free_run:
  assumes "base + count \<le> pmm_nframes p"
  shows "pmm_run_length p base count 0 = count \<longleftrightarrow> pmm_free_run p base count"
proof -
  have "pmm_free_run p base count \<longleftrightarrow> (\<forall>i<count. \<not> pmm_test_bit p (base + i))"
  proof
    assume "pmm_free_run p base count"
    then show "\<forall>i<count. \<not> pmm_test_bit p (base + i)"
      by (auto simp: pmm_free_run_def pmm_free_set_eq subset_iff)
  next
    assume *: "\<forall>i<count. \<not> pmm_test_bit p (base + i)"
    have "x \<in> pmm_free_set p" if "base \<le> x" "x < base + count" for x
      using *[rule_format, of "x - base"] that assms by (simp add: pmm_free_set_eq)
    then show "pmm_free_run p base count" by (auto simp: pmm_free_run_def)
  qed
  then show ?thesis by (simp add: pmm_run_length_full_iff)
qed

lemma pmm_free_run_bound: "pmm_free_run p base count \<Longrightarrow> 0 < count \<Longrightarrow> base + count \<le> pmm_nframes p"
  unfolding pmm_free_run_def pmm_free_set_eq
  by (drule subsetD [of _ _ "base + count - 1"]) auto

lemma pmm_run_search_Some:
  assumes "pmm_run_search p count align base = (Some b, p')"
  shows "pmm_free_run p b count \<and> p' = pmm_core_mark_used p b count \<and> b + count \<le> pmm_nframes p
    \<and> (\<exists>k. b = base + k * align \<and> (\<forall>j<k. \<not> pmm_free_run p (base + j * align) count))"
  using assms
proof (induction p count align base rule: pmm_run_search.induct)
  case (1 p count align base)
  show ?case
  proof (cases "base + count \<le> pmm_nframes p")
    case fits: True
    show ?thesis
    proof (cases "pmm_free_run p base count")
      case True
      then have "b = base" "p' = pmm_core_mark_used p base count"
        using "1.prems" fits
        by (auto simp: pmm_run_search.simps [of p count align base] pmm_run_length_free_run)
      then show ?thesis using fits True by (intro conjI exI [of _ 0]) simp_all
    next
      case False
      then have len: "pmm_run_length p base count 0 \<noteq> count" using fits
        by (simp add: pmm_run_length_free_run)
      then have al: "align \<noteq> 0" and rec: "pmm_run_search p count align (base + align) = (Some b, p')"
        using "1.prems" fits
        by (auto simp: pmm_run_search.simps [of p count align base] split: if_splits)
      then obtain k where k: "b = base + align + k * align"
        "\<forall>j<k. \<not> pmm_free_run p (base + align + j * align) count"
        using "1.IH" [OF fits len al rec] by blast
      have "\<not> pmm_free_run p (base + j * align) count" if "j < Suc k" for j
        using False k(2) that by (cases j) (simp_all add: add.assoc)
      then have "\<exists>k. b = base + k * align \<and> (\<forall>j<k. \<not> pmm_free_run p (base + j * align) count)"
        using k(1) by (intro exI [of _ "Suc k"]) simp
      then show ?thesis using "1.IH" [OF fits len al rec] by blast
    qed
  next
    case False
    then show ?thesis using "1.prems" by (simp add: pmm_run_search.simps [of p count align base])
  qed
qed

lemma pmm_run_search_None:
  assumes "pmm_run_search p count align base = (None, p')" "align \<noteq> 0" "0 < count"
  shows "p' = p \<and> (\<forall>k. \<not> pmm_free_run p (base + k * align) count)"
  using assms
proof (induction p count align base rule: pmm_run_search.induct)
  case (1 p count align base)
  show ?case
  proof (cases "base + count \<le> pmm_nframes p")
    case fits: True
    then have len: "pmm_run_length p base count 0 \<noteq> count"
      and rec: "pmm_run_search p count align (base + align) = (None, p')"
      using "1.prems" by (auto simp: pmm_run_search.simps [of p count align base] split: if_splits)
    note IH = "1.IH" [OF fits len "1.prems"(2) rec "1.prems"(2,3)]
    have "\<not> pmm_free_run p (base + k * align) count" for k
      using IH len fits by (cases k) (simp_all add: pmm_run_length_free_run add.assoc)
    then show ?thesis using IH by blast
  next
    case False
    then have "p' = p" using "1.prems" by (simp add: pmm_run_search.simps [of p count align base])
    moreover have "\<not> pmm_free_run p (base + k * align) count" for k
      using False pmm_free_run_bound [of p "base + k * align" count] "1.prems"(3)
      by (meson add_le_mono1 le_add1 le_trans)
    ultimately show ?thesis by blast
  qed
qed

lemma pmm_core_mark_used_run:
  assumes "pmm_inv p" "first + count < 2 ^ 64"
  shows "pmm_inv (pmm_core_mark_used p first count)"
    "pmm_free_set (pmm_core_mark_used p first count) = pmm_free_set p - {first..<first + count}"
  using pmm_mark_used_from_run [OF assms(1), of first "first + count"] assms(2)
  by (simp_all add: pmm_core_mark_used_def)

lemma pmm_core_mark_free_run:
  assumes "pmm_inv p" "first + count < 2 ^ 64"
  shows "pmm_inv (pmm_core_mark_free p first count)"
    "pmm_free_set (pmm_core_mark_free p first count)
      = pmm_free_set p \<union> {first..<min (first + count) (pmm_nframes p)}"
proof -
  have "{first..<first + count} \<inter> {..<pmm_nframes p} = {first..<min (first + count) (pmm_nframes p)}"
    by auto
  then show "pmm_inv (pmm_core_mark_free p first count)"
    "pmm_free_set (pmm_core_mark_free p first count)
      = pmm_free_set p \<union> {first..<min (first + count) (pmm_nframes p)}"
    using pmm_mark_free_from_run [OF assms(1), of first "first + count"] assms(2)
    by (simp_all only: pmm_core_mark_free_def u64_id)
qed

lemma pmm_core_free_run:
  assumes "pmm_inv p"
  shows "pmm_core_free p frame =
    (if frame < pmm_nframes p \<and> frame \<notin> pmm_free_set p then (True, pmm_give p frame) else (False, p))"
  by (auto simp: pmm_core_free_def pmm_give_def pmm_free_set_eq)

section \<open>The frame pool interface\<close>

text \<open>
  What the rest of the kernel relies on: frames come out of the free set one at a time and go
  back to it. A client trace is a list of calls; the client owns the frames it was given and
  has not returned.
\<close>

datatype pool_call = Pool_alloc | Pool_free nat

fun pool_run :: "('p \<Rightarrow> nat option \<times> 'p) \<Rightarrow> ('p \<Rightarrow> nat \<Rightarrow> bool \<times> 'p) \<Rightarrow> 'p \<Rightarrow> nat list
    \<Rightarrow> pool_call list \<Rightarrow> nat list \<times> 'p" where
  "pool_run al fr p owned [] = (owned, p)"
| "pool_run al fr p owned (Pool_alloc # cs) =
     (case al p of (Some f, p') \<Rightarrow> pool_run al fr p' (f # owned) cs
      | (None, p') \<Rightarrow> pool_run al fr p' owned cs)"
| "pool_run al fr p owned (Pool_free f # cs) =
     (if f \<in> set owned then pool_run al fr (snd (fr p f)) (removeAll f owned) cs
      else pool_run al fr p owned cs)"

locale frame_pool =
  fixes al :: "'p \<Rightarrow> nat option \<times> 'p" and fr :: "'p \<Rightarrow> nat \<Rightarrow> bool \<times> 'p"
    and free :: "'p \<Rightarrow> nat set" and frames :: "'p \<Rightarrow> nat set" and inv :: "'p \<Rightarrow> bool"
  assumes al_Some: "inv p \<Longrightarrow> al p = (Some f, p') \<Longrightarrow>
      f \<in> free p \<and> free p' = free p - {f} \<and> frames p' = frames p \<and> inv p'"
    and al_None: "inv p \<Longrightarrow> al p = (None, p') \<Longrightarrow> free p = {} \<and> p' = p"
    and fr_used: "inv p \<Longrightarrow> f \<in> frames p - free p \<Longrightarrow> fr p f = (ok, p') \<Longrightarrow>
      ok \<and> free p' = insert f (free p) \<and> frames p' = frames p \<and> inv p'"
    and free_frames: "inv p \<Longrightarrow> free p \<subseteq> frames p"
begin

lemma pool_run_owned:
  assumes "inv p" "distinct owned" "set owned \<subseteq> frames p - free p"
    and "pool_run al fr p owned cs = (owned', p')"
  shows "inv p' \<and> distinct owned' \<and> set owned' \<subseteq> frames p' - free p' \<and> frames p' = frames p
    \<and> free p' \<union> set owned' = free p \<union> set owned"
  using assms
proof (induction cs arbitrary: p owned)
  case Nil
  then show ?case by simp
next
  case (Cons c cs)
  show ?case
  proof (cases c)
    case Pool_alloc
    obtain r q where al: "al p = (r, q)" by fastforce
    show ?thesis
    proof (cases r)
      case None
      then have "q = p" using al_None [OF Cons.prems(1)] al by simp
      then have "pool_run al fr p owned cs = (owned', p')"
        using Cons.prems(4) al None Pool_alloc by simp
      then show ?thesis by (rule Cons.IH [OF Cons.prems(1-3)])
    next
      case (Some f)
      note q = al_Some [OF Cons.prems(1) al [unfolded Some]]
      then have fresh: "f \<notin> set owned" using Cons.prems(3) by blast
      have "set (f # owned) \<subseteq> frames q - free q"
        using q Cons.prems(3) free_frames [OF Cons.prems(1)] by auto
      moreover have "pool_run al fr q (f # owned) cs = (owned', p')"
        using Cons.prems(4) al Some Pool_alloc by simp
      ultimately have "inv p' \<and> distinct owned' \<and> set owned' \<subseteq> frames p' - free p'
          \<and> frames p' = frames q \<and> free p' \<union> set owned' = free q \<union> set (f # owned)"
        using Cons.prems(2) q fresh by (intro Cons.IH) simp_all
      then show ?thesis using q by auto
    qed
  next
    case (Pool_free f)
    show ?thesis
    proof (cases "f \<in> set owned")
      case True
      obtain ok q where fr: "fr p f = (ok, q)" by fastforce
      have q: "ok \<and> free q = insert f (free p) \<and> frames q = frames p \<and> inv q"
        using fr_used [OF Cons.prems(1) _ fr] True Cons.prems(3) by blast
      have "set (removeAll f owned) \<subseteq> frames q - free q" using q Cons.prems(3) by auto
      moreover have "pool_run al fr q (removeAll f owned) cs = (owned', p')"
        using Cons.prems(4) fr True Pool_free by simp
      ultimately have "inv p' \<and> distinct owned' \<and> set owned' \<subseteq> frames p' - free p'
          \<and> frames p' = frames q \<and> free p' \<union> set owned' = free q \<union> set (removeAll f owned)"
        using Cons.prems(2) q by (intro Cons.IH) (simp_all add: distinct_removeAll)
      then show ?thesis using q True by auto
    next
      case False
      then have "pool_run al fr p owned cs = (owned', p')" using Cons.prems(4) Pool_free by simp
      then show ?thesis by (rule Cons.IH [OF Cons.prems(1-3)])
    qed
  qed
qed

end

lemma pmm_core_alloc_nframes: "pmm_inv p \<Longrightarrow> pmm_core_alloc p = (Some f, p') \<Longrightarrow> pmm_nframes p' = pmm_nframes p"
  using pmm_scan_run [of p 0] by (auto simp: pmm_core_alloc_def split: if_splits option.splits)

interpretation pool: frame_pool pmm_core_alloc pmm_core_free pmm_free_set
  "\<lambda>p. {..<pmm_nframes p}" pmm_inv
proof
  fix p f p' assume run: "pmm_inv p" "pmm_core_alloc p = (Some f, p')"
  show "f \<in> pmm_free_set p \<and> pmm_free_set p' = pmm_free_set p - {f}
      \<and> {..<pmm_nframes p'} = {..<pmm_nframes p} \<and> pmm_inv p'"
    using pmm_core_alloc_run_Some(1-3) [OF run] pmm_core_alloc_nframes [OF run] by simp
next
  fix p p' assume "pmm_inv p" "pmm_core_alloc p = (None, p')"
  then show "pmm_free_set p = {} \<and> p' = p"
    using pmm_core_alloc_None_iff [of p] pmm_core_alloc_None_same [of p p'] by simp
next
  fix p f ok p' assume p: "pmm_inv p" "f \<in> {..<pmm_nframes p} - pmm_free_set p"
    and run: "pmm_core_free p f = (ok, p')"
  then have "ok" "p' = pmm_give p f" using pmm_core_free_run [OF p(1), of f] by auto
  then show "ok \<and> pmm_free_set p' = insert f (pmm_free_set p)
      \<and> {..<pmm_nframes p'} = {..<pmm_nframes p} \<and> pmm_inv p'"
    using p pmm_give_inv [OF p(1), of f] pmm_give_free_set [OF p(1), of f] by simp
next
  fix p show "pmm_free_set p \<subseteq> {..<pmm_nframes p}" by (auto simp: pmm_free_set_eq)
qed

section \<open>Properties\<close>

text \<open>
  C33. The next-fit allocator finds a frame exactly when one is free. From a state that
  satisfies the invariant, \<^verbatim>\<open>pmm_core_alloc\<close> returns the first free frame in cyclic order from
  the hint, removes that frame and no other from the free set and keeps the invariant (so the
  skip over fully used bytes never misses a frame); it returns -1 only when no frame is free
  and then changes nothing.
\<close>

theorem pmm_alloc_next_fit:
  assumes "pmm_inv p"
  shows "case pmm_core_alloc p of
      (Some f, p') \<Rightarrow> f \<in> pmm_free_set p \<and> pmm_free_set p' = pmm_free_set p - {f} \<and> pmm_inv p'
        \<and> (\<exists>k < pmm_nframes p. f = (pmm_hint p + k) mod pmm_nframes p
             \<and> (\<forall>j < k. (pmm_hint p + j) mod pmm_nframes p \<notin> pmm_free_set p))
    | (None, p') \<Rightarrow> pmm_free_set p = {} \<and> p' = p"
  using pmm_core_alloc_run_Some [OF assms] pool.al_None [OF assms]
  by (auto split: prod.split option.split)

definition pmm_example :: pmm where
  "pmm_example = \<lparr>pmm_bitmap = [0xFF, 0xF7, 0xFE], pmm_nframes = 20, pmm_free_count = 2, pmm_hint = 12\<rparr>"

lemma pmm_example_inv: "pmm_inv pmm_example"
  by code_simp

theorem pmm_alloc_next_fit_witness:
  "pmm_inv pmm_example \<and> fst (pmm_core_alloc pmm_example) = Some 16
   \<and> pmm_free_set (snd (pmm_core_alloc pmm_example)) = pmm_free_set pmm_example - {16}"
proof -
  have run: "fst (pmm_core_alloc pmm_example) = Some 16" by code_simp
  then obtain p' where "pmm_core_alloc pmm_example = (Some 16, p')" by (metis prod.collapse)
  then show ?thesis using pmm_alloc_next_fit [OF pmm_example_inv] pmm_example_inv by simp
qed

text \<open>
  C34. Contiguous allocation is first fit over the aligned bases and complete: for a positive
  count and a power-of-two alignment, \<^verbatim>\<open>pmm_core_alloc_run\<close> returns the lowest aligned base
  whose \<open>count\<close> frames are all free and takes exactly those frames, and it fails only when no
  aligned run of that length is free.
\<close>

theorem pmm_alloc_run_first_fit:
  assumes inv: "pmm_inv p" and "0 < count" and "0 < align" and "align AND (align - 1) = 0"
  shows "case pmm_core_alloc_run p count align of
      (Some b, p') \<Rightarrow> align dvd b \<and> {b..<b + count} \<subseteq> pmm_free_set p
        \<and> pmm_free_set p' = pmm_free_set p - {b..<b + count} \<and> pmm_inv p'
        \<and> (\<forall>b'. align dvd b' \<and> b' < b \<longrightarrow> \<not> {b'..<b' + count} \<subseteq> pmm_free_set p)
    | (None, p') \<Rightarrow> p' = p \<and> (\<forall>b'. align dvd b' \<longrightarrow> \<not> {b'..<b' + count} \<subseteq> pmm_free_set p)"
proof (cases "count > pmm_free_count p")
  case True
  have "\<not> {b..<b + count} \<subseteq> pmm_free_set p" for b
    using card_mono [OF finite_free_set, of "{b..<b + count}" p] True inv
    by (auto simp: pmm_inv_def)
  then show ?thesis using True by (simp add: pmm_core_alloc_run_def)
next
  case False
  then have eq: "pmm_core_alloc_run p count align = pmm_run_search p count align 0"
    using assms by (simp add: pmm_core_alloc_run_def)
  obtain r p' where run: "pmm_run_search p count align 0 = (r, p')" by fastforce
  show ?thesis
  proof (cases r)
    case None
    then show ?thesis
      using pmm_run_search_None [OF run [unfolded None]] assms run eq
      by (auto simp: pmm_free_run_def dvd_def mult.commute)
  next
    case (Some b)
    note b = pmm_run_search_Some [OF run [unfolded Some], unfolded pmm_free_run_def]
    then obtain k where k: "b = k * align"
      "\<forall>j<k. \<not> {j * align..<j * align + count} \<subseteq> pmm_free_set p" by auto
    have "\<not> {b'..<b' + count} \<subseteq> pmm_free_set p" if "align dvd b'" "b' < b" for b'
    proof -
      obtain j where "b' = j * align" using \<open>align dvd b'\<close> by (metis dvdE mult.commute)
      then show ?thesis using k \<open>b' < b\<close> by simp
    qed
    moreover have "b + count < 2 ^ 64" using b inv by (simp add: pmm_inv_def)
    ultimately show ?thesis
      using b k(1) pmm_core_mark_used_run [OF inv, of b count] run eq Some by simp
  qed
qed

theorem pmm_alloc_run_first_fit_witness:
  "fst (pmm_core_alloc_run (pmm_core_mark_free pmm_example 2 6) 4 4) = Some 4
   \<and> 4 dvd (4 :: nat) \<and> {4..<4 + 4} \<subseteq> pmm_free_set (pmm_core_mark_free pmm_example 2 6)"
proof -
  let ?p = "pmm_core_mark_free pmm_example 2 6"
  have inv: "pmm_inv ?p" by code_simp
  have run: "fst (pmm_core_alloc_run ?p 4 4) = Some 4" by code_simp
  then obtain p' where p': "pmm_core_alloc_run ?p 4 4 = (Some 4, p')" by (metis prod.collapse)
  show ?thesis using pmm_alloc_run_first_fit [OF inv, of 4 4] run
    by (simp add: p' and_numerals)
qed

text \<open>
  C35. Freeing: \<^verbatim>\<open>pmm_core_free\<close> rejects a frame outside the pool and a frame that is already
  free without touching the state, and otherwise adds exactly that frame to the free set;
  after an allocation, freeing the frame restores the free set and a second free of it is
  rejected.
\<close>

theorem pmm_free_restores:
  assumes inv: "pmm_inv p" and run: "pmm_core_alloc p = (Some f, q)"
  shows "\<exists>r. pmm_core_free q f = (True, r) \<and> pmm_free_set r = pmm_free_set p \<and> pmm_inv r
    \<and> pmm_core_free r f = (False, r)
    \<and> (\<forall>g. g \<ge> pmm_nframes p \<longrightarrow> pmm_core_free r g = (False, r))"
proof -
  note q = pmm_core_alloc_run_Some(1-3) [OF inv run]
  have n: "pmm_nframes q = pmm_nframes p" by (rule pmm_core_alloc_nframes [OF inv run])
  have f: "f < pmm_nframes q" "f \<notin> pmm_free_set q" using q n by (auto simp: pmm_free_set_eq)
  have r: "pmm_core_free q f = (True, pmm_give q f)" using pmm_core_free_run [OF q(3)] f by simp
  have free: "pmm_free_set (pmm_give q f) = pmm_free_set p"
    using pmm_give_free_set [OF q(3) f(1)] q by auto
  have inv': "pmm_inv (pmm_give q f)" by (rule pmm_give_inv [OF q(3) f])
  show ?thesis using r free inv' q(1) n by (simp add: pmm_core_free_run [OF inv'])
qed

theorem pmm_free_restores_witness:
  "pmm_inv pmm_example \<and> (\<exists>q r. pmm_core_alloc pmm_example = (Some 16, q)
     \<and> pmm_core_free q 16 = (True, r) \<and> pmm_core_free r 16 = (False, r))"
proof -
  have run: "fst (pmm_core_alloc pmm_example) = Some 16" by code_simp
  then obtain q where "pmm_core_alloc pmm_example = (Some 16, q)" by (metis prod.collapse)
  then show ?thesis using pmm_free_restores [OF pmm_example_inv] pmm_example_inv by blast
qed

text \<open>
  C32. Exclusive ownership: starting from a freshly initialised allocator whose usable memory
  was marked free, no sequence of allocations and frees ever hands one frame to two owners;
  owned and free frames stay disjoint and together are exactly the usable frames.
\<close>

theorem pmm_exclusive_ownership:
  assumes "nframes < 2 ^ 63" and "pmm_core_bitmap_size nframes \<le> length bitmap"
    and "first + count < 2 ^ 64"
    and run: "pool_run pmm_core_alloc pmm_core_free
      (pmm_core_mark_free (pmm_core_init bitmap nframes) first count) [] calls = (owned, p)"
  shows "distinct owned \<and> set owned \<inter> pmm_free_set p = {} \<and> pmm_inv p
    \<and> set owned \<union> pmm_free_set p = {first..<min (first + count) nframes}"
proof -
  let ?i = "pmm_core_init bitmap nframes"
  note i = pmm_init_inv [OF assms(1,2)]
  note m = pmm_core_mark_free_run [OF i(1) assms(3)]
  have "pmm_nframes ?i = nframes" by (simp add: pmm_core_init_def)
  then show ?thesis using pool.pool_run_owned [OF m(1) _ _ run] m(2) i(2) by auto
qed

theorem pmm_exclusive_ownership_witness:
  "\<exists>owned p. pool_run pmm_core_alloc pmm_core_free
      (pmm_core_mark_free (pmm_core_init [0, 0] 16) 3 5) []
      [Pool_alloc, Pool_alloc, Pool_free 3, Pool_alloc] = (owned, p)
    \<and> owned = [5, 4] \<and> distinct owned \<and> set owned \<inter> pmm_free_set p = {}"
proof -
  let ?r = "pool_run pmm_core_alloc pmm_core_free
      (pmm_core_mark_free (pmm_core_init [0, 0] 16) 3 5) []
      [Pool_alloc, Pool_alloc, Pool_free 3, Pool_alloc]"
  have "fst ?r = [5, 4]" by code_simp
  then obtain p where r: "?r = ([5, 4], p)" by (metis prod.collapse)
  have size: "pmm_core_bitmap_size 16 \<le> length [0 :: byte, 0]" by code_simp
  show ?thesis using pmm_exclusive_ownership [OF _ size _ r] r by auto
qed

end
