(* ===== verification/Lib_Crc32c.thy ===== *)
theory Lib_Crc32c
  imports Kernel_Prelude
begin

text \<open>
  CRC-32C as computed by \<^verbatim>\<open>kernel/lib/crc32c.c\<close> and \<^verbatim>\<open>kernel/include/crc32c.h\<close>: the
  reflected bitwise form, one register update per message bit. The lemmas show that the
  register update is linear over exclusive or and injective, which gives the property the file
  system relies on: a change confined to four consecutive bytes always changes the checksum.
\<close>

section \<open>Definitions\<close>

definition CRC32C_POLY_REFLECTED :: "32 word" where
  "CRC32C_POLY_REFLECTED = 0x82F63B78"

definition CRC32C_INIT :: "32 word" where
  "CRC32C_INIT = 0xFFFFFFFF"

text \<open>The body of the inner loop; the mask is the two's complement of the low bit.\<close>

definition crc32c_bit :: "32 word \<Rightarrow> 32 word" where
  "crc32c_bit crc = (let mask = - (crc AND 1) in drop_bit 1 crc XOR (CRC32C_POLY_REFLECTED AND mask))"

fun crc32c_bits :: "nat \<Rightarrow> 32 word \<Rightarrow> 32 word" where
  "crc32c_bits 0 crc = crc"
| "crc32c_bits (Suc k) crc = crc32c_bits k (crc32c_bit crc)"

fun crc32c_update :: "32 word \<Rightarrow> byte list \<Rightarrow> 32 word" where
  "crc32c_update crc [] = crc"
| "crc32c_update crc (b # bs) = crc32c_update (crc32c_bits 8 (crc XOR ucast b)) bs"

definition crc32c_final :: "32 word \<Rightarrow> 32 word" where
  "crc32c_final crc = crc XOR 0xFFFFFFFF"

definition crc32c :: "byte list \<Rightarrow> 32 word" where
  "crc32c data = crc32c_final (crc32c_update CRC32C_INIT data)"

section \<open>The register update is linear and injective\<close>

lemma bit_crc32c_bit:
  "bit (crc32c_bit c) i \<longleftrightarrow> (bit c (Suc i) \<noteq> (bit CRC32C_POLY_REFLECTED i \<and> bit c 0))"
proof -
  have "c AND 1 = of_bool (bit c 0)" by (simp add: and_one_eq bit_0 odd_iff_mod_2_eq_one)
  then have "- (c AND 1) = (if bit c 0 then - 1 else 0)" by simp
  moreover have "i < 32" if "bit CRC32C_POLY_REFLECTED i"
    using bit_imp_le_length [OF that] by simp
  ultimately show ?thesis by (auto simp: crc32c_bit_def Let_def bit_simps)
qed

lemma crc32c_bit_xor: "crc32c_bit (a XOR b) = crc32c_bit a XOR crc32c_bit b"
  by (rule bit_word_eqI) (auto simp: bit_crc32c_bit bit_xor_iff)

lemma crc32c_bit_eq_0: "crc32c_bit c = 0 \<Longrightarrow> c = 0"
proof (rule bit_word_eqI)
  fix i assume z: "crc32c_bit c = 0" and i: "i < LENGTH(32)"
  have *: "bit c (Suc j) = (bit CRC32C_POLY_REFLECTED j \<and> bit c 0)" for j
    using bit_crc32c_bit [of c j] z by simp
  have "bit CRC32C_POLY_REFLECTED 31" by code_simp
  moreover have "\<not> bit c 32" using bit_imp_le_length [of c 32] by auto
  ultimately have "\<not> bit c 0" using * [of 31] by simp
  then have "\<not> bit c i" using * by (cases i) simp_all
  then show "bit c i = bit 0 i" by simp
qed

lemma crc32c_bits_xor: "crc32c_bits n (a XOR b) = crc32c_bits n a XOR crc32c_bits n b"
  by (induction n arbitrary: a b) (simp_all add: crc32c_bit_xor)

lemma crc32c_bits_eq_0: "crc32c_bits n c = 0 \<Longrightarrow> c = 0"
  by (induction n arbitrary: c) (auto dest: crc32c_bit_eq_0)

lemma crc32c_bits_add: "crc32c_bits m (crc32c_bits n c) = crc32c_bits (n + m) c"
  by (induction n arbitrary: c) simp_all

lemma crc32c_bits_0 [simp]: "crc32c_bits n 0 = 0"
proof (induction n)
  case (Suc n)
  have "crc32c_bit 0 = 0" by (simp add: crc32c_bit_def)
  then show ?case using Suc by simp
qed simp

text \<open>Shifting a value up and running the register over the zero bits restores it.\<close>

lemma crc32c_bit_shift:
  assumes "\<not> bit c 31"
  shows "crc32c_bit (push_bit 1 c) = c"
proof (rule bit_word_eqI)
  fix i assume i: "i < LENGTH(32)"
  have sh: "bit (push_bit 1 c) j \<longleftrightarrow> 1 \<le> j \<and> j < 32 \<and> bit c (j - 1)" for j
    by (auto simp only: bit_push_bit_iff possible_bit_word) simp_all
  show "bit (crc32c_bit (push_bit 1 c)) i = bit c i"
    using assms i by (cases "i = 31") (simp_all only: bit_crc32c_bit sh, simp_all)
qed

lemma crc32c_bits_shift:
  assumes "\<forall>i. 32 - n \<le> i \<longrightarrow> \<not> bit c i"
  shows "crc32c_bits n (push_bit n c) = c"
  using assms
proof (induction n)
  case 0
  then show ?case by simp
next
  case (Suc n)
  have top: "\<not> bit (push_bit n c) 31"
    using Suc.prems [rule_format, of "31 - n"] by (auto simp: bit_push_bit_iff)
  have "push_bit (Suc n) c = push_bit 1 (push_bit n c)" by simp
  then have "crc32c_bits (Suc n) (push_bit (Suc n) c) = crc32c_bits n (crc32c_bit (push_bit 1 (push_bit n c)))"
    by (simp only: crc32c_bits.simps)
  then have "crc32c_bits (Suc n) (push_bit (Suc n) c) = crc32c_bits n (push_bit n c)"
    using crc32c_bit_shift [OF top] by simp
  moreover have "crc32c_bits n (push_bit n c) = c"
    using Suc.prems by (intro Suc.IH) (simp add: le_diff_conv)
  ultimately show ?case by simp
qed

section \<open>Messages\<close>

lemma crc32c_update_append: "crc32c_update crc (xs @ ys) = crc32c_update (crc32c_update crc xs) ys"
  by (induction xs arbitrary: crc) simp_all

definition xor_bytes :: "byte list \<Rightarrow> byte list \<Rightarrow> byte list" where
  "xor_bytes = map2 (XOR)"

lemma ucast_xor: "(ucast (a XOR b :: byte) :: 32 word) = ucast a XOR ucast b"
  by (rule bit_word_eqI) (auto simp: bit_simps)

lemma crc32c_update_xor:
  "length xs = length ys \<Longrightarrow>
    crc32c_update (a XOR b) (xor_bytes xs ys) = crc32c_update a xs XOR crc32c_update b ys"
proof (induction xs ys arbitrary: a b rule: list_induct2)
  case Nil
  then show ?case by (simp add: xor_bytes_def)
next
  case (Cons x xs y ys)
  have "(a XOR b) XOR ucast (x XOR y) = (a XOR ucast x) XOR (b XOR ucast y)"
    by (simp add: ucast_xor ac_simps)
  then have "crc32c_bits 8 ((a XOR b) XOR ucast (x XOR y))
      = crc32c_bits 8 (a XOR ucast x) XOR crc32c_bits 8 (b XOR ucast y)"
    by (simp only: crc32c_bits_xor)
  moreover have "xor_bytes (x # xs) (y # ys) = (x XOR y) # xor_bytes xs ys"
    by (simp add: xor_bytes_def)
  ultimately show ?case using Cons.IH by (simp only: crc32c_update.simps)
qed

lemma crc32c_update_zeros_eq_0: "crc32c_update c (replicate n 0) = 0 \<Longrightarrow> c = 0"
  by (induction n arbitrary: c) (auto dest: crc32c_bits_eq_0)

lemma crc32c_update_0_zeros [simp]: "crc32c_update 0 (replicate n 0) = 0"
  by (induction n) simp_all

text \<open>The four message bytes that fill the register, as one little-endian value.\<close>

fun le_bytes :: "byte list \<Rightarrow> 32 word" where
  "le_bytes [] = 0"
| "le_bytes (b # bs) = ucast b XOR push_bit 8 (le_bytes bs)"

lemma le_bytes_high: "8 * length bs \<le> i \<Longrightarrow> \<not> bit (le_bytes bs) i"
proof (induction bs arbitrary: i)
  case (Cons b bs)
  then have "8 \<le> i" "\<not> bit (le_bytes bs) (i - 8)" by auto
  moreover from this have "\<not> bit b i" using bit_imp_le_length [of b i] by auto
  ultimately show ?case by (auto simp: bit_simps)
qed simp

lemma le_bytes_eq_0:
  "length bs \<le> 4 \<Longrightarrow> le_bytes bs = 0 \<Longrightarrow> bs = replicate (length bs) 0"
proof (induction bs)
  case (Cons b bs)
  have z: "bit (ucast b :: 32 word) i = bit (push_bit 8 (le_bytes bs)) i" for i
    using arg_cong [OF Cons.prems(2), of "\<lambda>w. bit w i"] by (auto simp: bit_xor_iff)
  have "b = 0"
  proof (rule bit_word_eqI)
    fix i assume "i < LENGTH(8)"
    then show "bit b i = bit 0 i" using z [of i] by (simp add: bit_simps)
  qed
  moreover have "le_bytes bs = 0"
  proof (rule bit_word_eqI)
    fix i assume "i < LENGTH(32)"
    show "bit (le_bytes bs) i = bit 0 i"
    proof (cases "i < 24")
      case True
      then show ?thesis using z [of "i + 8"] \<open>b = 0\<close> by (simp add: bit_simps)
    next
      case False
      then show ?thesis using le_bytes_high [of bs i] Cons.prems(1) by simp
    qed
  qed
  ultimately show ?case using Cons by simp
qed simp

lemma crc32c_update_word:
  "length es \<le> 4 \<Longrightarrow> crc32c_update x es = crc32c_bits (8 * length es) (x XOR le_bytes es)"
proof (induction es arbitrary: x)
  case (Cons e es)
  have "crc32c_bits 8 (push_bit 8 (le_bytes es)) = le_bytes es"
    using Cons.prems le_bytes_high [of es] by (intro crc32c_bits_shift) auto
  then have "crc32c_bits 8 (x XOR ucast e) XOR le_bytes es
      = crc32c_bits 8 ((x XOR ucast e) XOR push_bit 8 (le_bytes es))"
    by (simp only: crc32c_bits_xor)
  moreover have "crc32c_update x (e # es)
      = crc32c_bits (8 * length es) (crc32c_bits 8 (x XOR ucast e) XOR le_bytes es)"
    using Cons by (simp only: crc32c_update.simps list.size)
  moreover have "(x XOR ucast e) XOR push_bit 8 (le_bytes es) = x XOR le_bytes (e # es)"
    by (simp only: le_bytes.simps xor.assoc)
  moreover have "8 + 8 * length es = 8 * length (e # es)" by simp
  ultimately show ?case by (simp only: crc32c_bits_add)
qed simp

lemma xor_bytes_append:
  "length xs = length ys \<Longrightarrow> xor_bytes (xs @ us) (ys @ vs) = xor_bytes xs ys @ xor_bytes us vs"
  by (simp add: xor_bytes_def)

lemma xor_bytes_self [simp]: "xor_bytes xs xs = replicate (length xs) 0"
  by (induction xs) (simp_all add: xor_bytes_def)

lemma crc32c_final_inj: "crc32c_final a = crc32c_final b \<Longrightarrow> a = b"
  unfolding crc32c_final_def
  by (drule arg_cong [of _ _ "\<lambda>x. x XOR 0xFFFFFFFF"]) (simp only: xor.assoc xor_self_eq xor.right_neutral)

lemma xor_eq_0_iff: "x XOR y = 0 \<longleftrightarrow> x = (y :: byte)"
proof
  assume "x XOR y = 0"
  then have "(x XOR y) XOR y = 0 XOR y" by (simp only:)
  then show "x = y" by (simp only: xor.assoc xor_self_eq xor.right_neutral xor.left_neutral)
qed simp

lemma xor_bytes_zero_iff:
  "length xs = length ys \<Longrightarrow> xor_bytes xs ys = replicate (length xs) 0 \<longleftrightarrow> xs = ys"
  by (induction xs ys rule: list_induct2) (auto simp: xor_bytes_def xor_eq_0_iff)

section \<open>Evaluation\<close>

lemma crc32c_bits_8: "crc32c_bits 8 c = crc32c_bit (crc32c_bit (crc32c_bit (crc32c_bit
    (crc32c_bit (crc32c_bit (crc32c_bit (crc32c_bit c)))))))"
  by (simp add: eval_nat_numeral)

lemmas crc32c_eval = crc32c_bits_8 crc32c_bit_def CRC32C_POLY_REFLECTED_def drop_bit_Suc
  crc32c_def crc32c_final_def CRC32C_INIT_def

section \<open>Properties\<close>

text \<open>
  C30. Burst detection: two messages of the same length that differ only within four
  consecutive bytes have different CRC-32C values, so a metadata block damaged in one aligned
  or unaligned 32-bit field never passes its checksum.
\<close>

theorem crc32c_detects_burst:
  assumes len: "length w = length w'" "length w \<le> 4" and diff: "w \<noteq> w'"
  shows "crc32c (pre @ w @ post) \<noteq> crc32c (pre @ w' @ post)"
proof
  assume "crc32c (pre @ w @ post) = crc32c (pre @ w' @ post)"
  then have eq: "crc32c_update CRC32C_INIT (pre @ w @ post) = crc32c_update CRC32C_INIT (pre @ w' @ post)"
    unfolding crc32c_def by (rule crc32c_final_inj)
  let ?e = "xor_bytes w w'"
  have "crc32c_update 0 (xor_bytes (pre @ w @ post) (pre @ w' @ post)) = 0"
    using crc32c_update_xor [of "pre @ w @ post" "pre @ w' @ post" CRC32C_INIT CRC32C_INIT] eq len
    by simp
  then have "crc32c_update (crc32c_update 0 ?e) (replicate (length post) 0) = 0"
    using len by (simp add: xor_bytes_append crc32c_update_append)
  then have "crc32c_update 0 ?e = 0" by (rule crc32c_update_zeros_eq_0)
  moreover have "length ?e = length w" using len by (simp add: xor_bytes_def)
  ultimately have "le_bytes ?e = 0"
    using crc32c_update_word [of ?e 0] crc32c_bits_eq_0 len by simp
  then have "?e = replicate (length w) 0" using le_bytes_eq_0 \<open>length ?e = length w\<close> len by metis
  then show False using xor_bytes_zero_iff len diff by blast
qed

theorem crc32c_detects_burst_witness:
  "crc32c ([1, 2] @ [3, 4, 5, 6] @ [7]) \<noteq> crc32c ([1, 2] @ [3, 9, 5, 0] @ [7])"
  by (rule crc32c_detects_burst) simp_all


end
