(* ===== verification/Gfs_Format.thy ===== *)
theory Gfs_Format
  imports Lib_Crc32c
begin

text \<open>
  The on-disk format of graphfs (first part of \<^verbatim>\<open>kernel/fs/graphfs_core.c\<close> and the types
  of \<^verbatim>\<open>kernel/include/graphfs_core.h\<close>): little-endian scalars, node records, edge records
  and superblocks, as functions between C structures and byte buffers. A buffer is a byte list;
  a write at an offset returns the new buffer. The lemmas are the round trips of each codec.
\<close>

section \<open>Constants and types\<close>

abbreviation (input) GFS_BLOCK_SIZE :: nat where "GFS_BLOCK_SIZE \<equiv> 4096"
abbreviation (input) GFS_SB_MAGIC :: nat where "GFS_SB_MAGIC \<equiv> 0x3153464852475248"
abbreviation (input) GFS_EDGE_MAGIC :: nat where "GFS_EDGE_MAGIC \<equiv> 0x45474447"
abbreviation (input) GFS_VERSION :: nat where "GFS_VERSION \<equiv> 1"
abbreviation (input) GFS_NAME_MAX :: nat where "GFS_NAME_MAX \<equiv> 255"
abbreviation (input) GFS_ROOT_NODE :: nat where "GFS_ROOT_NODE \<equiv> 1"
abbreviation (input) GFS_NODE_SIZE :: nat where "GFS_NODE_SIZE \<equiv> 256"
abbreviation (input) GFS_NODES_PER_BLOCK :: nat where "GFS_NODES_PER_BLOCK \<equiv> 16"
abbreviation (input) GFS_MAP_SLOTS :: nat where "GFS_MAP_SLOTS \<equiv> 256"
abbreviation (input) GFS_MAX_NODES :: nat where "GFS_MAX_NODES \<equiv> 4096"
abbreviation (input) GFS_INLINE_EXTENTS :: nat where "GFS_INLINE_EXTENTS \<equiv> 8"
abbreviation (input) GFS_EDGES_PER_BLOCK :: nat where "GFS_EDGES_PER_BLOCK \<equiv> 14"
abbreviation (input) GFS_NODE_FREE :: nat where "GFS_NODE_FREE \<equiv> 0"
abbreviation (input) GFS_NODE_NAMESPACE :: nat where "GFS_NODE_NAMESPACE \<equiv> 1"
abbreviation (input) GFS_NODE_DATA :: nat where "GFS_NODE_DATA \<equiv> 2"
abbreviation (input) GFS_EDGE_NAME :: nat where "GFS_EDGE_NAME \<equiv> 1"
abbreviation (input) GFS_EDGE_TAG :: nat where "GFS_EDGE_TAG \<equiv> 2"
abbreviation (input) GFS_EDGE_REF :: nat where "GFS_EDGE_REF \<equiv> 3"
abbreviation (input) GFS_MAX_FILE_BLOCKS :: nat where "GFS_MAX_FILE_BLOCKS \<equiv> 512"
abbreviation (input) GFS_MAX_FILE_SIZE :: nat where "GFS_MAX_FILE_SIZE \<equiv> 2097152"
abbreviation (input) BM_BITS_PER_BLOCK :: nat where "BM_BITS_PER_BLOCK \<equiv> 32768"

abbreviation (input) SB_MAGIC :: nat where "SB_MAGIC \<equiv> 0"
abbreviation (input) SB_VERSION :: nat where "SB_VERSION \<equiv> 8"
abbreviation (input) SB_BLOCK_SIZE :: nat where "SB_BLOCK_SIZE \<equiv> 12"
abbreviation (input) SB_CRC :: nat where "SB_CRC \<equiv> 16"
abbreviation (input) SB_GEN :: nat where "SB_GEN \<equiv> 24"
abbreviation (input) SB_TOTAL :: nat where "SB_TOTAL \<equiv> 32"
abbreviation (input) SB_NODE_COUNT :: nat where "SB_NODE_COUNT \<equiv> 40"
abbreviation (input) SB_ROOT :: nat where "SB_ROOT \<equiv> 48"
abbreviation (input) SB_BM_START :: nat where "SB_BM_START \<equiv> 56"
abbreviation (input) SB_BM_BLOCKS :: nat where "SB_BM_BLOCKS \<equiv> 64"
abbreviation (input) SB_BM_CRC :: nat where "SB_BM_CRC \<equiv> 72"
abbreviation (input) SB_NODEMAP_PHYS :: nat where "SB_NODEMAP_PHYS \<equiv> 80"
abbreviation (input) SB_NODEMAP_CRC :: nat where "SB_NODEMAP_CRC \<equiv> 88"
abbreviation (input) SB_FREE_BLOCKS :: nat where "SB_FREE_BLOCKS \<equiv> 96"
abbreviation (input) SB_FREE_NODES :: nat where "SB_FREE_NODES \<equiv> 104"

abbreviation (input) ND_TYPE :: nat where "ND_TYPE \<equiv> 0"
abbreviation (input) ND_MODE :: nat where "ND_MODE \<equiv> 4"
abbreviation (input) ND_SIZE :: nat where "ND_SIZE \<equiv> 8"
abbreviation (input) ND_NLINK :: nat where "ND_NLINK \<equiv> 16"
abbreviation (input) ND_NEXTENTS :: nat where "ND_NEXTENTS \<equiv> 20"
abbreviation (input) ND_EDGECOUNT :: nat where "ND_EDGECOUNT \<equiv> 24"
abbreviation (input) ND_PARENT :: nat where "ND_PARENT \<equiv> 32"
abbreviation (input) ND_EDGE_PHYS :: nat where "ND_EDGE_PHYS \<equiv> 40"
abbreviation (input) ND_EDGE_CRC :: nat where "ND_EDGE_CRC \<equiv> 48"
abbreviation (input) ND_EXTENTS :: nat where "ND_EXTENTS \<equiv> 56"
abbreviation (input) EXT_SIZE :: nat where "EXT_SIZE \<equiv> 24"
abbreviation (input) EXT_LOGICAL :: nat where "EXT_LOGICAL \<equiv> 0"
abbreviation (input) EXT_PHYS :: nat where "EXT_PHYS \<equiv> 8"
abbreviation (input) EXT_LEN :: nat where "EXT_LEN \<equiv> 16"

abbreviation (input) MP_PHYS :: nat where "MP_PHYS \<equiv> 0"
abbreviation (input) MP_CRC :: nat where "MP_CRC \<equiv> 8"
abbreviation (input) MP_SIZE :: nat where "MP_SIZE \<equiv> 16"

abbreviation (input) EB_MAGIC :: nat where "EB_MAGIC \<equiv> 0"
abbreviation (input) EB_COUNT :: nat where "EB_COUNT \<equiv> 4"
abbreviation (input) EB_NEXT_PHYS :: nat where "EB_NEXT_PHYS \<equiv> 8"
abbreviation (input) EB_NEXT_CRC :: nat where "EB_NEXT_CRC \<equiv> 16"
abbreviation (input) EB_RECORDS :: nat where "EB_RECORDS \<equiv> 24"
abbreviation (input) ER_SIZE :: nat where "ER_SIZE \<equiv> 272"
abbreviation (input) ER_TYPE :: nat where "ER_TYPE \<equiv> 0"
abbreviation (input) ER_NAMELEN :: nat where "ER_NAMELEN \<equiv> 4"
abbreviation (input) ER_TARGET :: nat where "ER_TARGET \<equiv> 8"
abbreviation (input) ER_NAME :: nat where "ER_NAME \<equiv> 16"

text \<open>The error codes; \<^verbatim>\<open>GFS_OK\<close> is the right summand of a result.\<close>

datatype gfs_err = GFS_EIO | GFS_EBADFS | GFS_ECORRUPT | GFS_EBADCRC | GFS_ENOENT | GFS_EEXIST
  | GFS_ENOTDIR | GFS_EISDIR | GFS_ENOSPC | GFS_EINVAL | GFS_ENAMETOOLONG | GFS_ENOTEMPTY
  | GFS_EMANYPARENTS | GFS_EFBIG | GFS_EROFS | GFS_ENOMEM | GFS_EFRAG | GFS_EWORKSIZE

record gfs_bp =
  bp_phys :: nat
  bp_crc :: nat

record gfs_extent =
  ex_logical :: nat
  ex_phys :: nat
  ex_len :: nat

record disk_node =
  dn_type :: nat
  dn_mode :: nat
  dn_size :: nat
  dn_nlink :: nat
  dn_n_extents :: nat
  dn_edge_count :: nat
  dn_parent :: nat
  dn_edge_head :: gfs_bp
  dn_ext :: "gfs_extent list"

section \<open>Little-endian scalars\<close>

definition rd32 :: "byte list \<Rightarrow> nat \<Rightarrow> nat" where
  "rd32 p off = unat (p ! off) + unat (p ! (off + 1)) * 2 ^ 8 + unat (p ! (off + 2)) * 2 ^ 16
     + unat (p ! (off + 3)) * 2 ^ 24"

definition rd64 :: "byte list \<Rightarrow> nat \<Rightarrow> nat" where
  "rd64 p off = rd32 p off + rd32 p (off + 4) * 2 ^ 32"

definition wr32 :: "byte list \<Rightarrow> nat \<Rightarrow> nat \<Rightarrow> byte list" where
  "wr32 p off v = p[off := word_of_nat v, off + 1 := word_of_nat (v div 2 ^ 8),
     off + 2 := word_of_nat (v div 2 ^ 16), off + 3 := word_of_nat (v div 2 ^ 24)]"

definition wr64 :: "byte list \<Rightarrow> nat \<Rightarrow> nat \<Rightarrow> byte list" where
  "wr64 p off v = wr32 (wr32 p off v) (off + 4) (v div 2 ^ 32)"

named_theorems codec_simps \<open>reading back scalars that were stored in a buffer\<close>

lemma length_wr32 [simp]: "length (wr32 p off v) = length p"
  by (simp add: wr32_def)

lemma length_wr64 [simp]: "length (wr64 p off v) = length p"
  by (simp add: wr64_def)

lemma byte_digits:
  "v mod 256 + v div 256 mod 256 * 256 + v div 65536 mod 256 * 65536 + v div 16777216 mod 256 * 16777216
    = v mod 4294967296" for v :: nat
proof -
  have "v div 65536 = v div 256 div 256" "v div 16777216 = v div 256 div 256 div 256"
    by (simp_all add: div_mult2_eq [symmetric])
  moreover have "v mod 4294967296 = v mod 256 + 256 * (v div 256 mod 256
      + 256 * (v div 256 div 256 mod 256 + 256 * (v div 256 div 256 div 256 mod 256)))"
    using mod_mult2_eq [of v 256 16777216] mod_mult2_eq [of "v div 256" 256 65536]
      mod_mult2_eq [of "v div 256 div 256" 256 256] by simp
  ultimately show ?thesis by simp
qed

lemma rd32_wr32 [simp, codec_simps]: "off + 4 \<le> length p \<Longrightarrow> rd32 (wr32 p off v) off = v mod 2 ^ 32"
  by (simp add: rd32_def wr32_def nth_list_update unat_of_nat byte_digits)

lemma rd32_wr32_disjoint [simp, codec_simps]:
  "off + 4 \<le> length p \<Longrightarrow> off' + 4 \<le> length p \<Longrightarrow> off' + 4 \<le> off \<or> off + 4 \<le> off' \<Longrightarrow>
    rd32 (wr32 p off v) off' = rd32 p off'"
  by (auto simp: rd32_def wr32_def nth_list_update)

lemma rd32_wr64_disjoint [simp, codec_simps]:
  "off + 8 \<le> length p \<Longrightarrow> off' + 4 \<le> length p \<Longrightarrow> off' + 4 \<le> off \<or> off + 8 \<le> off' \<Longrightarrow>
    rd32 (wr64 p off v) off' = rd32 p off'"
  by (auto simp: wr64_def)

lemma rd64_wr32_disjoint [simp, codec_simps]:
  "off + 4 \<le> length p \<Longrightarrow> off' + 8 \<le> length p \<Longrightarrow> off' + 8 \<le> off \<or> off + 4 \<le> off' \<Longrightarrow>
    rd64 (wr32 p off v) off' = rd64 p off'"
  by (auto simp: rd64_def)

lemma rd64_wr64_disjoint [simp, codec_simps]:
  "off + 8 \<le> length p \<Longrightarrow> off' + 8 \<le> length p \<Longrightarrow> off' + 8 \<le> off \<or> off + 8 \<le> off' \<Longrightarrow>
    rd64 (wr64 p off v) off' = rd64 p off'"
  by (auto simp: rd64_def)

lemma rd64_wr64 [simp, codec_simps]: "off + 8 \<le> length p \<Longrightarrow> rd64 (wr64 p off v) off = v mod 2 ^ 64"
proof -
  assume "off + 8 \<le> length p"
  then have "rd64 (wr64 p off v) off = v mod 2 ^ 32 + v div 2 ^ 32 mod 2 ^ 32 * 2 ^ 32"
    by (simp add: rd64_def wr64_def)
  also have "\<dots> = v mod 2 ^ 64"
    using mod_mult2_eq [of v "2 ^ 32" "2 ^ 32"] by simp
  finally show ?thesis .
qed

lemma rd32_less [simp]: "rd32 p off < 2 ^ 32"
proof -
  have "unat (p ! i) < 256" for i using unsigned_less [of "p ! i"] by simp
  from this [of off] this [of "off + 1"] this [of "off + 2"] this [of "off + 3"]
  show ?thesis by (simp add: rd32_def)
qed

lemma rd64_less [simp]: "rd64 p off < 2 ^ 64"
  using rd32_less [of p off] rd32_less [of p "off + 4"] by (simp add: rd64_def)

lemma rd32_less_lit [simp]: "rd32 p off < 4294967296"
  using rd32_less [of p off] by simp

lemma rd64_less_lit [simp]: "rd64 p off < 18446744073709551616"
  using rd64_less [of p off] by simp

lemma rd32_slice [simp]: "off + 4 \<le> n \<Longrightarrow> start + n \<le> length p \<Longrightarrow> rd32 (bslice start n p) off = rd32 p (start + off)"
  by (simp add: rd32_def add.assoc)

lemma rd64_slice [simp]: "off + 8 \<le> n \<Longrightarrow> start + n \<le> length p \<Longrightarrow> rd64 (bslice start n p) off = rd64 p (start + off)"
  by (simp add: rd64_def add.assoc)

section \<open>Node records\<close>

definition node_decode :: "byte list \<Rightarrow> disk_node" where
  "node_decode r = \<lparr>
     dn_type = rd32 r ND_TYPE,
     dn_mode = rd32 r ND_MODE,
     dn_size = rd64 r ND_SIZE,
     dn_nlink = rd32 r ND_NLINK,
     dn_n_extents = rd32 r ND_NEXTENTS,
     dn_edge_count = rd32 r ND_EDGECOUNT,
     dn_parent = rd64 r ND_PARENT,
     dn_edge_head = \<lparr>bp_phys = rd64 r ND_EDGE_PHYS, bp_crc = rd32 r ND_EDGE_CRC\<rparr>,
     dn_ext = map (\<lambda>k. let e = ND_EXTENTS + k * EXT_SIZE in
       \<lparr>ex_logical = rd64 r (e + EXT_LOGICAL), ex_phys = rd64 r (e + EXT_PHYS),
        ex_len = rd32 r (e + EXT_LEN)\<rparr>) [0..<GFS_INLINE_EXTENTS]\<rparr>"

definition node_encode :: "disk_node \<Rightarrow> byte list" where
  "node_encode n =
     (let r = zeros GFS_NODE_SIZE;
          r = wr32 r ND_TYPE (dn_type n);
          r = wr32 r ND_MODE (dn_mode n);
          r = wr64 r ND_SIZE (dn_size n);
          r = wr32 r ND_NLINK (dn_nlink n);
          r = wr32 r ND_NEXTENTS (dn_n_extents n);
          r = wr32 r ND_EDGECOUNT (dn_edge_count n);
          r = wr64 r ND_PARENT (dn_parent n);
          r = wr64 r ND_EDGE_PHYS (bp_phys (dn_edge_head n));
          r = wr32 r ND_EDGE_CRC (bp_crc (dn_edge_head n))
      in fold (\<lambda>k r. let e = ND_EXTENTS + k * EXT_SIZE;
               r = wr64 r (e + EXT_LOGICAL) (ex_logical (dn_ext n ! k));
               r = wr64 r (e + EXT_PHYS) (ex_phys (dn_ext n ! k))
             in wr32 r (e + EXT_LEN) (ex_len (dn_ext n ! k))) [0..<GFS_INLINE_EXTENTS] r)"

text \<open>The zeroed structure \<^verbatim>\<open>struct disk_node n = {0}\<close>.\<close>

definition zero_extent :: gfs_extent where
  "zero_extent = \<lparr>ex_logical = 0, ex_phys = 0, ex_len = 0\<rparr>"

definition zero_node :: disk_node where
  "zero_node = \<lparr>dn_type = 0, dn_mode = 0, dn_size = 0, dn_nlink = 0, dn_n_extents = 0,
     dn_edge_count = 0, dn_parent = 0, dn_edge_head = \<lparr>bp_phys = 0, bp_crc = 0\<rparr>,
     dn_ext = replicate GFS_INLINE_EXTENTS zero_extent\<rparr>"

text \<open>The values the C field types can hold.\<close>

definition ext_ok :: "gfs_extent \<Rightarrow> bool" where
  "ext_ok e \<longleftrightarrow> ex_logical e < 2 ^ 64 \<and> ex_phys e < 2 ^ 64 \<and> ex_len e < 2 ^ 32"

definition bp_ok :: "gfs_bp \<Rightarrow> bool" where
  "bp_ok bp \<longleftrightarrow> bp_phys bp < 2 ^ 64 \<and> bp_crc bp < 2 ^ 32"

definition node_ok :: "disk_node \<Rightarrow> bool" where
  "node_ok n \<longleftrightarrow> dn_type n < 2 ^ 32 \<and> dn_mode n < 2 ^ 32 \<and> dn_size n < 2 ^ 64 \<and> dn_nlink n < 2 ^ 32
     \<and> dn_n_extents n < 2 ^ 32 \<and> dn_edge_count n < 2 ^ 32 \<and> dn_parent n < 2 ^ 64
     \<and> bp_ok (dn_edge_head n) \<and> length (dn_ext n) = GFS_INLINE_EXTENTS \<and> list_all ext_ok (dn_ext n)"

text \<open>The extent part of the record, one loop iteration at a time.\<close>

definition put_ext :: "gfs_extent list \<Rightarrow> nat \<Rightarrow> byte list \<Rightarrow> byte list" where
  "put_ext es k r = wr32 (wr64 (wr64 r (56 + k * 24) (ex_logical (es ! k))) (64 + k * 24) (ex_phys (es ! k)))
     (72 + k * 24) (ex_len (es ! k))"

definition get_ext :: "byte list \<Rightarrow> nat \<Rightarrow> gfs_extent" where
  "get_ext r k = \<lparr>ex_logical = rd64 r (56 + k * 24), ex_phys = rd64 r (64 + k * 24),
     ex_len = rd32 r (72 + k * 24)\<rparr>"

lemma length_put_ext [simp]: "length (put_ext es k r) = length r"
  by (simp add: put_ext_def)

lemma length_fold_put_ext [simp]:
  "length (fold (put_ext es) ks r) = length r"
  by (induction ks arbitrary: r) simp_all

lemma get_put_ext:
  assumes "length r = 256" "k < 8" "j < 8"
  shows "get_ext (put_ext es k r) j =
    (if j = k then \<lparr>ex_logical = ex_logical (es ! k) mod 2 ^ 64, ex_phys = ex_phys (es ! k) mod 2 ^ 64,
       ex_len = ex_len (es ! k) mod 2 ^ 32\<rparr> else get_ext r j)"
proof (cases "j = k")
  case True
  then show ?thesis using assms by (simp add: put_ext_def get_ext_def)
next
  case False
  then have "j * 24 + 24 \<le> k * 24 \<or> k * 24 + 24 \<le> j * 24" by linarith
  then show ?thesis using assms False by (auto simp: put_ext_def get_ext_def)
qed

lemma get_fold_put_ext:
  assumes "length r = 256" "\<forall>k \<in> set ks. k < 8" "j < 8"
  shows "get_ext (fold (put_ext es) ks r) j =
    (if j \<in> set ks then \<lparr>ex_logical = ex_logical (es ! j) mod 2 ^ 64, ex_phys = ex_phys (es ! j) mod 2 ^ 64,
       ex_len = ex_len (es ! j) mod 2 ^ 32\<rparr> else get_ext r j)"
  using assms by (induction ks arbitrary: r) (auto simp: get_put_ext)

lemma rd32_fold_put_ext:
  assumes "length r = 256" "\<forall>k \<in> set ks. k < 8" "off + 4 \<le> 56"
  shows "rd32 (fold (put_ext es) ks r) off = rd32 r off"
  using assms by (induction ks arbitrary: r) (auto simp: put_ext_def)

lemma rd64_fold_put_ext:
  assumes "length r = 256" "\<forall>k \<in> set ks. k < 8" "off + 8 \<le> 56"
  shows "rd64 (fold (put_ext es) ks r) off = rd64 r off"
  using assms by (induction ks arbitrary: r) (auto simp: put_ext_def)

definition node_header :: "disk_node \<Rightarrow> byte list" where
  "node_header n = wr32 (wr64 (wr64 (wr32 (wr32 (wr32 (wr64 (wr32 (wr32 (zeros 256)
     0 (dn_type n)) 4 (dn_mode n)) 8 (dn_size n)) 16 (dn_nlink n)) 20 (dn_n_extents n))
     24 (dn_edge_count n)) 32 (dn_parent n)) 40 (bp_phys (dn_edge_head n)))
     48 (bp_crc (dn_edge_head n))"

lemma length_node_header [simp]: "length (node_header n) = 256"
  by (simp add: node_header_def)

lemma node_encode_eq: "node_encode n = fold (put_ext (dn_ext n)) [0..<8] (node_header n)"
proof -
  have "(\<lambda>k r. let e = 56 + k * 24; r = wr64 r (e + 0) (ex_logical (dn_ext n ! k));
          r = wr64 r (e + 8) (ex_phys (dn_ext n ! k)) in wr32 r (e + 16) (ex_len (dn_ext n ! k)))
      = put_ext (dn_ext n)"
    by (rule ext)+ (simp add: put_ext_def Let_def add.commute)
  then show ?thesis by (simp only: node_encode_def node_header_def Let_def)
qed

lemma length_node_encode [simp]: "length (node_encode n) = 256"
  by (simp add: node_encode_eq)

lemma node_decode_eq:
  "node_decode r = \<lparr>dn_type = rd32 r 0, dn_mode = rd32 r 4, dn_size = rd64 r 8, dn_nlink = rd32 r 16,
     dn_n_extents = rd32 r 20, dn_edge_count = rd32 r 24, dn_parent = rd64 r 32,
     dn_edge_head = \<lparr>bp_phys = rd64 r 40, bp_crc = rd32 r 48\<rparr>, dn_ext = map (get_ext r) [0..<8]\<rparr>"
  by (simp add: node_decode_def get_ext_def [abs_def] Let_def add.commute)

lemma node_codec:
  assumes "node_ok n"
  shows "node_decode (node_encode n) = n"
proof -
  let ?r = "node_encode n"
  have "get_ext ?r j = dn_ext n ! j" if "j < 8" for j
  proof -
    have "ext_ok (dn_ext n ! j)" using assms that by (auto simp: node_ok_def list_all_length)
    then show ?thesis using that by (simp add: node_encode_eq get_fold_put_ext ext_ok_def)
  qed
  then have "map (get_ext ?r) [0..<8] = dn_ext n"
    using assms by (intro nth_equalityI) (simp_all add: node_ok_def)
  then show ?thesis using assms
    by (simp add: node_decode_eq)
      (simp add: node_encode_eq rd32_fold_put_ext rd64_fold_put_ext node_header_def node_ok_def bp_ok_def)
qed

lemma node_decode_ok: "node_ok (node_decode r)"
  by (auto simp: node_ok_def node_decode_eq bp_ok_def list_all_length get_ext_def ext_ok_def)

section \<open>Edge records\<close>

text \<open>A name is a C string; its bytes are copied behind the fixed fields.\<close>

definition edge_encode :: "nat \<Rightarrow> byte list \<Rightarrow> nat \<Rightarrow> nat \<Rightarrow> byte list" where
  "edge_encode typ name namelen target =
     (let rec = zeros ER_SIZE;
          rec = wr32 rec ER_TYPE typ;
          rec = wr32 rec ER_NAMELEN namelen;
          rec = wr64 rec ER_TARGET target
      in bsplice ER_NAME (bslice 0 namelen name) rec)"

lemma length_edge_encode [simp]:
  "namelen \<le> length name \<Longrightarrow> namelen \<le> 256 \<Longrightarrow> length (edge_encode typ name namelen target) = 272"
  by (simp add: edge_encode_def Let_def)

lemma edge_codec:
  assumes "typ < 2 ^ 32" "target < 2 ^ 64" "namelen \<le> length name" "namelen \<le> 255"
  shows "rd32 (edge_encode typ name namelen target) ER_TYPE = typ"
    "rd32 (edge_encode typ name namelen target) ER_NAMELEN = namelen"
    "rd64 (edge_encode typ name namelen target) ER_TARGET = target"
    "bslice ER_NAME namelen (edge_encode typ name namelen target) = take namelen name"
proof -
  let ?h = "wr64 (wr32 (wr32 (zeros 272) 0 typ) 4 namelen) 8 target"
  have h: "length ?h = 272" by simp
  have e: "edge_encode typ name namelen target = bsplice 16 (take namelen name) ?h"
    by (simp add: edge_encode_def Let_def bslice_def)
  have l: "length (take namelen name) = namelen" using assms by simp
  have r32: "rd32 (bsplice 16 (take namelen name) ?h) off = rd32 ?h off" if "off + 4 \<le> 16" for off
    using that l h assms(4) by (simp add: rd32_def nth_splice)
  have r64: "rd64 (bsplice 16 (take namelen name) ?h) off = rd64 ?h off" if "off + 8 \<le> 16" for off
    using that by (simp add: rd64_def r32)
  show "rd32 (edge_encode typ name namelen target) ER_TYPE = typ"
    "rd32 (edge_encode typ name namelen target) ER_NAMELEN = namelen"
    "rd64 (edge_encode typ name namelen target) ER_TARGET = target"
    using assms unfolding e by (simp_all add: r32 r64)
  show "bslice ER_NAME namelen (edge_encode typ name namelen target) = take namelen name"
    using slice_splice_same [of 16 "take namelen name" ?h] l h assms(4) unfolding e by simp
qed

section \<open>Superblock checks\<close>

text \<open>\<open>Some gen\<close> is the C result 1 with \<^verbatim>\<open>*gen_out\<close> set.\<close>

definition sb_valid :: "byte list \<Rightarrow> nat option" where
  "sb_valid s =
     (if rd64 s SB_MAGIC \<noteq> GFS_SB_MAGIC \<or> rd32 s SB_VERSION \<noteq> GFS_VERSION
        \<or> rd32 s SB_BLOCK_SIZE \<noteq> GFS_BLOCK_SIZE then None
      else let stored = rd32 s SB_CRC; tmp = wr32 s SB_CRC 0 in
        if unat (crc32c tmp) \<noteq> stored then None else Some (rd64 s SB_GEN))"

text \<open>The superblock image \<^verbatim>\<open>sb_encode\<close> builds, before and after the checksum is stored.\<close>

definition sb_fields :: "nat \<Rightarrow> nat \<Rightarrow> nat \<Rightarrow> nat \<Rightarrow> nat \<Rightarrow> nat \<Rightarrow> gfs_bp \<Rightarrow> nat \<Rightarrow> nat \<Rightarrow> nat \<Rightarrow> byte list" where
  "sb_fields total_blocks node_count root_node bitmap_start bitmap_blocks gen nodemap bm_crc free_blocks free_nodes =
     (let s = zeros GFS_BLOCK_SIZE;
          s = wr64 s SB_MAGIC GFS_SB_MAGIC;
          s = wr32 s SB_VERSION GFS_VERSION;
          s = wr32 s SB_BLOCK_SIZE GFS_BLOCK_SIZE;
          s = wr64 s SB_GEN gen;
          s = wr64 s SB_TOTAL total_blocks;
          s = wr64 s SB_NODE_COUNT node_count;
          s = wr64 s SB_ROOT root_node;
          s = wr64 s SB_BM_START bitmap_start;
          s = wr64 s SB_BM_BLOCKS bitmap_blocks;
          s = wr32 s SB_BM_CRC bm_crc;
          s = wr64 s SB_NODEMAP_PHYS (bp_phys nodemap);
          s = wr32 s SB_NODEMAP_CRC (bp_crc nodemap);
          s = wr64 s SB_FREE_BLOCKS free_blocks;
          s = wr64 s SB_FREE_NODES free_nodes
      in wr32 s SB_CRC 0)"

definition sb_image :: "nat \<Rightarrow> nat \<Rightarrow> nat \<Rightarrow> nat \<Rightarrow> nat \<Rightarrow> nat \<Rightarrow> gfs_bp \<Rightarrow> nat \<Rightarrow> nat \<Rightarrow> nat \<Rightarrow> byte list" where
  "sb_image total_blocks node_count root_node bitmap_start bitmap_blocks gen nodemap bm_crc free_blocks free_nodes =
     (let s = sb_fields total_blocks node_count root_node bitmap_start bitmap_blocks gen nodemap bm_crc
                free_blocks free_nodes
      in wr32 s SB_CRC (unat (crc32c s)))"

lemma wr32_overwrite:
  assumes "off + 4 \<le> length p"
  shows "wr32 (wr32 p off v) off w = wr32 p off w"
  using assms by (intro nth_equalityI) (simp_all add: wr32_def nth_list_update)

lemma length_sb_fields [simp]: "length (sb_fields t nc r bs bb g nm c fb fn) = 4096"
  by (simp add: sb_fields_def Let_def)

lemma length_sb_image [simp]: "length (sb_image t nc r bs bb g nm c fb fn) = 4096"
  by (simp add: sb_image_def Let_def)

lemma sb_fields_crc_zero: "wr32 (sb_fields t nc r bs bb g nm c fb fn) 16 0 = sb_fields t nc r bs bb g nm c fb fn"
  by (simp add: sb_fields_def Let_def wr32_overwrite)

lemma sb_image_decode:
  assumes "t < 2 ^ 64" "nc < 2 ^ 64" "r < 2 ^ 64" "bs < 2 ^ 64" "bb < 2 ^ 64" "g < 2 ^ 64" "bp_ok nm"
    "c < 2 ^ 32" "fb < 2 ^ 64" "fn < 2 ^ 64"
  shows "rd64 (sb_image t nc r bs bb g nm c fb fn) SB_GEN = g"
    "rd64 (sb_image t nc r bs bb g nm c fb fn) SB_TOTAL = t"
    "rd64 (sb_image t nc r bs bb g nm c fb fn) SB_NODE_COUNT = nc"
    "rd64 (sb_image t nc r bs bb g nm c fb fn) SB_ROOT = r"
    "rd64 (sb_image t nc r bs bb g nm c fb fn) SB_BM_START = bs"
    "rd64 (sb_image t nc r bs bb g nm c fb fn) SB_BM_BLOCKS = bb"
    "rd32 (sb_image t nc r bs bb g nm c fb fn) SB_BM_CRC = c"
    "rd64 (sb_image t nc r bs bb g nm c fb fn) SB_NODEMAP_PHYS = bp_phys nm"
    "rd32 (sb_image t nc r bs bb g nm c fb fn) SB_NODEMAP_CRC = bp_crc nm"
    "rd64 (sb_image t nc r bs bb g nm c fb fn) SB_FREE_BLOCKS = fb"
    "rd64 (sb_image t nc r bs bb g nm c fb fn) SB_FREE_NODES = fn"
  using assms by (simp_all add: sb_image_def Let_def) (simp_all add: sb_fields_def Let_def bp_ok_def)

lemma sb_image_valid:
  assumes "g < 2 ^ 64"
  shows "sb_valid (sb_image t nc r bs bb g nm c fb fn) = Some g"
proof -
  let ?f = "sb_fields t nc r bs bb g nm c fb fn"
  have crc: "unat (crc32c ?f) < 2 ^ 32" using unsigned_less [of "crc32c ?f"] by simp
  have "wr32 (wr32 ?f 16 (unat (crc32c ?f))) 16 0 = ?f"
    by (simp add: wr32_overwrite sb_fields_crc_zero)
  moreover have "rd64 ?f 0 = GFS_SB_MAGIC" "rd32 ?f 8 = 1" "rd32 ?f 12 = 4096" "rd64 ?f 24 = g"
    using assms by (simp_all add: sb_fields_def Let_def)
  ultimately show ?thesis using crc by (simp add: sb_valid_def sb_image_def Let_def)
qed

end
