(* ===== verification/Gfs_State.thy ===== *)
theory Gfs_State
  imports Gfs_Format
begin

text \<open>
  The state of a mounted graphfs (\<^verbatim>\<open>struct gfs\<close>), checked block I/O, the allocation bitmaps, the
  node map and the transaction frame (\<^verbatim>\<open>txn_begin\<close>, \<^verbatim>\<open>txn_commit\<close>) of
  \<^verbatim>\<open>kernel/fs/graphfs_core.c\<close>.

  An operation is a function from the state to an optional pair of a result and the new state:
  \<open>None\<close> is a loop that does not return, \<open>Inl e\<close> an error return, \<open>Inr x\<close> \<^verbatim>\<open>GFS_OK\<close> with the
  values stored through the out parameters. The block device is the pair of callbacks
  \<^verbatim>\<open>struct gfs_ops\<close> over a device state of any type; what a device must satisfy is the locale
  of the theory that proves the transaction properties. A \<^verbatim>\<open>void *buf\<close> argument that names one
  of the five block buffers of \<^verbatim>\<open>struct gfs\<close> is the update of that field.
\<close>

section \<open>State\<close>

record 'c gfs_ops =
  op_read :: "'c \<Rightarrow> nat \<Rightarrow> byte list option \<times> 'c"
  op_write :: "'c \<Rightarrow> nat \<Rightarrow> byte list \<Rightarrow> bool \<times> 'c"

record 'c gfs =
  g_ops :: "'c gfs_ops"
  g_ctx :: 'c
  g_writable :: bool
  g_generation :: nat
  g_total_blocks :: nat
  g_node_count :: nat
  g_root_node :: nat
  g_bitmap_start :: nat
  g_bitmap_blocks :: nat
  g_nodemap :: gfs_bp
  g_free_blocks :: nat
  g_free_nodes :: nat
  g_committed_bm :: "byte list"
  g_working_bm :: "byte list"
  g_bm_bytes :: nat
  g_sb :: "byte list"
  g_map :: "byte list"
  g_tbl :: "byte list"
  g_a :: "byte list"
  g_b :: "byte list"

type_synonym ('c, 'a) gfs_m = "'c gfs \<Rightarrow> ((gfs_err + 'a) \<times> 'c gfs) option"
type_synonym 'c gfs_dest = "byte list \<Rightarrow> 'c gfs \<Rightarrow> 'c gfs"

abbreviation to_sb :: "'c gfs_dest" where "to_sb blk fs \<equiv> fs\<lparr>g_sb := blk\<rparr>"
abbreviation to_map :: "'c gfs_dest" where "to_map blk fs \<equiv> fs\<lparr>g_map := blk\<rparr>"
abbreviation to_tbl :: "'c gfs_dest" where "to_tbl blk fs \<equiv> fs\<lparr>g_tbl := blk\<rparr>"
abbreviation to_a :: "'c gfs_dest" where "to_a blk fs \<equiv> fs\<lparr>g_a := blk\<rparr>"
abbreviation to_b :: "'c gfs_dest" where "to_b blk fs \<equiv> fs\<lparr>g_b := blk\<rparr>"

text \<open>A buffer that is a local variable of the caller.\<close>

abbreviation to_local :: "'c gfs_dest" where "to_local blk fs \<equiv> fs"

section \<open>Sequencing\<close>

definition gret :: "'a \<Rightarrow> ('c, 'a) gfs_m" where
  "gret x fs = Some (Inr x, fs)"

definition gfail :: "gfs_err \<Rightarrow> ('c, 'a) gfs_m" where
  "gfail e fs = Some (Inl e, fs)"

definition gbind :: "('c, 'a) gfs_m \<Rightarrow> ('a \<Rightarrow> ('c, 'b) gfs_m) \<Rightarrow> ('c, 'b) gfs_m" where
  "gbind m f fs = Option.bind (m fs)
     (\<lambda>y. case y of (r, fs') \<Rightarrow> (case r of Inl e \<Rightarrow> Some (Inl e, fs') | Inr x \<Rightarrow> f x fs'))"

definition gseq :: "('c, unit) gfs_m \<Rightarrow> ('c, 'b) gfs_m \<Rightarrow> ('c, 'b) gfs_m" where
  "gseq m k = gbind m (\<lambda>_. k)"

definition gget :: "('c gfs \<Rightarrow> ('c, 'a) gfs_m) \<Rightarrow> ('c, 'a) gfs_m" where
  "gget f fs = f fs fs"

definition gmod :: "('c gfs \<Rightarrow> 'c gfs) \<Rightarrow> ('c, unit) gfs_m" where
  "gmod u fs = Some (Inr (), u fs)"

text \<open>\<^verbatim>\<open>if (c) return e;\<close>\<close>

definition gfail_if :: "bool \<Rightarrow> gfs_err \<Rightarrow> ('c, unit) gfs_m" where
  "gfail_if c e = (if c then gfail e else gret ())"

text \<open>The return code as a value, for callers that look at it instead of returning it.\<close>

definition gtry :: "('c, 'a) gfs_m \<Rightarrow> ('c, gfs_err + 'a) gfs_m" where
  "gtry m fs = map_option (\<lambda>(r, fs'). (Inr r, fs')) (m fs)"

text \<open>A counted loop whose body may return an error.\<close>

fun gfor :: "'x list \<Rightarrow> ('x \<Rightarrow> ('c, unit) gfs_m) \<Rightarrow> ('c, unit) gfs_m" where
  "gfor [] f = gret ()"
| "gfor (x # xs) f = gseq (f x) (gfor xs f)"

lemmas gfs_m_defs = gret_def gfail_def gbind_def gseq_def gget_def gmod_def gfail_if_def gtry_def

lemma gbind_mono [partial_function_mono]:
  assumes "mono_option (\<lambda>f. A f fs)" "\<And>x fs'. mono_option (\<lambda>f. B f x fs')"
  shows "mono_option (\<lambda>f. gbind (A f) (B f) fs)"
  unfolding gbind_def
proof (rule bind_mono [OF assms(1)])
  fix y
  show "mono_option (\<lambda>f. case y of (r, fs') \<Rightarrow>
      (case r of Inl e \<Rightarrow> Some (Inl e, fs') | Inr x \<Rightarrow> B f x fs'))"
    using assms(2) by (cases y; cases "fst y") (simp_all add: option.const_mono)
qed

lemma gseq_mono [partial_function_mono]:
  assumes "mono_option (\<lambda>f. A f fs)" "\<And>fs'. mono_option (\<lambda>f. B f fs')"
  shows "mono_option (\<lambda>f. gseq (A f) (B f) fs)"
  unfolding gseq_def using assms by (intro gbind_mono)

lemma gget_mono [partial_function_mono]:
  assumes "mono_option (\<lambda>f. B f fs fs)"
  shows "mono_option (\<lambda>f. gget (B f) fs)"
  unfolding gget_def by (rule assms)

section \<open>Raw and checksummed block I/O\<close>

definition bread :: "nat \<Rightarrow> 'c gfs_dest \<Rightarrow> ('c, byte list) gfs_m" where
  "bread lba put fs =
     (if lba \<ge> g_total_blocks fs then Some (Inl GFS_ECORRUPT, fs)
      else case op_read (g_ops fs) (g_ctx fs) lba of
        (None, c) \<Rightarrow> Some (Inl GFS_EIO, fs\<lparr>g_ctx := c\<rparr>)
      | (Some blk, c) \<Rightarrow> Some (Inr blk, put blk (fs\<lparr>g_ctx := c\<rparr>)))"

definition bwrite :: "nat \<Rightarrow> byte list \<Rightarrow> ('c, unit) gfs_m" where
  "bwrite lba blk fs =
     (if lba \<ge> g_total_blocks fs then Some (Inl GFS_ECORRUPT, fs)
      else case op_write (g_ops fs) (g_ctx fs) lba blk of
        (ok, c) \<Rightarrow> Some (if ok then Inr () else Inl GFS_EIO, fs\<lparr>g_ctx := c\<rparr>))"

definition read_meta :: "gfs_bp \<Rightarrow> 'c gfs_dest \<Rightarrow> ('c, byte list) gfs_m" where
  "read_meta bp put =
     gbind (bread (bp_phys bp) put) (\<lambda>blk.
     if unat (crc32c blk) \<noteq> bp_crc bp then gfail GFS_EBADCRC else gret blk)"

definition write_meta :: "nat \<Rightarrow> byte list \<Rightarrow> ('c, gfs_bp) gfs_m" where
  "write_meta phys blk =
     gseq (bwrite phys blk) (gret \<lparr>bp_phys = phys, bp_crc = unat (crc32c blk)\<rparr>)"

section \<open>Allocation bitmap\<close>

definition data_first :: "'c gfs \<Rightarrow> nat" where
  "data_first fs = u64 (g_bitmap_start fs + u64 (2 * g_bitmap_blocks fs))"

text \<open>A block the current transaction may take: free in both bitmaps.\<close>

definition both_free :: "'c gfs \<Rightarrow> nat \<Rightarrow> bool" where
  "both_free fs i \<longleftrightarrow> \<not> bm_test (g_committed_bm fs) i \<and> \<not> bm_test (g_working_bm fs) i"

definition alloc_block :: "('c, nat) gfs_m" where
  "alloc_block fs =
     (case List.find (both_free fs) [data_first fs..<g_total_blocks fs] of
        Some i \<Rightarrow> Some (Inr i, fs\<lparr>g_working_bm := bm_set (g_working_bm fs) i\<rparr>)
      | None \<Rightarrow> Some (Inl GFS_ENOSPC, fs))"

definition alloc_near :: "nat \<Rightarrow> ('c, nat) gfs_m" where
  "alloc_near hint fs =
     (if hint \<ge> data_first fs \<and> hint < g_total_blocks fs \<and> both_free fs hint
      then Some (Inr hint, fs\<lparr>g_working_bm := bm_set (g_working_bm fs) hint\<rparr>)
      else alloc_block fs)"

definition free_block :: "nat \<Rightarrow> 'c gfs \<Rightarrow> 'c gfs" where
  "free_block blk fs = (if blk \<noteq> 0 then fs\<lparr>g_working_bm := bm_clr (g_working_bm fs) blk\<rparr> else fs)"

definition count_free :: "'c gfs \<Rightarrow> nat" where
  "count_free fs = fold (\<lambda>i c. if \<not> bm_test (g_working_bm fs) i then u64 (c + 1) else c)
     [0..<g_total_blocks fs] 0"

section \<open>Node map and node records\<close>

definition map_get :: "'c gfs \<Rightarrow> nat \<Rightarrow> gfs_bp" where
  "map_get fs bi = (let e = bi * MP_SIZE in
     \<lparr>bp_phys = rd64 (g_map fs) (e + MP_PHYS), bp_crc = rd32 (g_map fs) (e + MP_CRC)\<rparr>)"

definition map_set :: "nat \<Rightarrow> gfs_bp \<Rightarrow> 'c gfs \<Rightarrow> 'c gfs" where
  "map_set bi bp fs = (let e = bi * MP_SIZE;
       m = g_map fs;
       m = wr64 m (e + MP_PHYS) (bp_phys bp);
       m = wr32 m (e + MP_CRC) (bp_crc bp);
       m = wr32 m (e + MP_CRC + 4) 0
     in fs\<lparr>g_map := m\<rparr>)"

definition node_read :: "nat \<Rightarrow> ('c, disk_node) gfs_m" where
  "node_read nid =
     gget (\<lambda>fs. if nid = 0 \<or> nid \<ge> g_node_count fs then gfail GFS_EINVAL else
     let bp = map_get fs (nid div GFS_NODES_PER_BLOCK) in
     if bp_phys bp = 0 then gret zero_node else
     gbind (read_meta bp to_tbl) (\<lambda>_.
     gget (\<lambda>fs. gret (node_decode
       (bslice ((nid mod GFS_NODES_PER_BLOCK) * GFS_NODE_SIZE) GFS_NODE_SIZE (g_tbl fs))))))"

definition node_write :: "nat \<Rightarrow> disk_node \<Rightarrow> ('c, unit) gfs_m" where
  "node_write nid n =
     gget (\<lambda>fs. let bi = nid div GFS_NODES_PER_BLOCK; old = map_get fs bi in
     gseq (if bp_phys old = 0 then gmod (to_tbl (zeros GFS_BLOCK_SIZE))
           else gbind (read_meta old to_tbl) (\<lambda>_. gret ()))
     (gseq (gmod (\<lambda>fs. fs\<lparr>g_tbl := bsplice ((nid mod GFS_NODES_PER_BLOCK) * GFS_NODE_SIZE)
                                    (node_encode n) (g_tbl fs)\<rparr>))
     (gbind alloc_block (\<lambda>phys.
     gbind (gget (\<lambda>fs. write_meta phys (g_tbl fs))) (\<lambda>bp.
     gseq (gmod (map_set bi bp))
     (gmod (free_block (bp_phys old))))))))"

section \<open>Transactions\<close>

definition txn_begin :: "('c, unit) gfs_m" where
  "txn_begin =
     gget (\<lambda>fs. gseq (gfail_if (\<not> g_writable fs) GFS_EROFS)
     (gseq (gmod (\<lambda>fs. fs\<lparr>g_working_bm :=
              bsplice 0 (bslice 0 (g_bm_bytes fs) (g_committed_bm fs)) (g_working_bm fs)\<rparr>))
     (gbind (read_meta (g_nodemap fs) to_map) (\<lambda>_. gret ()))))"

definition bitmap_crc :: "'c gfs \<Rightarrow> nat" where
  "bitmap_crc fs = unat (crc32c (bslice 0 (g_bm_bytes fs) (g_working_bm fs)))"

text \<open>The number of bitmap bytes in block \<open>j\<close> of a copy, with the unsigned subtraction of the code.\<close>

definition bitmap_chunk :: "nat \<Rightarrow> nat \<Rightarrow> nat" where
  "bitmap_chunk bm_bytes j = (let off = u64 (j * GFS_BLOCK_SIZE) in
     if sub64 bm_bytes off < GFS_BLOCK_SIZE then sub64 bm_bytes off else GFS_BLOCK_SIZE)"

definition bitmap_lba :: "'c gfs \<Rightarrow> nat \<Rightarrow> nat \<Rightarrow> nat" where
  "bitmap_lba fs parity j = u64 (g_bitmap_start fs + parity * g_bitmap_blocks fs + j)"

definition write_bitmap :: "nat \<Rightarrow> byte list \<Rightarrow> ('c, unit) gfs_m" where
  "write_bitmap parity bm =
     gget (\<lambda>fs. gfor [0..<g_bitmap_blocks fs] (\<lambda>j.
       gseq (gmod (to_b (zeros GFS_BLOCK_SIZE)))
       (gget (\<lambda>fs. let off = u64 (j * GFS_BLOCK_SIZE); chunk = bitmap_chunk (g_bm_bytes fs) j in
       gseq (gmod (\<lambda>fs. fs\<lparr>g_b := bsplice 0 (bslice off chunk bm) (g_b fs)\<rparr>))
       (gget (\<lambda>fs. bwrite (bitmap_lba fs parity j) (g_b fs)))))))"

definition sb_encode :: "nat \<Rightarrow> gfs_bp \<Rightarrow> nat \<Rightarrow> nat \<Rightarrow> nat \<Rightarrow> 'c gfs \<Rightarrow> 'c gfs" where
  "sb_encode gen nodemap bm_crc free_blocks free_nodes fs =
     fs\<lparr>g_sb := sb_image (g_total_blocks fs) (g_node_count fs) (g_root_node fs) (g_bitmap_start fs)
                 (g_bitmap_blocks fs) gen nodemap bm_crc free_blocks free_nodes\<rparr>"

definition txn_commit :: "int \<Rightarrow> ('c, unit) gfs_m" where
  "txn_commit nodes_delta =
     gget (\<lambda>fs0. let new_gen = u64 (g_generation fs0 + 1); parity = new_gen mod 2 in
     gbind alloc_block (\<lambda>mp_phys.
     gbind (gget (\<lambda>fs. write_meta mp_phys (g_map fs))) (\<lambda>new_map.
     gseq (gmod (free_block (bp_phys (g_nodemap fs0))))
     (gget (\<lambda>fs. let free_blocks = count_free fs;
          free_nodes = (if nodes_delta \<ge> 0 then u64 (g_free_nodes fs + nat nodes_delta)
                        else sub64 (g_free_nodes fs) (nat (- nodes_delta))) in
     gseq (write_bitmap parity (g_working_bm fs))
     (gget (\<lambda>fs. let bm_crc = bitmap_crc fs in
     gseq (gmod (sb_encode new_gen new_map bm_crc free_blocks free_nodes))
     (gseq (gget (\<lambda>fs. bwrite parity (g_sb fs)))
     (gmod (\<lambda>fs. fs\<lparr>g_generation := new_gen, g_nodemap := new_map, g_free_blocks := free_blocks,
        g_free_nodes := free_nodes,
        g_committed_bm := bsplice 0 (bslice 0 (g_bm_bytes fs) (g_working_bm fs)) (g_committed_bm fs)\<rparr>))))))))))"

end
