(* ===== verification/Gfs_Edges.thy ===== *)
theory Gfs_Edges
  imports Gfs_State
begin

text \<open>
  Edge chains of graphfs (\<^verbatim>\<open>edge_encode\<close> to \<^verbatim>\<open>edge_lookup\<close> in \<^verbatim>\<open>kernel/fs/graphfs_core.c\<close>).
  A node's outgoing edges are a singly linked chain of checksummed blocks with up to fourteen
  records each. The loops that follow the chain are partial functions: a chain that closes on
  itself makes them run forever.
\<close>

section \<open>Edge blocks\<close>

definition eb_next :: "byte list \<Rightarrow> gfs_bp" where
  "eb_next blk = \<lparr>bp_phys = rd64 blk EB_NEXT_PHYS, bp_crc = rd32 blk EB_NEXT_CRC\<rparr>"

definition eb_rec :: "byte list \<Rightarrow> nat \<Rightarrow> byte list" where
  "eb_rec blk k = bslice (EB_RECORDS + k * ER_SIZE) ER_SIZE blk"

text \<open>The test for a NAME edge with the given name.\<close>

definition edge_match :: "byte list \<Rightarrow> nat \<Rightarrow> byte list \<Rightarrow> bool" where
  "edge_match name namelen rec \<longleftrightarrow> rd32 rec ER_TYPE = GFS_EDGE_NAME \<and> rd32 rec ER_NAMELEN = namelen
     \<and> bslice ER_NAME namelen rec = bslice 0 namelen name"

text \<open>A loop over a list that threads a value.\<close>

fun gfold :: "('x \<Rightarrow> 's \<Rightarrow> ('c, 's) gfs_m) \<Rightarrow> 'x list \<Rightarrow> 's \<Rightarrow> ('c, 's) gfs_m" where
  "gfold f [] s = gret s"
| "gfold f (x # xs) s = gbind (f x s) (gfold f xs)"

section \<open>Adding an edge\<close>

text \<open>The second half of \<^verbatim>\<open>edge_add\<close>: a fresh head block that chains to the old head.\<close>

definition edge_add_fresh :: "disk_node \<Rightarrow> nat \<Rightarrow> nat \<Rightarrow> byte list \<Rightarrow> nat \<Rightarrow> ('c, disk_node) gfs_m" where
  "edge_add_fresh node typ target name namelen =
     (let head = dn_edge_head node in
     gseq (gmod (to_a (let a = zeros GFS_BLOCK_SIZE;
            a = wr32 a EB_MAGIC GFS_EDGE_MAGIC;
            a = wr32 a EB_COUNT 1;
            a = wr64 a EB_NEXT_PHYS (bp_phys head);
            a = wr32 a EB_NEXT_CRC (bp_crc head)
          in bsplice EB_RECORDS (edge_encode typ name namelen target) a)))
     (gbind alloc_block (\<lambda>phys.
     gbind (gget (\<lambda>fs. write_meta phys (g_a fs))) (\<lambda>bp.
     gret (node\<lparr>dn_edge_head := bp, dn_edge_count := u32 (dn_edge_count node + 1)\<rparr>)))))"

definition edge_add :: "disk_node \<Rightarrow> nat \<Rightarrow> nat \<Rightarrow> byte list \<Rightarrow> nat \<Rightarrow> ('c, disk_node) gfs_m" where
  "edge_add node typ target name namelen =
     (let head = dn_edge_head node in
     if bp_phys head \<noteq> 0 then
       gbind (read_meta head to_a) (\<lambda>_.
       gget (\<lambda>fs. let count = rd32 (g_a fs) EB_COUNT in
       if count < GFS_EDGES_PER_BLOCK then
         gseq (gmod (\<lambda>fs. fs\<lparr>g_a := wr32 (bsplice (EB_RECORDS + count * ER_SIZE)
                 (edge_encode typ name namelen target) (g_a fs)) EB_COUNT (count + 1)\<rparr>))
         (gbind alloc_block (\<lambda>phys.
         gbind (gget (\<lambda>fs. write_meta phys (g_a fs))) (\<lambda>bp.
         gseq (gmod (free_block (bp_phys head)))
         (gret (node\<lparr>dn_edge_head := bp, dn_edge_count := u32 (dn_edge_count node + 1)\<rparr>)))))
       else edge_add_fresh node typ target name namelen))
     else edge_add_fresh node typ target name namelen)"

section \<open>Removing an edge\<close>

text \<open>The local variables of \<^verbatim>\<open>edge_remove_name\<close>; \<open>er_found\<close> is the removed target.\<close>

record er_vars =
  er_prev :: gfs_bp
  er_count :: nat
  er_total :: nat
  er_found :: "nat option"

text \<open>Writing out the block under construction in \<^verbatim>\<open>fs->b\<close>.\<close>

definition edge_flush :: "er_vars \<Rightarrow> ('c, gfs_bp) gfs_m" where
  "edge_flush v =
     gseq (gmod (\<lambda>fs. fs\<lparr>g_b := (let b = wr32 (g_b fs) EB_COUNT (er_count v);
             b = wr64 b EB_NEXT_PHYS (bp_phys (er_prev v))
           in wr32 b EB_NEXT_CRC (bp_crc (er_prev v)))\<rparr>))
     (gbind alloc_block (\<lambda>phys. gget (\<lambda>fs. write_meta phys (g_b fs))))"

definition edge_new_block :: "('c, unit) gfs_m" where
  "edge_new_block = gmod (to_b (wr32 (zeros GFS_BLOCK_SIZE) EB_MAGIC GFS_EDGE_MAGIC))"

text \<open>The body of the record loop.\<close>

definition edge_remove_rec :: "byte list \<Rightarrow> nat \<Rightarrow> nat \<Rightarrow> er_vars \<Rightarrow> ('c, er_vars) gfs_m" where
  "edge_remove_rec name namelen k v =
     gget (\<lambda>fs. let rec = eb_rec (g_a fs) k in
     if er_found v = None \<and> edge_match name namelen rec
     then gret (v\<lparr>er_found := Some (rd64 rec ER_TARGET)\<rparr>)
     else
       gbind (if er_count v = GFS_EDGES_PER_BLOCK
              then gbind (edge_flush v) (\<lambda>bp. gseq edge_new_block (gret (v\<lparr>er_prev := bp, er_count := 0\<rparr>)))
              else gret v) (\<lambda>v.
       gseq (gmod (\<lambda>fs. fs\<lparr>g_b := bsplice (EB_RECORDS + er_count v * ER_SIZE) rec (g_b fs)\<rparr>))
       (gret (v\<lparr>er_count := u32 (er_count v + 1), er_total := u32 (er_total v + 1)\<rparr>))))"

partial_function (option) edge_remove_loop ::
  "byte list \<Rightarrow> nat \<Rightarrow> gfs_bp \<Rightarrow> er_vars \<Rightarrow> 'c gfs \<Rightarrow> ((gfs_err + er_vars) \<times> 'c gfs) option" where
  "edge_remove_loop name namelen cur v fs =
     (if bp_phys cur = 0 then gret v fs
      else gbind (read_meta cur to_a) (\<lambda>_ fs1.
        gbind (gfold (edge_remove_rec name namelen) [0..<rd32 (g_a fs1) EB_COUNT] v) (\<lambda>v' fs2.
        gseq (gmod (free_block (bp_phys cur))) (\<lambda>fs3.
        edge_remove_loop name namelen (eb_next (g_a fs1)) v' fs3) fs2) fs1) fs)"

definition edge_remove_name :: "disk_node \<Rightarrow> byte list \<Rightarrow> nat \<Rightarrow> ('c, disk_node \<times> nat) gfs_m" where
  "edge_remove_name node name namelen =
     gseq edge_new_block
     (gbind (edge_remove_loop name namelen (dn_edge_head node)
               \<lparr>er_prev = \<lparr>bp_phys = 0, bp_crc = 0\<rparr>, er_count = 0, er_total = 0, er_found = None\<rparr>) (\<lambda>v.
     case er_found v of None \<Rightarrow> gfail GFS_ENOENT
     | Some removed \<Rightarrow>
       gbind (if er_count v > 0 then edge_flush v else gret (er_prev v)) (\<lambda>new_head.
       gret (node\<lparr>dn_edge_head := new_head, dn_edge_count := er_total v\<rparr>, removed))))"

section \<open>Freeing and searching a chain\<close>

partial_function (option) edge_chain_free :: "gfs_bp \<Rightarrow> 'c gfs \<Rightarrow> ((gfs_err + unit) \<times> 'c gfs) option" where
  "edge_chain_free head fs =
     (if bp_phys head = 0 then gret () fs
      else gbind (read_meta head to_a) (\<lambda>_ fs1.
        gseq (gmod (free_block (bp_phys head))) (\<lambda>fs2.
        edge_chain_free (eb_next (g_a fs1)) fs2) fs1) fs)"

definition edge_find :: "byte list \<Rightarrow> nat \<Rightarrow> byte list \<Rightarrow> nat option" where
  "edge_find name namelen blk =
     map_option (\<lambda>k. rd64 (eb_rec blk k) ER_TARGET)
       (List.find (\<lambda>k. edge_match name namelen (eb_rec blk k)) [0..<rd32 blk EB_COUNT])"

partial_function (option) edge_lookup_loop ::
  "byte list \<Rightarrow> nat \<Rightarrow> gfs_bp \<Rightarrow> 'c gfs \<Rightarrow> ((gfs_err + nat) \<times> 'c gfs) option" where
  "edge_lookup_loop name namelen cur fs =
     (if bp_phys cur = 0 then gfail GFS_ENOENT fs
      else gbind (read_meta cur to_a) (\<lambda>_ fs1.
        case edge_find name namelen (g_a fs1) of
          Some target \<Rightarrow> gret target fs1
        | None \<Rightarrow> edge_lookup_loop name namelen (eb_next (g_a fs1)) fs1) fs)"

definition edge_lookup :: "disk_node \<Rightarrow> byte list \<Rightarrow> nat \<Rightarrow> ('c, nat) gfs_m" where
  "edge_lookup dir name namelen = edge_lookup_loop name namelen (dn_edge_head dir)"

end
