(* ===== verification/Gfs_Mount.thy ===== *)
theory Gfs_Mount
  imports Gfs_Edges
begin

text \<open>
  Mounting and creating a graphfs (\<^verbatim>\<open>sb_decode\<close> to \<^verbatim>\<open>gfs_mkfs\<close> in
  \<^verbatim>\<open>kernel/fs/graphfs_core.c\<close>) and the read-only operations (\<^verbatim>\<open>gfs_node_get\<close> to
  \<^verbatim>\<open>gfs_read\<close>).
\<close>

section \<open>Mount\<close>

definition sb_decode :: "byte list \<Rightarrow> 'c gfs \<Rightarrow> 'c gfs" where
  "sb_decode s fs = fs\<lparr>
     g_generation := rd64 s SB_GEN,
     g_total_blocks := rd64 s SB_TOTAL,
     g_node_count := rd64 s SB_NODE_COUNT,
     g_root_node := rd64 s SB_ROOT,
     g_bitmap_start := rd64 s SB_BM_START,
     g_bitmap_blocks := rd64 s SB_BM_BLOCKS,
     g_nodemap := \<lparr>bp_phys = rd64 s SB_NODEMAP_PHYS, bp_crc = rd32 s SB_NODEMAP_CRC\<rparr>,
     g_free_blocks := rd64 s SB_FREE_BLOCKS,
     g_free_nodes := rd64 s SB_FREE_NODES\<rparr>"

definition bm_size :: "nat \<Rightarrow> nat" where
  "bm_size total_blocks = u64 (total_blocks + 7) div 8"

definition gfs_mount_work_size :: "nat \<Rightarrow> nat" where
  "gfs_mount_work_size total_blocks = u64 (2 * bm_size total_blocks)"

definition sb_geometry_ok :: "'c gfs \<Rightarrow> bool" where
  "sb_geometry_ok fs =
     (if g_node_count fs < 2 \<or> g_node_count fs > GFS_MAX_NODES then False
      else if g_root_node fs \<noteq> GFS_ROOT_NODE then False
      else if g_bitmap_start fs \<noteq> 2 \<or> g_bitmap_blocks fs = 0 then False
      else if data_first fs > g_total_blocks fs then False
      else if bp_phys (g_nodemap fs) < data_first fs \<or> bp_phys (g_nodemap fs) \<ge> g_total_blocks fs then False
      else True)"

definition read_bitmap :: "nat \<Rightarrow> ('c, unit) gfs_m" where
  "read_bitmap parity =
     gget (\<lambda>fs. gfor [0..<g_bitmap_blocks fs] (\<lambda>j.
       gget (\<lambda>fs. gbind (bread (bitmap_lba fs parity j) to_b) (\<lambda>_.
       gmod (\<lambda>fs. fs\<lparr>g_committed_bm := bsplice (u64 (j * GFS_BLOCK_SIZE))
         (bslice 0 (bitmap_chunk (g_bm_bytes fs) j) (g_b fs)) (g_committed_bm fs)\<rparr>)))))"

text \<open>The handle after \<^verbatim>\<open>memset(fs, 0, sizeof(*fs))\<close> and the two assignments that follow.\<close>

definition gfs_blank :: "'c gfs_ops \<Rightarrow> 'c \<Rightarrow> 'c gfs" where
  "gfs_blank ops ctx = \<lparr>g_ops = ops, g_ctx = ctx, g_writable = False, g_generation = 0, g_total_blocks = 0,
     g_node_count = 0, g_root_node = 0, g_bitmap_start = 0, g_bitmap_blocks = 0,
     g_nodemap = \<lparr>bp_phys = 0, bp_crc = 0\<rparr>, g_free_blocks = 0, g_free_nodes = 0,
     g_committed_bm = [], g_working_bm = [], g_bm_bytes = 0, g_sb = zeros GFS_BLOCK_SIZE,
     g_map = zeros GFS_BLOCK_SIZE, g_tbl = zeros GFS_BLOCK_SIZE, g_a = zeros GFS_BLOCK_SIZE,
     g_b = zeros GFS_BLOCK_SIZE\<rparr>"

text \<open>
  One round of the slot loop. The pair of \<^verbatim>\<open>have\<close> and \<^verbatim>\<open>chosen\<close> with \<^verbatim>\<open>best_gen\<close> is an optional
  pair; a slot that cannot be read is skipped.
\<close>

definition mount_slot :: "nat \<Rightarrow> (nat \<times> byte list) option \<Rightarrow> ('c, (nat \<times> byte list) option) gfs_m" where
  "mount_slot slot best fs =
     (case op_read (g_ops fs) (g_ctx fs) slot of
        (None, c) \<Rightarrow> Some (Inr best, fs\<lparr>g_ctx := c\<rparr>)
      | (Some blk, c) \<Rightarrow> Some (Inr (case sb_valid blk of
            None \<Rightarrow> best
          | Some gen \<Rightarrow> (case best of None \<Rightarrow> Some (gen, blk)
              | Some (best_gen, chosen) \<Rightarrow> if gen > best_gen then Some (gen, blk) else best)),
          fs\<lparr>g_ctx := c, g_sb := blk\<rparr>))"

text \<open>
  The writable half of \<^verbatim>\<open>gfs_mount\<close>: carve the two bitmaps out of the work buffer and load the
  live one. \<open>work\<close> is \<open>None\<close> for a null work buffer; its length is \<^verbatim>\<open>work_len\<close>.
\<close>

definition gfs_mount_bitmaps :: "byte list \<Rightarrow> byte list option \<Rightarrow> ('c, unit) gfs_m" where
  "gfs_mount_bitmaps chosen work =
     (case work of None \<Rightarrow> gfail GFS_ENOMEM
      | Some w \<Rightarrow>
        gget (\<lambda>fs. gseq (gfail_if (length w < gfs_mount_work_size (g_total_blocks fs)) GFS_ENOMEM)
        (gseq (gmod (\<lambda>fs. let n = bm_size (g_total_blocks fs) in
            fs\<lparr>g_bm_bytes := n, g_committed_bm := bslice 0 n w, g_working_bm := bslice n n w\<rparr>))
        (gseq (read_bitmap (g_generation fs mod 2))
        (gget (\<lambda>fs. gseq (gfail_if (unat (crc32c (g_committed_bm fs)) \<noteq> rd32 chosen SB_BM_CRC) GFS_EBADCRC)
        (gmod (\<lambda>fs. fs\<lparr>g_working_bm := bsplice 0 (bslice 0 (g_bm_bytes fs) (g_committed_bm fs))
            (g_working_bm fs)\<rparr>))))))))"

definition gfs_mount_body :: "bool \<Rightarrow> byte list option \<Rightarrow> ('c, unit) gfs_m" where
  "gfs_mount_body writable work =
     gbind (gfold mount_slot [0, 1] None) (\<lambda>best.
     case best of None \<Rightarrow> gfail GFS_EBADFS
     | Some (gen, chosen) \<Rightarrow>
       gseq (gmod (sb_decode chosen))
       (gget (\<lambda>fs. gseq (gfail_if (\<not> sb_geometry_ok fs) GFS_EBADFS)
       (gbind (gtry (read_meta (g_nodemap fs) to_map)) (\<lambda>rc.
       case rc of Inl e \<Rightarrow> gfail (if e = GFS_EBADCRC then GFS_EBADCRC else GFS_EBADFS)
       | Inr _ \<Rightarrow>
         gseq (gmod (\<lambda>fs. fs\<lparr>g_writable := writable\<rparr>))
         (if writable then gfs_mount_bitmaps chosen work else gret ()))))))"

definition gfs_mount :: "'c gfs_ops \<Rightarrow> 'c \<Rightarrow> bool \<Rightarrow> byte list option
    \<Rightarrow> ((gfs_err + unit) \<times> 'c gfs) option" where
  "gfs_mount ops ctx writable work = gfs_mount_body writable work (gfs_blank ops ctx)"

text \<open>Unmounting drops the handle; the device state is what remains.\<close>

definition gfs_unmount :: "'c gfs \<Rightarrow> 'c" where
  "gfs_unmount fs = g_ctx fs"

section \<open>Creating a file system\<close>

text \<open>A device write without the range check of \<^verbatim>\<open>bwrite\<close>.\<close>

definition dev_write :: "nat \<Rightarrow> byte list \<Rightarrow> ('c, unit) gfs_m" where
  "dev_write lba blk fs =
     (case op_write (g_ops fs) (g_ctx fs) lba blk of
        (ok, c) \<Rightarrow> Some (if ok then Inr () else Inl GFS_EIO, fs\<lparr>g_ctx := c\<rparr>))"

definition mkfs_bitmap_block :: "nat \<Rightarrow> nat \<Rightarrow> nat \<Rightarrow> byte list" where
  "mkfs_bitmap_block total_blocks used_prefix j =
     fold (\<lambda>bit blk. let b = j * BM_BITS_PER_BLOCK + bit in
        if b < total_blocks \<and> b < used_prefix then bm_set blk bit else blk)
       [0..<BM_BITS_PER_BLOCK] (zeros GFS_BLOCK_SIZE)"

definition mkfs_root :: disk_node where
  "mkfs_root = zero_node\<lparr>dn_type := GFS_NODE_NAMESPACE, dn_mode := 0, dn_parent := GFS_ROOT_NODE\<rparr>"

definition mkfs_bitmap_copy :: "nat \<Rightarrow> nat \<Rightarrow> nat \<Rightarrow> nat \<Rightarrow> nat \<Rightarrow> nat \<Rightarrow> ('c, nat) gfs_m" where
  "mkfs_bitmap_copy total_blocks used_prefix bitmap_start bitmap_blocks bm_bytes copy =
     gbind (gfold (\<lambda>j running. let blk = mkfs_bitmap_block total_blocks used_prefix j in
         gseq (dev_write (bitmap_start + copy * bitmap_blocks + j) blk)
         (gret (crc32c_update running (bslice 0 (bitmap_chunk bm_bytes j) blk))))
       [0..<bitmap_blocks] CRC32C_INIT) (\<lambda>running.
     gret (unat (crc32c_final running)))"

definition gfs_mkfs :: "'c gfs_ops \<Rightarrow> 'c \<Rightarrow> nat \<Rightarrow> nat \<Rightarrow> ((gfs_err + unit) \<times> 'c gfs) option" where
  "gfs_mkfs ops ctx total_blocks node_count0 =
     (let node_count1 = (if node_count0 < 2 then 2 else node_count0);
          node_count = (if node_count1 > GFS_MAX_NODES then GFS_MAX_NODES else node_count1);
          bm_bytes = bm_size total_blocks;
          bitmap_blocks0 = u64 (bm_bytes + GFS_BLOCK_SIZE - 1) div GFS_BLOCK_SIZE;
          bitmap_blocks = (if bitmap_blocks0 = 0 then 1 else bitmap_blocks0);
          bitmap_start = 2;
          nodemap_phys = bitmap_start + 2 * bitmap_blocks;
          root_tbl_phys = nodemap_phys + 1;
          used_prefix = root_tbl_phys + 1;
          root_blk = bsplice (GFS_ROOT_NODE * GFS_NODE_SIZE) (node_encode mkfs_root) (zeros GFS_BLOCK_SIZE);
          map_blk = wr32 (wr64 (zeros GFS_BLOCK_SIZE) MP_PHYS root_tbl_phys) MP_CRC (unat (crc32c root_blk));
          nm = \<lparr>bp_phys = nodemap_phys, bp_crc = unat (crc32c map_blk)\<rparr>
      in (if used_prefix > total_blocks then gfail GFS_EINVAL else
        gseq (dev_write root_tbl_phys root_blk)
        (gseq (dev_write nodemap_phys map_blk)
        (gbind (gfold (\<lambda>copy _. mkfs_bitmap_copy total_blocks used_prefix bitmap_start bitmap_blocks bm_bytes copy)
                 [0, 1] 0) (\<lambda>bmcrc.
        let free_blocks = total_blocks - used_prefix; free_nodes = node_count - 2 in
        gseq (gmod (\<lambda>tmp. tmp\<lparr>g_total_blocks := total_blocks, g_node_count := node_count,
            g_root_node := GFS_ROOT_NODE, g_bitmap_start := bitmap_start, g_bitmap_blocks := bitmap_blocks\<rparr>))
        (gfor [0, 1] (\<lambda>gen.
          gseq (gmod (sb_encode gen nm bmcrc free_blocks free_nodes))
          (gget (\<lambda>tmp. dev_write gen (g_sb tmp)))))))))
        (gfs_blank ops ctx))"

section \<open>Reading\<close>

definition map_load :: "('c, unit) gfs_m" where
  "map_load = gget (\<lambda>fs. gbind (read_meta (g_nodemap fs) to_map) (\<lambda>_. gret ()))"

record gfs_node =
  gn_type :: nat
  gn_mode :: nat
  gn_size :: nat
  gn_nlink :: nat
  gn_edge_count :: nat
  gn_parent :: nat

definition gfs_node_get :: "nat \<Rightarrow> ('c, gfs_node) gfs_m" where
  "gfs_node_get nid =
     gseq map_load
     (gbind (node_read nid) (\<lambda>n.
     gseq (gfail_if (dn_type n = GFS_NODE_FREE) GFS_ENOENT)
     (gret \<lparr>gn_type = dn_type n, gn_mode = dn_mode n, gn_size = dn_size n, gn_nlink = dn_nlink n,
        gn_edge_count = dn_edge_count n, gn_parent = dn_parent n\<rparr>)))"

text \<open>The byte of the character \<^verbatim>\<open>'/'\<close> is 47.\<close>

definition name_len_ok :: "byte list \<Rightarrow> ('c, nat) gfs_m" where
  "name_len_ok name =
     (let l = length name in
      if l = 0 then gfail GFS_EINVAL
      else if l > GFS_NAME_MAX then gfail GFS_ENAMETOOLONG
      else if 47 \<in> set name then gfail GFS_EINVAL
      else gret l)"

definition gfs_lookup :: "nat \<Rightarrow> byte list \<Rightarrow> ('c, nat) gfs_m" where
  "gfs_lookup dir name =
     gbind (name_len_ok name) (\<lambda>namelen.
     gseq map_load
     (gbind (node_read dir) (\<lambda>d.
     gseq (gfail_if (dn_type d \<noteq> GFS_NODE_NAMESPACE) GFS_ENOTDIR)
     (edge_lookup d name namelen))))"

lemma resolve_rest_shorter:
  assumes "dropWhile (\<lambda>c. c = x) p0 \<noteq> []"
  shows "length (drop (length (takeWhile (\<lambda>c. c \<noteq> x) (dropWhile (\<lambda>c. c = x) p0)))
    (dropWhile (\<lambda>c. c = x) p0)) < length p0"
proof -
  obtain c cs where d: "dropWhile (\<lambda>c. c = x) p0 = c # cs" using assms by (meson list.exhaust)
  then have "c \<noteq> x" using hd_dropWhile [OF assms] by simp
  then have "length (drop (length (takeWhile (\<lambda>c. c \<noteq> x) (c # cs))) (c # cs)) < length (c # cs)" by simp
  moreover have "length (c # cs) \<le> length p0" using length_dropWhile_le [of "\<lambda>c. c = x" p0] d by simp
  ultimately show ?thesis unfolding d by linarith
qed

function gfs_resolve_walk :: "byte list \<Rightarrow> nat \<Rightarrow> ('c, nat) gfs_m" where
  "gfs_resolve_walk p0 cur =
     (let p = dropWhile (\<lambda>c. c = 47) p0 in
      if p = [] then gret cur
      else let comp = takeWhile (\<lambda>c. c \<noteq> 47) p; n = length comp in
        if n > GFS_NAME_MAX then gfail GFS_ENAMETOOLONG
        else gbind (node_read cur) (\<lambda>d.
          gseq (gfail_if (dn_type d \<noteq> GFS_NODE_NAMESPACE) GFS_ENOTDIR)
          (gbind (edge_lookup d comp n) (\<lambda>cur'. gfs_resolve_walk (drop n p) cur'))))"
  by pat_completeness auto
termination
proof (relation "measure (\<lambda>(p, cur). length p)")
  show "wf (measure (\<lambda>(p :: byte list, cur :: nat). length p))" by (rule wf_measure)
next
  fix p0 :: "byte list" and cur cur' :: nat and p comp n
  assume "p = dropWhile (\<lambda>c. c = 47) p0" "p \<noteq> []" "comp = takeWhile (\<lambda>c. c \<noteq> 47) p" "n = length comp"
  then show "((drop n p, cur'), p0, cur) \<in> measure (\<lambda>(p, cur). length p)"
    using resolve_rest_shorter [of 47 p0] by (simp only: in_measure prod.case not_False_eq_True simp_thms)
qed

declare gfs_resolve_walk.simps [simp del]

definition gfs_resolve :: "byte list \<Rightarrow> ('c, nat) gfs_m" where
  "gfs_resolve path =
     (if path = [] \<or> hd path \<noteq> 47 then gfail GFS_EINVAL
      else gseq map_load (gget (\<lambda>fs. gfs_resolve_walk path (g_root_node fs))))"

record gfs_edge =
  ge_type :: nat
  ge_target :: nat
  ge_name :: "byte list"

partial_function (option) edge_get_loop ::
  "nat \<Rightarrow> nat \<Rightarrow> gfs_bp \<Rightarrow> 'c gfs \<Rightarrow> ((gfs_err + gfs_edge) \<times> 'c gfs) option" where
  "edge_get_loop index running cur fs =
     (if bp_phys cur = 0 then gfail GFS_ECORRUPT fs
      else gbind (read_meta cur to_a) (\<lambda>_ fs1.
        if index < u32 (running + rd32 (g_a fs1) EB_COUNT)
        then (if rd32 (eb_rec (g_a fs1) (index - running)) ER_NAMELEN > GFS_NAME_MAX
              then gfail GFS_ECORRUPT fs1
              else gret \<lparr>ge_type = rd32 (eb_rec (g_a fs1) (index - running)) ER_TYPE,
                     ge_target = rd64 (eb_rec (g_a fs1) (index - running)) ER_TARGET,
                     ge_name = bslice ER_NAME (rd32 (eb_rec (g_a fs1) (index - running)) ER_NAMELEN)
                                 (eb_rec (g_a fs1) (index - running))\<rparr> fs1)
        else edge_get_loop index (u32 (running + rd32 (g_a fs1) EB_COUNT)) (eb_next (g_a fs1)) fs1) fs)"

definition gfs_edge_get :: "nat \<Rightarrow> nat \<Rightarrow> ('c, gfs_edge) gfs_m" where
  "gfs_edge_get nid index =
     gseq map_load
     (gbind (node_read nid) (\<lambda>n.
     gseq (gfail_if (dn_type n = GFS_NODE_FREE) GFS_ENOENT)
     (gseq (gfail_if (index \<ge> dn_edge_count n) GFS_EINVAL)
     (edge_get_loop index 0 (dn_edge_head n)))))"

definition bmap :: "disk_node \<Rightarrow> nat \<Rightarrow> nat" where
  "bmap n lbn =
     (case List.find (\<lambda>k. let e = dn_ext n ! k in
          lbn \<ge> ex_logical e \<and> lbn < u64 (ex_logical e + ex_len e)) [0..<dn_n_extents n] of
        Some k \<Rightarrow> (let e = dn_ext n ! k in u64 (ex_phys e + (lbn - ex_logical e)))
      | None \<Rightarrow> 0)"

text \<open>The bytes delivered so far are \<open>dst\<close>; the loop counter \<^verbatim>\<open>done\<close> is their number.\<close>

function gfs_read_loop :: "disk_node \<Rightarrow> nat \<Rightarrow> nat \<Rightarrow> nat \<Rightarrow> byte list \<Rightarrow> ('c, byte list) gfs_m" where
  "gfs_read_loop n off len done dst =
     (if done < len then
        let pos = off + done; lbn = pos div GFS_BLOCK_SIZE; boff = pos mod GFS_BLOCK_SIZE;
            chunk0 = GFS_BLOCK_SIZE - boff;
            chunk = (if chunk0 > len - done then len - done else chunk0);
            phys = bmap n lbn
        in if phys = 0 then gfs_read_loop n off len (done + chunk) (dst @ zeros chunk)
           else gbind (bread phys to_b) (\<lambda>_.
             gget (\<lambda>fs. gfs_read_loop n off len (done + chunk) (dst @ bslice boff chunk (g_b fs))))
      else gret dst)"
  by pat_completeness auto
termination
  by (relation "measure (\<lambda>(n, off, len, done, dst). len - done)") auto

declare gfs_read_loop.simps [simp del]

definition gfs_read :: "nat \<Rightarrow> nat \<Rightarrow> nat \<Rightarrow> ('c, byte list) gfs_m" where
  "gfs_read nid off len =
     gseq map_load
     (gbind (node_read nid) (\<lambda>n.
     gseq (gfail_if (dn_type n = GFS_NODE_FREE) GFS_ENOENT)
     (gseq (gfail_if (dn_type n \<noteq> GFS_NODE_DATA) GFS_EISDIR)
     (if off \<ge> dn_size n then gret []
      else let avail = dn_size n - off in
        gfs_read_loop n off (if len > avail then avail else len) 0 []))))"

end
