(* ===== verification/Gfs_Ops.thy ===== *)
theory Gfs_Ops
  imports Gfs_Mount
begin

text \<open>
  The mutating operations of graphfs (\<^verbatim>\<open>node_find_free\<close> to \<^verbatim>\<open>gfs_truncate\<close> in
  \<^verbatim>\<open>kernel/fs/graphfs_core.c\<close>). Each is one transaction: checks, fresh blocks, commit.
\<close>

section \<open>Creating nodes\<close>

text \<open>The search over table blocks; the result 0 means that no slot was found.\<close>

fun node_find_free_from :: "nat \<Rightarrow> nat list \<Rightarrow> ('c, nat) gfs_m" where
  "node_find_free_from nc [] = gret 0"
| "node_find_free_from nc (bi # bis) =
     gget (\<lambda>fs. let bp = map_get fs bi in
     if bp_phys bp = 0 then gret (let base = bi * GFS_NODES_PER_BLOCK in if base = 0 then 1 else base)
     else gbind (read_meta bp to_tbl) (\<lambda>_.
       gget (\<lambda>fs. case List.find (\<lambda>k. let cand = bi * GFS_NODES_PER_BLOCK + k in
           cand \<noteq> 0 \<and> cand < nc \<and> rd32 (g_tbl fs) (k * GFS_NODE_SIZE + ND_TYPE) = GFS_NODE_FREE)
           [0..<GFS_NODES_PER_BLOCK] of
         Some k \<Rightarrow> gret (bi * GFS_NODES_PER_BLOCK + k)
       | None \<Rightarrow> node_find_free_from nc bis)))"

text \<open>\<^verbatim>\<open>bi * GFS_NODES_PER_BLOCK < fs->node_count\<close> bounds the block index.\<close>

definition node_find_free :: "('c, nat) gfs_m" where
  "node_find_free =
     gget (\<lambda>fs. let nc = g_node_count fs in
     gbind (node_find_free_from nc [0..<(nc + GFS_NODES_PER_BLOCK - 1) div GFS_NODES_PER_BLOCK]) (\<lambda>nid.
     if nid = 0 \<or> nid \<ge> nc then gfail GFS_ENOSPC else gret nid))"

definition gfs_node_create :: "nat \<Rightarrow> nat \<Rightarrow> ('c, nat) gfs_m" where
  "gfs_node_create typ mode =
     gseq (gfail_if (typ \<noteq> GFS_NODE_NAMESPACE \<and> typ \<noteq> GFS_NODE_DATA) GFS_EINVAL)
     (gseq txn_begin
     (gbind node_find_free (\<lambda>nid.
     gseq (node_write nid (zero_node\<lparr>dn_type := typ, dn_mode := mode\<rparr>))
     (gseq (txn_commit (- 1))
     (gret nid)))))"

section \<open>Links\<close>

text \<open>The lookup that must not find the name: \<^verbatim>\<open>GFS_EEXIST\<close> if it does, other errors pass.\<close>

definition edge_must_be_new :: "disk_node \<Rightarrow> byte list \<Rightarrow> nat \<Rightarrow> ('c, unit) gfs_m" where
  "edge_must_be_new d name namelen =
     gbind (gtry (edge_lookup d name namelen)) (\<lambda>rc.
     case rc of Inr _ \<Rightarrow> gfail GFS_EEXIST
     | Inl e \<Rightarrow> if e \<noteq> GFS_ENOENT then gfail e else gret ())"

definition gfs_link :: "nat \<Rightarrow> byte list \<Rightarrow> nat \<Rightarrow> nat \<Rightarrow> ('c, unit) gfs_m" where
  "gfs_link dir name target typ =
     gseq (gfail_if (typ \<noteq> GFS_EDGE_NAME \<and> typ \<noteq> GFS_EDGE_TAG \<and> typ \<noteq> GFS_EDGE_REF) GFS_EINVAL)
     (gbind (name_len_ok name) (\<lambda>namelen.
     gseq txn_begin
     (gbind (node_read dir) (\<lambda>d.
     gbind (node_read target) (\<lambda>t.
     gseq (gfail_if (dn_type t = GFS_NODE_FREE) GFS_ENOENT)
     (gseq (if typ = GFS_EDGE_NAME then
              gseq (gfail_if (dn_type d \<noteq> GFS_NODE_NAMESPACE) GFS_ENOTDIR)
              (gseq (edge_must_be_new d name namelen)
              (gfail_if (dn_type t = GFS_NODE_NAMESPACE \<and> dn_nlink t \<ge> 1) GFS_EMANYPARENTS))
            else gret ())
     (gbind (edge_add d typ target name namelen) (\<lambda>d.
     gseq (if typ = GFS_EDGE_NAME then
             let t = t\<lparr>dn_nlink := u32 (dn_nlink t + 1)\<rparr>;
                 t = (if dn_type t = GFS_NODE_NAMESPACE then t\<lparr>dn_parent := dir\<rparr> else t)
             in node_write target t
           else gret ())
     (gseq (node_write dir d)
     (txn_commit 0))))))))))"

text \<open>Releasing the data blocks of a node: the two nested loops of \<^verbatim>\<open>gfs_unlink\<close> and \<^verbatim>\<open>gfs_rename\<close>.\<close>

definition free_range :: "nat \<Rightarrow> nat list \<Rightarrow> 'c gfs \<Rightarrow> 'c gfs" where
  "free_range phys js fs = fold (\<lambda>j. free_block (u64 (phys + j))) js fs"

definition free_extents :: "disk_node \<Rightarrow> 'c gfs \<Rightarrow> 'c gfs" where
  "free_extents t fs = fold (\<lambda>k. free_range (ex_phys (dn_ext t ! k)) [0..<ex_len (dn_ext t ! k)])
     [0..<dn_n_extents t] fs"

text \<open>
  The common tail of \<^verbatim>\<open>gfs_unlink\<close> and the replacement in \<^verbatim>\<open>gfs_rename\<close>: drop one link of node
  \<open>t\<close>, and reclaim the node when it was the last. The result is \<^verbatim>\<open>nodes_delta\<close>.
\<close>

definition node_drop_link :: "nat \<Rightarrow> disk_node \<Rightarrow> ('c, int) gfs_m" where
  "node_drop_link target t0 =
     (let t = t0\<lparr>dn_nlink := u32 (dn_nlink t0 + 2 ^ 32 - 1)\<rparr> in
     if dn_nlink t = 0 then
       gseq (gmod (free_extents t))
       (gseq (edge_chain_free (dn_edge_head t))
       (gseq (node_write target (zero_node\<lparr>dn_type := GFS_NODE_FREE\<rparr>))
       (gret 1)))
     else gseq (node_write target t) (gret 0))"

definition gfs_unlink :: "nat \<Rightarrow> byte list \<Rightarrow> ('c, unit) gfs_m" where
  "gfs_unlink dir name =
     gbind (name_len_ok name) (\<lambda>namelen.
     gseq txn_begin
     (gbind (node_read dir) (\<lambda>d.
     gseq (gfail_if (dn_type d \<noteq> GFS_NODE_NAMESPACE) GFS_ENOTDIR)
     (gbind (edge_lookup d name namelen) (\<lambda>target.
     gbind (node_read target) (\<lambda>t.
     gseq (gfail_if (dn_type t = GFS_NODE_NAMESPACE \<and> dn_edge_count t > 0) GFS_ENOTEMPTY)
     (gbind (edge_remove_name d name namelen) (\<lambda>(d, removed).
     gseq (node_write dir d)
     (gbind (node_drop_link target t) (\<lambda>nodes_delta.
     txn_commit nodes_delta))))))))))"

definition gfs_create_at :: "nat \<Rightarrow> byte list \<Rightarrow> nat \<Rightarrow> nat \<Rightarrow> ('c, nat) gfs_m" where
  "gfs_create_at dir name typ mode =
     gseq (gfail_if (typ \<noteq> GFS_NODE_NAMESPACE \<and> typ \<noteq> GFS_NODE_DATA) GFS_EINVAL)
     (gbind (name_len_ok name) (\<lambda>namelen.
     gseq txn_begin
     (gbind (node_read dir) (\<lambda>d.
     gseq (gfail_if (dn_type d \<noteq> GFS_NODE_NAMESPACE) GFS_ENOTDIR)
     (gseq (edge_must_be_new d name namelen)
     (gbind node_find_free (\<lambda>nid.
     gseq (node_write nid (zero_node\<lparr>dn_type := typ, dn_mode := mode, dn_nlink := 1,
             dn_parent := (if typ = GFS_NODE_NAMESPACE then dir else 0)\<rparr>))
     (gbind (edge_add d GFS_EDGE_NAME nid name namelen) (\<lambda>d.
     gseq (node_write dir d)
     (gseq (txn_commit (- 1))
     (gret nid)))))))))))"

section \<open>Writing data\<close>

text \<open>
  The physical map of a file: 512 entries, 0 for a hole. The C code lays the array over
  \<^verbatim>\<open>fs->a\<close>, a buffer that nothing called while the array is live touches.
\<close>

definition pmap_build :: "disk_node \<Rightarrow> nat list" where
  "pmap_build n =
     fold (\<lambda>k pmap. fold (\<lambda>j pmap. let lbn = u64 (ex_logical (dn_ext n ! k) + j) in
         if lbn < GFS_MAX_FILE_BLOCKS then pmap[lbn := u64 (ex_phys (dn_ext n ! k) + j)] else pmap)
       [0..<ex_len (dn_ext n ! k)] pmap)
     [0..<dn_n_extents n] (replicate GFS_MAX_FILE_BLOCKS 0)"

text \<open>The body of the write loop for logical block \<open>lbn\<close>; the threaded values are \<open>pmap\<close> and \<open>hint\<close>.\<close>

definition gfs_write_block :: "nat \<Rightarrow> byte list \<Rightarrow> nat \<Rightarrow> nat list \<times> nat \<Rightarrow> ('c, nat list \<times> nat) gfs_m" where
  "gfs_write_block off src lbn = (\<lambda>(pmap, hint).
     let oldp = pmap ! lbn;
         bstart = lbn * GFS_BLOCK_SIZE;
         wstart = (if off > bstart then off else bstart);
         wend = (if off + length src < bstart + GFS_BLOCK_SIZE then off + length src
                 else bstart + GFS_BLOCK_SIZE);
         boff = wstart - bstart;
         wlen = wend - wstart
     in gseq (if wlen < GFS_BLOCK_SIZE
              then (if oldp \<noteq> 0 then gbind (bread oldp to_b) (\<lambda>_. gret ())
                    else gmod (to_b (zeros GFS_BLOCK_SIZE)))
              else gret ())
     (gseq (gmod (\<lambda>fs. fs\<lparr>g_b := bsplice boff (bslice (wstart - off) wlen src) (g_b fs)\<rparr>))
     (gbind (alloc_near hint) (\<lambda>np.
     gseq (gget (\<lambda>fs. bwrite np (g_b fs)))
     (gseq (gmod (free_block oldp))
     (gret (pmap[lbn := np], np + 1)))))))"

text \<open>One step of the loop that turns the physical map back into extents.\<close>

definition coalesce_step :: "nat list \<Rightarrow> nat \<Rightarrow> disk_node \<Rightarrow> gfs_err + disk_node" where
  "coalesce_step pmap lbn n =
     (let phys = pmap ! lbn; ne = dn_n_extents n; last = dn_ext n ! (ne - 1) in
      if phys = 0 then Inr n
      else if ne > 0 \<and> ex_logical last + ex_len last = lbn \<and> ex_phys last + ex_len last = phys
      then Inr (n\<lparr>dn_ext := (dn_ext n)[ne - 1 := last\<lparr>ex_len := ex_len last + 1\<rparr>]\<rparr>)
      else if ne = GFS_INLINE_EXTENTS then Inl GFS_EFRAG
      else Inr (n\<lparr>dn_ext := (dn_ext n)[ne := \<lparr>ex_logical = lbn, ex_phys = phys, ex_len = 1\<rparr>],
                  dn_n_extents := ne + 1\<rparr>))"

fun coalesce :: "nat list \<Rightarrow> nat list \<Rightarrow> disk_node \<Rightarrow> gfs_err + disk_node" where
  "coalesce pmap [] n = Inr n"
| "coalesce pmap (lbn # lbns) n =
     (case coalesce_step pmap lbn n of Inl e \<Rightarrow> Inl e | Inr n' \<Rightarrow> coalesce pmap lbns n')"

definition glift :: "gfs_err + 'a \<Rightarrow> ('c, 'a) gfs_m" where
  "glift r fs = Some (r, fs)"

definition gfs_write :: "nat \<Rightarrow> nat \<Rightarrow> byte list \<Rightarrow> ('c, nat) gfs_m" where
  "gfs_write nid off src =
     (let len = length src in
     if len = 0 then gret 0
     else gseq (gfail_if (off > GFS_MAX_FILE_SIZE \<or> len > GFS_MAX_FILE_SIZE \<or> off + len > GFS_MAX_FILE_SIZE) GFS_EFBIG)
     (gseq txn_begin
     (gbind (node_read nid) (\<lambda>n.
     gseq (gfail_if (dn_type n = GFS_NODE_FREE) GFS_ENOENT)
     (gseq (gfail_if (dn_type n \<noteq> GFS_NODE_DATA) GFS_EISDIR)
     (let new_size = (if dn_size n > off + len then dn_size n else off + len);
          new_blocks = u64 (new_size + GFS_BLOCK_SIZE - 1) div GFS_BLOCK_SIZE;
          lbn_first = off div GFS_BLOCK_SIZE;
          lbn_last = (off + len - 1) div GFS_BLOCK_SIZE;
          needed = lbn_last - lbn_first + 1
      in gget (\<lambda>fs. gseq (gfail_if (count_free fs < needed + 2) GFS_ENOSPC)
      (gbind (gfold (gfs_write_block off src) [lbn_first..<lbn_last + 1] (pmap_build n, 0)) (\<lambda>(pmap, hint).
      gbind (glift (coalesce pmap [0..<new_blocks] (n\<lparr>dn_n_extents := 0\<rparr>))) (\<lambda>n.
      gseq (node_write nid (n\<lparr>dn_size := new_size\<rparr>))
      (gseq (txn_commit 0)
      (gret len))))))))))))"

section \<open>Rename\<close>

text \<open>The walk from the new directory to the root that rejects a move into the own subtree.\<close>

function rename_walk :: "nat \<Rightarrow> nat \<Rightarrow> nat \<Rightarrow> nat \<Rightarrow> nat \<Rightarrow> ('c, unit) gfs_m" where
  "rename_walk nc root src cur guard =
     (if cur = root then gret ()
      else if cur = src then gfail GFS_EINVAL
      else if guard > nc then gfail GFS_ECORRUPT
      else gbind (node_read cur) (\<lambda>walk. rename_walk nc root src (dn_parent walk) (guard + 1)))"
  by pat_completeness auto
termination
  by (relation "measure (\<lambda>(nc, root, src, cur, guard). nc + 1 - guard)") auto

declare rename_walk.simps [simp del]

text \<open>The type checks on a node that the rename would replace.\<close>

definition rename_dst_check :: "disk_node \<Rightarrow> disk_node \<Rightarrow> ('c, unit) gfs_m" where
  "rename_dst_check sn dn =
     (if dn_type sn = GFS_NODE_NAMESPACE then
        gseq (gfail_if (dn_type dn \<noteq> GFS_NODE_NAMESPACE) GFS_ENOTDIR)
        (gfail_if (dn_edge_count dn > 0) GFS_ENOTEMPTY)
      else gfail_if (dn_type dn = GFS_NODE_NAMESPACE) GFS_EISDIR)"

text \<open>
  The mutating half, after all checks. \<open>od\<close> and \<open>ndn\<close> are the directory structures; with
  \<open>same_dir\<close> the pointer \<^verbatim>\<open>nd\<close> of the code is \<open>od\<close>. \<open>dst\<close> is the replaced node, if any.
\<close>

definition rename_apply :: "nat \<Rightarrow> byte list \<Rightarrow> nat \<Rightarrow> byte list \<Rightarrow> disk_node \<Rightarrow> disk_node \<Rightarrow> nat \<Rightarrow> disk_node
    \<Rightarrow> (nat \<times> disk_node) option \<Rightarrow> ('c, unit) gfs_m" where
  "rename_apply olddir oldname newdir newname od ndn src sn dst =
     (let same_dir = (olddir = newdir); olen = length oldname; nlen = length newname in
     gbind (edge_remove_name od oldname olen) (\<lambda>(od, removed).
     gbind (case dst of None \<Rightarrow> gret (if same_dir then od else ndn, 0)
            | Some (d, dn) \<Rightarrow>
              gbind (edge_remove_name (if same_dir then od else ndn) newname nlen) (\<lambda>(nd, removed).
              gbind (node_drop_link d dn) (\<lambda>nodes_delta.
              gret (nd, nodes_delta)))) (\<lambda>(nd, nodes_delta).
     gbind (edge_add nd GFS_EDGE_NAME src newname nlen) (\<lambda>nd.
     gseq (if dn_type sn = GFS_NODE_NAMESPACE \<and> dn_parent sn \<noteq> newdir
           then node_write src (sn\<lparr>dn_parent := newdir\<rparr>) else gret ())
     (gseq (node_write olddir (if same_dir then nd else od))
     (gseq (if same_dir then gret () else node_write newdir nd)
     (txn_commit nodes_delta)))))))"

definition gfs_rename :: "nat \<Rightarrow> byte list \<Rightarrow> nat \<Rightarrow> byte list \<Rightarrow> ('c, unit) gfs_m" where
  "gfs_rename olddir oldname newdir newname =
     gbind (name_len_ok oldname) (\<lambda>olen.
     gbind (name_len_ok newname) (\<lambda>nlen.
     gseq txn_begin
     (let same_dir = (olddir = newdir) in
     gbind (node_read olddir) (\<lambda>od.
     gseq (gfail_if (dn_type od \<noteq> GFS_NODE_NAMESPACE) GFS_ENOTDIR)
     (gbind (if same_dir then gret od
             else gbind (node_read newdir) (\<lambda>ndn.
               gseq (gfail_if (dn_type ndn \<noteq> GFS_NODE_NAMESPACE) GFS_ENOTDIR) (gret ndn))) (\<lambda>nd.
     gbind (edge_lookup od oldname olen) (\<lambda>src.
     gbind (node_read src) (\<lambda>sn.
     gseq (if dn_type sn = GFS_NODE_NAMESPACE \<and> \<not> same_dir
           then gget (\<lambda>fs. rename_walk (g_node_count fs) (g_root_node fs) src newdir 0) else gret ())
     (gbind (gtry (edge_lookup nd newname nlen)) (\<lambda>rc.
     case rc of
       Inl e \<Rightarrow> if e \<noteq> GFS_ENOENT then gfail e
                else rename_apply olddir oldname newdir newname od nd src sn None
     | Inr dst \<Rightarrow>
         if dst = src then gret ()
         else gbind (node_read dst) (\<lambda>dn.
           gseq (rename_dst_check sn dn)
           (rename_apply olddir oldname newdir newname od nd src sn (Some (dst, dn))))))))))))))"

section \<open>Truncate\<close>

text \<open>One round of the loop that drops or trims extents past the new end.\<close>

definition trim_extent :: "nat \<Rightarrow> gfs_extent \<Rightarrow> gfs_extent list \<times> 'c gfs \<Rightarrow> gfs_extent list \<times> 'c gfs" where
  "trim_extent keep e = (\<lambda>(out, fs).
     if ex_logical e \<ge> keep then (out, free_range (ex_phys e) [0..<ex_len e] fs)
     else if u64 (ex_logical e + ex_len e) > keep
     then let klen = u32 (keep - ex_logical e) in
       (out @ [e\<lparr>ex_len := klen\<rparr>], free_range (ex_phys e) [klen..<ex_len e] fs)
     else (out @ [e], fs))"

text \<open>The trimmed extents replace the first entries of the array; later entries keep their content.\<close>

definition trim_extents :: "nat \<Rightarrow> disk_node \<Rightarrow> 'c gfs \<Rightarrow> disk_node \<times> 'c gfs" where
  "trim_extents keep n fs =
     (let (out, fs') = fold (\<lambda>k. trim_extent keep (dn_ext n ! k)) [0..<dn_n_extents n] ([], fs)
      in (n\<lparr>dn_ext := bsplice 0 out (dn_ext n), dn_n_extents := length out\<rparr>, fs'))"

text \<open>The rewrite of a kept partial last block.\<close>

definition truncate_tail :: "nat \<Rightarrow> disk_node \<Rightarrow> ('c, disk_node) gfs_m" where
  "truncate_tail sz n =
     (let tail = sz mod GFS_BLOCK_SIZE; lbn = sz div GFS_BLOCK_SIZE; oldp = bmap n lbn in
     if tail = 0 \<or> oldp = 0 then gret n
     else gbind (bread oldp to_b) (\<lambda>_.
       gseq (gmod (\<lambda>fs. fs\<lparr>g_b := bsplice tail (zeros (GFS_BLOCK_SIZE - tail)) (g_b fs)\<rparr>))
       (gbind alloc_block (\<lambda>np.
       gseq (gget (\<lambda>fs. bwrite np (g_b fs)))
       (gseq (gmod (free_block oldp))
       (let ne = dn_n_extents n; last = dn_ext n ! (ne - 1) in
        if ex_len last = 1 then gret (n\<lparr>dn_ext := (dn_ext n)[ne - 1 := last\<lparr>ex_phys := np\<rparr>]\<rparr>)
        else if ne = GFS_INLINE_EXTENTS then gfail GFS_EFRAG
        else gret (n\<lparr>dn_ext := (dn_ext n)[ne - 1 := last\<lparr>ex_len := ex_len last - 1\<rparr>,
               ne := \<lparr>ex_logical = lbn, ex_phys = np, ex_len = 1\<rparr>], dn_n_extents := ne + 1\<rparr>)))))))"

definition gfs_truncate :: "nat \<Rightarrow> nat \<Rightarrow> ('c, unit) gfs_m" where
  "gfs_truncate nid sz =
     gseq (gfail_if (sz > GFS_MAX_FILE_SIZE) GFS_EFBIG)
     (gseq txn_begin
     (gbind (node_read nid) (\<lambda>n.
     gseq (gfail_if (dn_type n = GFS_NODE_FREE) GFS_ENOENT)
     (gseq (gfail_if (dn_type n \<noteq> GFS_NODE_DATA) GFS_EISDIR)
     (if sz = dn_size n then gret ()
      else gbind (if sz < dn_size n then
                    gget (\<lambda>fs. let keep = (sz + GFS_BLOCK_SIZE - 1) div GFS_BLOCK_SIZE;
                                   (n', fs') = trim_extents keep n fs in
                    gseq (gmod (\<lambda>_. fs')) (truncate_tail sz n'))
                  else gret n) (\<lambda>n.
      gseq (node_write nid (n\<lparr>dn_size := sz\<rparr>))
      (txn_commit 0)))))))"

end
