(* ===== verification/Gfs_Cow.thy ===== *)
theory Gfs_Cow
  imports Gfs_Ops
begin

text \<open>
  Copy-on-write discipline of graphfs. The locale states what a block device promises; inside
  it, every operation is shown to write only blocks that are free in the committed bitmap until
  it commits, and the commit to write only the inactive bitmap copy and the inactive superblock
  slot.
\<close>

section \<open>Block devices\<close>

type_synonym write_log = "(nat \<times> byte list) list"

definition apply_writes :: "write_log \<Rightarrow> (nat \<Rightarrow> byte list) \<Rightarrow> nat \<Rightarrow> byte list" where
  "apply_writes ws d = fold (\<lambda>(lba, blk) d. d(lba := blk)) ws d"

lemma apply_writes_Nil [simp]: "apply_writes [] d = d"
  by (simp add: apply_writes_def)

lemma apply_writes_append [simp]: "apply_writes (ws @ vs) d = apply_writes vs (apply_writes ws d)"
  by (simp add: apply_writes_def)

lemma apply_writes_Cons [simp]: "apply_writes ((lba, blk) # ws) d = apply_writes ws (d(lba := blk))"
  by (simp add: apply_writes_def)

lemma apply_writes_other: "lba \<notin> fst ` set ws \<Longrightarrow> apply_writes ws d lba = d lba"
  by (induction ws arbitrary: d) auto

text \<open>
  A device state has a content and a log of the block writes that reached the medium. Reads do
  not change either; a successful write stores the block; a failed write may leave any block
  behind, or nothing.
\<close>

locale block_dev =
  fixes ops :: "'c gfs_ops" and disk :: "'c \<Rightarrow> nat \<Rightarrow> byte list" and log :: "'c \<Rightarrow> write_log"
    and dinv :: "'c \<Rightarrow> bool"
  assumes dev_read: "dinv c \<Longrightarrow> op_read ops c lba = (r, c') \<Longrightarrow>
      dinv c' \<and> disk c' = disk c \<and> log c' = log c \<and> (\<forall>blk. r = Some blk \<longrightarrow> blk = disk c lba)"
    and dev_write: "dinv c \<Longrightarrow> op_write ops c lba blk = (True, c') \<Longrightarrow>
      dinv c' \<and> disk c' = (disk c)(lba := blk) \<and> log c' = log c @ [(lba, blk)]"
    and dev_write_fail: "dinv c \<Longrightarrow> op_write ops c lba blk = (False, c') \<Longrightarrow>
      dinv c' \<and> (disk c' = disk c \<and> log c' = log c
        \<or> (\<exists>junk. disk c' = (disk c)(lba := junk) \<and> log c' = log c @ [(lba, junk)]))"

section \<open>The fields a transaction leaves alone\<close>

text \<open>The live state of a mount: what only a commit changes.\<close>

record live_state =
  lv_writable :: bool
  lv_generation :: nat
  lv_total_blocks :: nat
  lv_node_count :: nat
  lv_root_node :: nat
  lv_bitmap_start :: nat
  lv_bitmap_blocks :: nat
  lv_nodemap :: gfs_bp
  lv_free_blocks :: nat
  lv_free_nodes :: nat
  lv_committed_bm :: "byte list"
  lv_bm_bytes :: nat

definition live :: "'c gfs \<Rightarrow> live_state" where
  "live fs = \<lparr>lv_writable = g_writable fs, lv_generation = g_generation fs, lv_total_blocks = g_total_blocks fs,
     lv_node_count = g_node_count fs, lv_root_node = g_root_node fs, lv_bitmap_start = g_bitmap_start fs,
     lv_bitmap_blocks = g_bitmap_blocks fs, lv_nodemap = g_nodemap fs, lv_free_blocks = g_free_blocks fs,
     lv_free_nodes = g_free_nodes fs, lv_committed_bm = g_committed_bm fs, lv_bm_bytes = g_bm_bytes fs\<rparr>"

lemma live_eq_iff: "live fs = live fs' \<longleftrightarrow>
   g_writable fs = g_writable fs' \<and> g_generation fs = g_generation fs' \<and> g_total_blocks fs = g_total_blocks fs'
   \<and> g_node_count fs = g_node_count fs' \<and> g_root_node fs = g_root_node fs'
   \<and> g_bitmap_start fs = g_bitmap_start fs' \<and> g_bitmap_blocks fs = g_bitmap_blocks fs'
   \<and> g_nodemap fs = g_nodemap fs' \<and> g_free_blocks fs = g_free_blocks fs' \<and> g_free_nodes fs = g_free_nodes fs'
   \<and> g_committed_bm fs = g_committed_bm fs' \<and> g_bm_bytes fs = g_bm_bytes fs'"
  by (auto simp: live_def)

lemma live_buffers [simp]:
  "live (fs\<lparr>g_ctx := c\<rparr>) = live fs" "live (fs\<lparr>g_working_bm := w\<rparr>) = live fs"
  "live (fs\<lparr>g_sb := blk\<rparr>) = live fs" "live (fs\<lparr>g_map := blk\<rparr>) = live fs"
  "live (fs\<lparr>g_tbl := blk\<rparr>) = live fs" "live (fs\<lparr>g_a := blk\<rparr>) = live fs" "live (fs\<lparr>g_b := blk\<rparr>) = live fs"
  by (simp_all add: live_def)

lemma live_data_first: "live fs = live fs' \<Longrightarrow> data_first fs = data_first fs'"
  by (simp add: live_eq_iff data_first_def)

text \<open>Blocks a transaction may write before it commits.\<close>

definition cow_target :: "'c gfs \<Rightarrow> nat \<Rightarrow> bool" where
  "cow_target fs lba \<longleftrightarrow> data_first fs \<le> lba \<and> lba < g_total_blocks fs \<and> \<not> bm_test (g_committed_bm fs) lba"

text \<open>A pure update that touches only the buffers and the working bitmap.\<close>

definition scratch_update :: "('c gfs \<Rightarrow> 'c gfs) \<Rightarrow> bool" where
  "scratch_update u \<longleftrightarrow> (\<forall>fs. live (u fs) = live fs \<and> g_ops (u fs) = g_ops fs \<and> g_ctx (u fs) = g_ctx fs
     \<and> length (g_working_bm (u fs)) = length (g_working_bm fs))"

lemma scratch_updateD:
  assumes "scratch_update u"
  shows "live (u fs) = live fs" "g_ops (u fs) = g_ops fs" "g_ctx (u fs) = g_ctx fs"
    "length (g_working_bm (u fs)) = length (g_working_bm fs)"
  using assms by (simp_all add: scratch_update_def)

lemma scratch_update_id: "scratch_update (\<lambda>fs. fs)"
  by (simp add: scratch_update_def)

lemma scratch_update_comp: "scratch_update u \<Longrightarrow> scratch_update v \<Longrightarrow> scratch_update (\<lambda>fs. v (u fs))"
  by (simp add: scratch_update_def)

lemma scratch_update_buffers:
  "scratch_update (\<lambda>fs. fs\<lparr>g_sb := sb fs\<rparr>)" "scratch_update (\<lambda>fs. fs\<lparr>g_map := m fs\<rparr>)"
  "scratch_update (\<lambda>fs. fs\<lparr>g_tbl := t fs\<rparr>)" "scratch_update (\<lambda>fs. fs\<lparr>g_a := a fs\<rparr>)"
  "scratch_update (\<lambda>fs. fs\<lparr>g_b := b fs\<rparr>)"
  by (simp_all add: scratch_update_def)

lemma scratch_update_free_block: "scratch_update (free_block blk)"
  by (simp add: scratch_update_def free_block_def)

lemma scratch_update_map_set: "scratch_update (map_set bi bp)"
  by (simp add: scratch_update_def map_set_def Let_def)

lemma scratch_update_sb_encode: "scratch_update (sb_encode g nm c fb fn)"
  by (simp add: scratch_update_def sb_encode_def)

lemma scratch_update_fold: "(\<And>x. x \<in> set xs \<Longrightarrow> scratch_update (f x)) \<Longrightarrow> scratch_update (fold f xs)"
  by (induction xs) (auto simp: scratch_update_def)

lemma scratch_update_free_range: "scratch_update (free_range phys js)"
  unfolding free_range_def by (rule scratch_update_fold) (rule scratch_update_free_block)

lemma free_range_scratch [simp]:
  "live (free_range phys js fs) = live fs" "g_ops (free_range phys js fs) = g_ops fs"
  "g_ctx (free_range phys js fs) = g_ctx fs"
  "length (g_working_bm (free_range phys js fs)) = length (g_working_bm fs)"
  by (rule scratch_updateD [OF scratch_update_free_range])+

lemma scratch_update_free_extents: "scratch_update (free_extents t)"
  unfolding free_extents_def by (rule scratch_update_fold) (rule scratch_update_free_range)

lemma scratch_update_trim_fold:
  "scratch_update (\<lambda>fs. snd (fold (\<lambda>k. trim_extent keep (dn_ext n ! k)) ks (out, fs)))"
proof (induction ks arbitrary: out)
  case Nil
  then show ?case by (simp add: scratch_update_id)
next
  case (Cons k ks)
  show ?case
    using scratch_updateD [OF Cons.IH]
    by (simp add: scratch_update_def trim_extent_def Let_def)
qed

lemma scratch_update_trim: "scratch_update (\<lambda>fs. snd (trim_extents keep n fs))"
  using scratch_update_trim_fold [of keep n "[0..<dn_n_extents n]" "[]"]
  by (simp add: trim_extents_def case_prod_beta Let_def)

section \<open>Everything before a commit keeps the live state\<close>

named_theorems keeps_intros \<open>operations that write only copy-on-write targets\<close>

lemma gbind_Some_iff:
  "gbind m f fs = Some (r, fs') \<longleftrightarrow>
    (\<exists>e. m fs = Some (Inl e, fs') \<and> r = Inl e) \<or> (\<exists>x fs1. m fs = Some (Inr x, fs1) \<and> f x fs1 = Some (r, fs'))"
  by (auto simp: gbind_def split: option.splits sum.splits bind_splits prod.splits)

lemma gseq_Some_iff:
  "gseq m k fs = Some (r, fs') \<longleftrightarrow>
    (\<exists>e. m fs = Some (Inl e, fs') \<and> r = Inl e) \<or> (\<exists>fs1. m fs = Some (Inr (), fs1) \<and> k fs1 = Some (r, fs'))"
  by (auto simp: gseq_def gbind_Some_iff)

lemma gseq_mod: "gseq (gmod u) k fs = k (u fs)"
  by (simp add: gseq_def gbind_def gmod_def)

lemma gseq_get: "gseq (gget f) k fs = gseq (f fs) k fs"
  by (simp add: gseq_def gbind_def gget_def)

lemma gbind_get: "gbind (gget f) k fs = gbind (f fs) k fs"
  by (simp add: gbind_def gget_def)

lemma alloc_block_Some:
  assumes "alloc_block fs = Some (r, fs')"
  shows "(r = Inl GFS_ENOSPC \<and> fs' = fs) \<or>
    (\<exists>i. r = Inr i \<and> data_first fs \<le> i \<and> i < g_total_blocks fs \<and> both_free fs i
      \<and> fs' = fs\<lparr>g_working_bm := bm_set (g_working_bm fs) i\<rparr>)"
proof (cases "List.find (both_free fs) [data_first fs..<g_total_blocks fs]")
  case None
  then show ?thesis using assms by (simp add: alloc_block_def)
next
  case (Some i)
  then have "i \<in> set [data_first fs..<g_total_blocks fs]" "both_free fs i"
    by (auto simp: find_Some_iff)
  then show ?thesis using assms Some by (auto simp: alloc_block_def)
qed

lemma alloc_near_Some:
  assumes "alloc_near hint fs = Some (r, fs')"
  shows "(r = Inl GFS_ENOSPC \<and> fs' = fs) \<or>
    (\<exists>i. r = Inr i \<and> data_first fs \<le> i \<and> i < g_total_blocks fs \<and> both_free fs i
      \<and> fs' = fs\<lparr>g_working_bm := bm_set (g_working_bm fs) i\<rparr>)"
  using assms alloc_block_Some [of fs r fs'] by (auto simp: alloc_near_def split: if_splits)

context block_dev
begin

definition frame :: "(nat \<Rightarrow> bool) \<Rightarrow> 'c gfs \<Rightarrow> 'c gfs \<Rightarrow> bool" where
  "frame T fs0 fs \<longleftrightarrow> live fs = live fs0 \<and> g_ops fs = ops \<and> dinv (g_ctx fs)
     \<and> length (g_working_bm fs) = length (g_working_bm fs0)
     \<and> (\<exists>ws. log (g_ctx fs) = log (g_ctx fs0) @ ws \<and> disk (g_ctx fs) = apply_writes ws (disk (g_ctx fs0))
          \<and> (\<forall>w \<in> set ws. T (fst w)))"

definition keeps :: "(nat \<Rightarrow> bool) \<Rightarrow> 'c gfs \<Rightarrow> ('c, 'a) gfs_m \<Rightarrow> bool" where
  "keeps T fs0 m \<longleftrightarrow> (\<forall>fs r fs'. frame T fs0 fs \<longrightarrow> m fs = Some (r, fs') \<longrightarrow> frame T fs0 fs')"

lemma keepsD: "keeps T fs0 m \<Longrightarrow> frame T fs0 fs \<Longrightarrow> m fs = Some (r, fs') \<Longrightarrow> frame T fs0 fs'"
  by (auto simp: keeps_def)

lemma frame_refl: "g_ops fs = ops \<Longrightarrow> dinv (g_ctx fs) \<Longrightarrow> frame T fs fs"
  by (auto simp: frame_def intro: exI [of _ "[]"])

lemma frame_scratch: "scratch_update u \<Longrightarrow> frame T fs0 fs \<Longrightarrow> frame T fs0 (u fs)"
  by (simp add: frame_def scratch_updateD)

lemma frame_read:
  assumes "frame T fs0 fs" "op_read (g_ops fs) (g_ctx fs) lba = (r, c)"
  shows "frame T fs0 (fs\<lparr>g_ctx := c\<rparr>)"
  using assms dev_read [of "g_ctx fs" lba r c] by (auto simp: frame_def)

lemma frame_write:
  assumes f: "frame T fs0 fs" and t: "T lba"
    and w: "op_write (g_ops fs) (g_ctx fs) lba blk = (ok, c)"
  shows "frame T fs0 (fs\<lparr>g_ctx := c\<rparr>)"
proof -
  obtain ws where ws: "log (g_ctx fs) = log (g_ctx fs0) @ ws"
    "disk (g_ctx fs) = apply_writes ws (disk (g_ctx fs0))" "\<forall>w \<in> set ws. T (fst w)"
    using f by (auto simp: frame_def)
  have d: "dinv (g_ctx fs)" "g_ops fs = ops" using f by (auto simp: frame_def)
  have "\<exists>vs. log c = log (g_ctx fs) @ vs \<and> disk c = apply_writes vs (disk (g_ctx fs))
      \<and> (\<forall>v \<in> set vs. fst v = lba) \<and> dinv c"
  proof (cases ok)
    case True
    then show ?thesis using dev_write [OF d(1), of lba blk c] w d(2)
      by (intro exI [of _ "[(lba, blk)]"]) simp
  next
    case False
    then consider "dinv c" "disk c = disk (g_ctx fs)" "log c = log (g_ctx fs)"
      | junk where "dinv c" "disk c = (disk (g_ctx fs))(lba := junk)" "log c = log (g_ctx fs) @ [(lba, junk)]"
      using dev_write_fail [OF d(1), of lba blk c] w d(2) by auto
    then show ?thesis
    proof cases
      case 1
      then show ?thesis by (intro exI [of _ "[]"]) simp
    next
      case 2
      then show ?thesis by (intro exI [of _ "[(lba, junk)]"]) simp
    qed
  qed
  then obtain vs where "log c = log (g_ctx fs) @ vs" "disk c = apply_writes vs (disk (g_ctx fs))"
    "\<forall>v \<in> set vs. fst v = lba" "dinv c" by blast
  then show ?thesis using f ws t by (auto simp: frame_def intro!: exI [of _ "ws @ vs"])
qed

lemma keeps_ret [keeps_intros]: "keeps T fs0 (gret x)"
  by (simp add: keeps_def gret_def)

lemma keeps_fail [keeps_intros]: "keeps T fs0 (gfail e)"
  by (simp add: keeps_def gfail_def)

lemma keeps_lift [keeps_intros]: "keeps T fs0 (glift r)"
  by (simp add: keeps_def glift_def)

lemma keeps_fail_if [keeps_intros]: "keeps T fs0 (gfail_if c e)"
  by (simp add: gfail_if_def keeps_ret keeps_fail)

lemma keeps_bind [keeps_intros]: "keeps T fs0 m \<Longrightarrow> (\<And>x. keeps T fs0 (f x)) \<Longrightarrow> keeps T fs0 (gbind m f)"
  unfolding keeps_def gbind_Some_iff by blast

lemma keeps_seq [keeps_intros]: "keeps T fs0 m \<Longrightarrow> keeps T fs0 k \<Longrightarrow> keeps T fs0 (gseq m k)"
  unfolding gseq_def by (rule keeps_bind)

lemma keeps_get [keeps_intros]: "(\<And>fs. keeps T fs0 (f fs)) \<Longrightarrow> keeps T fs0 (gget f)"
  unfolding keeps_def gget_def by blast

lemma keeps_mod: "scratch_update u \<Longrightarrow> keeps T fs0 (gmod u)"
  by (auto simp: keeps_def gmod_def frame_scratch)

lemma keeps_try [keeps_intros]: "keeps T fs0 m \<Longrightarrow> keeps T fs0 (gtry m)"
  by (auto simp: keeps_def gtry_def)

lemma keeps_if [keeps_intros]: "keeps T fs0 a \<Longrightarrow> keeps T fs0 b \<Longrightarrow> keeps T fs0 (if c then a else b)"
  by simp

lemma keeps_for [keeps_intros]: "(\<And>x. keeps T fs0 (f x)) \<Longrightarrow> keeps T fs0 (gfor xs f)"
  by (induction xs) (auto intro: keeps_intros)

lemma keeps_gfold [keeps_intros]: "(\<And>x s. keeps T fs0 (f x s)) \<Longrightarrow> keeps T fs0 (gfold f xs s)"
  by (induction xs arbitrary: s) (auto intro: keeps_intros)

lemma keeps_bread [keeps_intros]:
  assumes "\<And>blk. scratch_update (put blk)"
  shows "keeps T fs0 (bread lba put)"
  unfolding keeps_def
proof (intro allI impI)
  fix fs r fs' assume f: "frame T fs0 fs" and b: "bread lba put fs = Some (r, fs')"
  obtain x c where rd: "op_read (g_ops fs) (g_ctx fs) lba = (x, c)" by fastforce
  note fr = frame_read [OF f rd]
  show "frame T fs0 fs'"
    using b f fr frame_scratch [OF assms fr] rd
    by (auto simp: bread_def split: if_splits option.splits)
qed

lemma keeps_bwrite: "T lba \<Longrightarrow> keeps T fs0 (bwrite lba blk)"
  unfolding keeps_def bwrite_def by (auto split: if_splits prod.splits intro: frame_write)

lemma keeps_write_meta: "T lba \<Longrightarrow> keeps T fs0 (write_meta lba blk)"
  unfolding write_meta_def by (intro keeps_intros keeps_bwrite)

lemma frame_alloc:
  assumes "frame T fs0 fs" "data_first fs \<le> i" "i < g_total_blocks fs" "both_free fs i"
  shows "cow_target fs0 i \<and> frame T fs0 (fs\<lparr>g_working_bm := bm_set (g_working_bm fs) i\<rparr>)"
  using assms live_data_first [of fs fs0]
  by (auto simp: frame_def cow_target_def both_free_def live_eq_iff)

text \<open>After an allocation the continuation may use that the block is a copy-on-write target.\<close>

lemma keeps_alloc_gen:
  assumes alloc: "\<And>fs r fs'. m fs = Some (r, fs') \<Longrightarrow> (r = Inl GFS_ENOSPC \<and> fs' = fs) \<or>
      (\<exists>i. r = Inr i \<and> data_first fs \<le> i \<and> i < g_total_blocks fs \<and> both_free fs i
        \<and> fs' = fs\<lparr>g_working_bm := bm_set (g_working_bm fs) i\<rparr>)"
    and k: "\<And>p. cow_target fs0 p \<Longrightarrow> keeps T fs0 (k p)"
  shows "keeps T fs0 (gbind m k)"
  unfolding keeps_def
proof (intro allI impI)
  fix fs r fs' assume f: "frame T fs0 fs" and run: "gbind m k fs = Some (r, fs')"
  then consider (err) e where "m fs = Some (Inl e, fs')"
    | (ok) p fs1 where "m fs = Some (Inr p, fs1)" "k p fs1 = Some (r, fs')"
    by (auto simp: gbind_Some_iff)
  then show "frame T fs0 fs'"
  proof cases
    case err
    then show ?thesis using alloc [OF err] f by simp
  next
    case ok
    then have "data_first fs \<le> p" "p < g_total_blocks fs" "both_free fs p"
      "fs1 = fs\<lparr>g_working_bm := bm_set (g_working_bm fs) p\<rparr>" using alloc [OF ok(1)] by simp_all
    then have "cow_target fs0 p" "frame T fs0 fs1" using frame_alloc [OF f] by simp_all
    then show ?thesis using keepsD [OF k] ok(2) by blast
  qed
qed

lemma keeps_alloc:
  assumes "\<And>p. cow_target fs0 p \<Longrightarrow> keeps T fs0 (k p)"
  shows "keeps T fs0 (gbind alloc_block k)"
  using alloc_block_Some assms by (rule keeps_alloc_gen)

lemma keeps_alloc_near:
  assumes "\<And>p. cow_target fs0 p \<Longrightarrow> keeps T fs0 (k p)"
  shows "keeps T fs0 (gbind (alloc_near hint) k)"
  using alloc_near_Some assms by (rule keeps_alloc_gen)

text \<open>The rules that must be tried before the structural ones.\<close>

lemmas keeps_first = keeps_alloc keeps_alloc_near

lemma keeps_case_option [keeps_intros]:
  "(x = None \<Longrightarrow> keeps T fs0 a) \<Longrightarrow> (\<And>y. x = Some y \<Longrightarrow> keeps T fs0 (b y)) \<Longrightarrow>
    keeps T fs0 (case x of None \<Rightarrow> a | Some y \<Rightarrow> b y)"
  by (cases x) auto

lemma keeps_case_sum [keeps_intros]:
  "(\<And>y. x = Inl y \<Longrightarrow> keeps T fs0 (a y)) \<Longrightarrow> (\<And>y. x = Inr y \<Longrightarrow> keeps T fs0 (b y)) \<Longrightarrow>
    keeps T fs0 (case x of Inl y \<Rightarrow> a y | Inr y \<Rightarrow> b y)"
  by (cases x) auto

lemma keeps_case_prod [keeps_intros]:
  "(\<And>y z. x = (y, z) \<Longrightarrow> keeps T fs0 (a y z)) \<Longrightarrow> keeps T fs0 (case x of (y, z) \<Rightarrow> a y z)"
  by (cases x) auto

lemmas keeps_scratch = keeps_mod [OF scratch_update_buffers(1)] keeps_mod [OF scratch_update_buffers(2)]
  keeps_mod [OF scratch_update_buffers(3)] keeps_mod [OF scratch_update_buffers(4)]
  keeps_mod [OF scratch_update_buffers(5)] keeps_mod [OF scratch_update_free_block]
  keeps_mod [OF scratch_update_map_set] keeps_mod [OF scratch_update_sb_encode]
  keeps_mod [OF scratch_update_free_extents]

lemmas keeps_blocks = keeps_scratch scratch_update_buffers scratch_update_id keeps_bwrite keeps_write_meta

lemma keeps_read_meta [keeps_intros]:
  assumes "\<And>blk. scratch_update (put blk)"
  shows "keeps T fs0 (read_meta bp put)"
  unfolding read_meta_def by (intro keeps_intros assms)

lemma keeps_node_read [keeps_intros]: "keeps T fs0 (node_read nid)"
  unfolding node_read_def Let_def by (intro keeps_intros keeps_blocks)

lemma keeps_node_write [keeps_intros]: "keeps (cow_target fs0) fs0 (node_write nid n)"
  unfolding node_write_def Let_def by (rule keeps_first keeps_intros keeps_blocks | assumption)+

lemma keeps_name_len_ok [keeps_intros]: "keeps T fs0 (name_len_ok name)"
  unfolding name_len_ok_def Let_def by (intro keeps_intros)

lemma keeps_edge_add_fresh [keeps_intros]: "keeps (cow_target fs0) fs0 (edge_add_fresh node typ target name namelen)"
  unfolding edge_add_fresh_def Let_def by (rule keeps_first keeps_intros keeps_blocks | assumption)+

lemma keeps_edge_add [keeps_intros]: "keeps (cow_target fs0) fs0 (edge_add node typ target name namelen)"
  unfolding edge_add_def Let_def by (rule keeps_first keeps_intros keeps_blocks | assumption)+

lemma keeps_edge_flush [keeps_intros]: "keeps (cow_target fs0) fs0 (edge_flush v)"
  unfolding edge_flush_def Let_def by (rule keeps_first keeps_intros keeps_blocks | assumption)+

lemma keeps_edge_new_block [keeps_intros]: "keeps T fs0 edge_new_block"
  unfolding edge_new_block_def by (intro keeps_blocks)

lemma keeps_edge_remove_rec [keeps_intros]: "keeps (cow_target fs0) fs0 (edge_remove_rec name namelen k v)"
  unfolding edge_remove_rec_def Let_def by (intro keeps_intros keeps_blocks)

lemma keepsI: "(\<And>fs y. m fs = Some y \<Longrightarrow> frame T fs0 fs \<longrightarrow> frame T fs0 (snd y)) \<Longrightarrow> keeps T fs0 m"
  unfolding keeps_def by fastforce

text \<open>A continuation that looks at the state it runs in.\<close>

lemma keeps_bind_state:
  assumes "keeps T fs0 m" "\<And>x fs1. keeps T fs0 (f x fs1)"
  shows "keeps T fs0 (gbind m (\<lambda>x fs1. f x fs1 fs1))"
  using assms unfolding keeps_def gbind_Some_iff by blast

lemma keeps_edge_remove_loop [keeps_intros]:
  "keeps (cow_target fs0) fs0 (edge_remove_loop name namelen cur v)"
proof (rule keepsI)
  let ?F = "frame (cow_target fs0) fs0"
  fix fs :: "'c gfs" and y assume "edge_remove_loop name namelen cur v fs = Some y"
  then show "?F fs \<longrightarrow> ?F (snd y)"
  proof (rule edge_remove_loop.raw_induct [rotated, where P = "\<lambda>name namelen cur v fs y. ?F fs \<longrightarrow> ?F (snd y)"])
    fix loop :: "byte list \<Rightarrow> nat \<Rightarrow> gfs_bp \<Rightarrow> er_vars \<Rightarrow> ('c, er_vars) gfs_m"
      and name namelen cur v and fs :: "'c gfs" and y
    assume "\<And>name namelen cur v fs y. loop name namelen cur v fs = Some y \<Longrightarrow> ?F fs \<longrightarrow> ?F (snd y)"
    then have IH: "keeps (cow_target fs0) fs0 (loop name namelen cur v)" for name namelen cur v
      by (auto intro: keepsI)
    assume run: "(if bp_phys cur = 0 then gret v fs
      else gbind (read_meta cur to_a) (\<lambda>_ fs1.
        gbind (gfold (edge_remove_rec name namelen) [0..<rd32 (g_a fs1) EB_COUNT] v) (\<lambda>v' fs2.
        gseq (gmod (free_block (bp_phys cur))) (loop name namelen (eb_next (g_a fs1)) v') fs2) fs1) fs) = Some y"
    have K: "keeps (cow_target fs0) fs0 (gbind (read_meta cur to_a) (\<lambda>_ fs1.
        gbind (gfold (edge_remove_rec name namelen) [0..<rd32 (g_a fs1) EB_COUNT] v) (\<lambda>v' fs2.
        gseq (gmod (free_block (bp_phys cur))) (loop name namelen (eb_next (g_a fs1)) v') fs2) fs1))"
      by (rule keeps_bind_state [where f = "\<lambda>_ fs1.
          gbind (gfold (edge_remove_rec name namelen) [0..<rd32 (g_a fs1) EB_COUNT] v) (\<lambda>v' fs2.
          gseq (gmod (free_block (bp_phys cur))) (loop name namelen (eb_next (g_a fs1)) v') fs2)"])
        (intro keeps_intros keeps_blocks IH)+
    show "?F fs \<longrightarrow> ?F (snd y)"
      using run keepsD [OF K, of fs "fst y" "snd y"] by (auto simp: gret_def split: if_splits)
  qed
qed

lemma keeps_edge_chain_free [keeps_intros]: "keeps T fs0 (edge_chain_free head)"
proof (rule keepsI)
  let ?F = "frame T fs0"
  fix fs :: "'c gfs" and y assume "edge_chain_free head fs = Some y"
  then show "?F fs \<longrightarrow> ?F (snd y)"
  proof (rule edge_chain_free.raw_induct [rotated, where P = "\<lambda>head fs y. ?F fs \<longrightarrow> ?F (snd y)"])
    fix loop :: "gfs_bp \<Rightarrow> ('c, unit) gfs_m" and head and fs :: "'c gfs" and y
    assume "\<And>head fs y. loop head fs = Some y \<Longrightarrow> ?F fs \<longrightarrow> ?F (snd y)"
    then have IH: "keeps T fs0 (loop head)" for head by (auto intro: keepsI)
    assume run: "(if bp_phys head = 0 then gret () fs
      else gbind (read_meta head to_a) (\<lambda>_ fs1.
        gseq (gmod (free_block (bp_phys head))) (loop (eb_next (g_a fs1))) fs1) fs) = Some y"
    have K: "keeps T fs0 (gbind (read_meta head to_a) (\<lambda>_ fs1.
        gseq (gmod (free_block (bp_phys head))) (loop (eb_next (g_a fs1))) fs1))"
      by (rule keeps_bind_state [where f = "\<lambda>_ fs1. gseq (gmod (free_block (bp_phys head))) (loop (eb_next (g_a fs1)))"])
        (intro keeps_intros keeps_blocks IH)+
    show "?F fs \<longrightarrow> ?F (snd y)"
      using run keepsD [OF K, of fs "fst y" "snd y"] by (auto simp: gret_def split: if_splits)
  qed
qed

lemma keeps_edge_lookup [keeps_intros]: "keeps T fs0 (edge_lookup d name namelen)"
proof (rule keepsI)
  let ?F = "frame T fs0"
  fix fs :: "'c gfs" and y assume "edge_lookup d name namelen fs = Some y"
  then have "edge_lookup_loop name namelen (dn_edge_head d) fs = Some y" by (simp add: edge_lookup_def)
  then show "?F fs \<longrightarrow> ?F (snd y)"
  proof (rule edge_lookup_loop.raw_induct [rotated, where P = "\<lambda>name namelen cur fs y. ?F fs \<longrightarrow> ?F (snd y)"])
    fix loop :: "byte list \<Rightarrow> nat \<Rightarrow> gfs_bp \<Rightarrow> ('c, nat) gfs_m" and name namelen cur and fs :: "'c gfs" and y
    assume IH: "\<And>name namelen cur fs y. loop name namelen cur fs = Some y \<Longrightarrow> ?F fs \<longrightarrow> ?F (snd y)"
    assume run: "(if bp_phys cur = 0 then gfail GFS_ENOENT fs
      else gbind (read_meta cur to_a) (\<lambda>_ fs1.
        case edge_find name namelen (g_a fs1) of
          None \<Rightarrow> loop name namelen (eb_next (g_a fs1)) fs1
        | Some target \<Rightarrow> gret target fs1) fs) = Some y"
    have K: "keeps T fs0 (gbind (read_meta cur to_a) (\<lambda>_ fs1.
        case edge_find name namelen (g_a fs1) of
          None \<Rightarrow> loop name namelen (eb_next (g_a fs1)) fs1
        | Some target \<Rightarrow> gret target fs1))"
    proof -
      have "keeps T fs0 (loop name namelen cur)" for name namelen cur using IH by (auto intro: keepsI)
      then have C: "keeps T fs0 (case edge_find name namelen (g_a fs1) of
          None \<Rightarrow> loop name namelen (eb_next (g_a fs1)) | Some target \<Rightarrow> gret target)" for fs1
        by (intro keeps_intros)
      have "keeps T fs0 (gbind (read_meta cur to_a) (\<lambda>_ fs1. (case edge_find name namelen (g_a fs1) of
          None \<Rightarrow> loop name namelen (eb_next (g_a fs1)) | Some target \<Rightarrow> gret target) fs1))"
        by (rule keeps_bind_state [OF _ C]) (intro keeps_intros keeps_blocks)
      moreover have "(case edge_find name namelen (g_a fs1) of
          None \<Rightarrow> loop name namelen (eb_next (g_a fs1)) | Some target \<Rightarrow> gret target) fs1
        = (case edge_find name namelen (g_a fs1) of
          None \<Rightarrow> loop name namelen (eb_next (g_a fs1)) fs1 | Some target \<Rightarrow> gret target fs1)" for fs1
        by (simp split: option.split)
      ultimately show ?thesis by (simp only:)
    qed
    show "?F fs \<longrightarrow> ?F (snd y)"
      using run keepsD [OF K, of fs "fst y" "snd y"] by (auto simp: gfail_def split: if_splits)
  qed
qed

lemma keeps_edge_remove_name [keeps_intros]: "keeps (cow_target fs0) fs0 (edge_remove_name node name namelen)"
  unfolding edge_remove_name_def by (intro keeps_intros)

lemma keeps_edge_must_be_new [keeps_intros]: "keeps T fs0 (edge_must_be_new d name namelen)"
  unfolding edge_must_be_new_def by (intro keeps_intros)

lemma keeps_node_find_free_from [keeps_intros]: "keeps T fs0 (node_find_free_from nc bis)"
  by (induction bis) (simp_all add: Let_def, (intro keeps_intros keeps_blocks; assumption?)+)

lemma keeps_node_find_free [keeps_intros]: "keeps T fs0 node_find_free"
  unfolding node_find_free_def Let_def by (intro keeps_intros)

lemma keeps_node_drop_link [keeps_intros]: "keeps (cow_target fs0) fs0 (node_drop_link target t)"
  unfolding node_drop_link_def Let_def by (intro keeps_intros keeps_blocks)

lemma keeps_gfs_write_block [keeps_intros]: "keeps (cow_target fs0) fs0 (gfs_write_block off src lbn st)"
  unfolding gfs_write_block_def Let_def
  by (rule keeps_first keeps_intros keeps_blocks | assumption)+

lemma keeps_rename_walk [keeps_intros]: "keeps T fs0 (rename_walk nc root src cur guard)"
proof (induction nc root src cur guard rule: rename_walk.induct)
  case (1 nc root src cur guard)
  then show ?case
    by (subst rename_walk.simps) (auto intro!: keeps_intros simp del: One_nat_def add_Suc_right)
qed

lemma keeps_rename_dst_check [keeps_intros]: "keeps T fs0 (rename_dst_check sn dn)"
  unfolding rename_dst_check_def by (intro keeps_intros)

lemma keeps_truncate_tail [keeps_intros]: "keeps (cow_target fs0) fs0 (truncate_tail sz n)"
  unfolding truncate_tail_def Let_def
  by (rule keeps_first keeps_intros keeps_blocks | assumption)+

end

end
