(* ===== verification/Gfs_Commit.thy ===== *)
theory Gfs_Commit
  imports Gfs_Cow
begin

text \<open>
  The commit of a graphfs transaction. \<open>gfs_on_disk\<close> relates a mounted state to a disk content:
  the live superblock slot, the live bitmap copy and the node map agree with the handle. A
  successful commit establishes the relation for the next generation; until its last write the
  relation for the old generation is untouched, which is what makes a crash harmless.
\<close>

section \<open>Disk content of a mounted file system\<close>

definition bitmap_block :: "byte list \<Rightarrow> nat \<Rightarrow> nat \<Rightarrow> byte list" where
  "bitmap_block bm n j = bsplice 0 (bslice (u64 (j * GFS_BLOCK_SIZE)) (bitmap_chunk n j) bm) (zeros GFS_BLOCK_SIZE)"

definition geom_ok :: "'c gfs \<Rightarrow> bool" where
  "geom_ok fs \<longleftrightarrow> g_bitmap_start fs = 2 \<and> g_total_blocks fs < 2 ^ 63
     \<and> g_bm_bytes fs = (g_total_blocks fs + 7) div 8
     \<and> g_bitmap_blocks fs = (g_bm_bytes fs + 4095) div 4096
     \<and> 2 + 2 * g_bitmap_blocks fs \<le> g_total_blocks fs
     \<and> length (g_committed_bm fs) = g_bm_bytes fs \<and> length (g_working_bm fs) = g_bm_bytes fs
     \<and> 2 \<le> g_node_count fs \<and> g_node_count fs \<le> GFS_MAX_NODES \<and> g_root_node fs = GFS_ROOT_NODE"

definition gfs_sb :: "'c gfs \<Rightarrow> byte list" where
  "gfs_sb fs = sb_image (g_total_blocks fs) (g_node_count fs) (g_root_node fs) (g_bitmap_start fs)
     (g_bitmap_blocks fs) (g_generation fs) (g_nodemap fs) (unat (crc32c (g_committed_bm fs)))
     (g_free_blocks fs) (g_free_nodes fs)"

definition gfs_on_disk :: "(nat \<Rightarrow> byte list) \<Rightarrow> 'c gfs \<Rightarrow> bool" where
  "gfs_on_disk d fs \<longleftrightarrow> geom_ok fs \<and> g_writable fs \<and> g_generation fs < 2 ^ 64 \<and> bp_ok (g_nodemap fs)
     \<and> g_free_blocks fs < 2 ^ 64 \<and> g_free_nodes fs < 2 ^ 64
     \<and> data_first fs \<le> bp_phys (g_nodemap fs) \<and> bp_phys (g_nodemap fs) < g_total_blocks fs
     \<and> bm_test (g_committed_bm fs) (bp_phys (g_nodemap fs))
     \<and> unat (crc32c (d (bp_phys (g_nodemap fs)))) = bp_crc (g_nodemap fs)
     \<and> d (g_generation fs mod 2) = gfs_sb fs
     \<and> (\<forall>g. sb_valid (d (1 - g_generation fs mod 2)) = Some g \<longrightarrow> g < g_generation fs)
     \<and> (\<forall>j < g_bitmap_blocks fs. bslice 0 (bitmap_chunk (g_bm_bytes fs) j) (d (bitmap_lba fs (g_generation fs mod 2) j))
          = bslice (j * GFS_BLOCK_SIZE) (bitmap_chunk (g_bm_bytes fs) j) (g_committed_bm fs))"

text \<open>Blocks an operation may write before it publishes: free blocks and the inactive bitmap copy.\<close>

definition quiet_target :: "'c gfs \<Rightarrow> nat \<Rightarrow> bool" where
  "quiet_target fs lba \<longleftrightarrow> cow_target fs lba
     \<or> (\<exists>j < g_bitmap_blocks fs. lba = bitmap_lba fs ((g_generation fs + 1) mod 2) j)"

lemma geom_bounds:
  assumes "geom_ok fs"
  shows "data_first fs = 2 + 2 * g_bitmap_blocks fs" "0 < g_bitmap_blocks fs" "g_bm_bytes fs < 2 ^ 63"
    "g_bitmap_blocks fs * 4096 < 2 ^ 63" "g_bm_bytes fs \<le> g_bitmap_blocks fs * 4096"
    "g_total_blocks fs \<le> 8 * g_bm_bytes fs"
proof -
  let ?n = "g_bm_bytes fs" and ?b = "g_bitmap_blocks fs" and ?t = "g_total_blocks fs"
  have t: "?t < 2 ^ 63" and n: "?n = (?t + 7) div 8" and b: "?b = (?n + 4095) div 4096"
    and le: "2 + 2 * ?b \<le> ?t" and s: "g_bitmap_start fs = 2" using assms by (auto simp: geom_ok_def)
  have n8: "?n * 8 \<le> ?t + 7" unfolding n by simp
  then have nt: "?n < 2 ^ 61" using t by simp
  then show "?n < 2 ^ 63" by simp
  have b4: "?b * 4096 \<le> ?n + 4095" unfolding b by simp
  then show bb: "?b * 4096 < 2 ^ 63" using nt by simp
  show "?n \<le> ?b * 4096" unfolding b by simp
  show "?t \<le> 8 * ?n" unfolding n by simp
  then have "0 < ?n" using le by simp
  then show "0 < ?b" unfolding b by simp
  have "2 * ?b < 2 ^ 64" "2 + 2 * ?b < 2 ^ 64" using le t by simp_all
  then show "data_first fs = 2 + 2 * ?b" by (simp only: data_first_def s u64_id)
qed

lemma bitmap_lba_eq:
  assumes "geom_ok fs" "p \<le> 1" "j < g_bitmap_blocks fs"
  shows "bitmap_lba fs p j = 2 + p * g_bitmap_blocks fs + j"
proof -
  have "p = 0 \<or> p = 1" using assms(2) by auto
  then have "2 + p * g_bitmap_blocks fs + j < 2 ^ 64"
    using assms(3) geom_bounds(4) [OF assms(1)] by auto
  moreover have "g_bitmap_start fs = 2" using assms(1) by (simp add: geom_ok_def)
  ultimately show ?thesis by (simp only: bitmap_lba_def u64_id)
qed

lemma bitmap_chunk_eq:
  assumes "geom_ok fs" "j < g_bitmap_blocks fs"
  shows "bitmap_chunk (g_bm_bytes fs) j = min (g_bm_bytes fs - j * 4096) 4096" "j * 4096 < g_bm_bytes fs"
    "u64 (j * 4096) = j * 4096"
proof -
  have b: "g_bitmap_blocks fs = (g_bm_bytes fs + 4095) div 4096" using assms(1) by (simp add: geom_ok_def)
  have "j + 1 \<le> (g_bm_bytes fs + 4095) div 4096" using assms(2) b by simp
  then have "(j + 1) * 4096 \<le> g_bm_bytes fs + 4095" by (simp add: less_eq_div_iff_mult_less_eq)
  then show lt: "j * 4096 < g_bm_bytes fs" by simp
  then show u: "u64 (j * 4096) = j * 4096" using geom_bounds(3) [OF assms(1)] by (intro u64_id) simp
  have "sub64 (g_bm_bytes fs) (j * 4096) = g_bm_bytes fs - j * 4096"
    using lt geom_bounds(3) [OF assms(1)] by (intro sub64_in_range) simp_all
  then show "bitmap_chunk (g_bm_bytes fs) j = min (g_bm_bytes fs - j * 4096) 4096"
    by (simp add: bitmap_chunk_def u Let_def min_def)
qed

lemma geom_live:
  assumes "live fs = live fs'" "length (g_working_bm fs) = length (g_working_bm fs')"
  shows "geom_ok fs \<longleftrightarrow> geom_ok fs'"
  using assms by (auto simp: geom_ok_def live_eq_iff)

lemma quiet_not_protected:
  assumes "geom_ok fs" "quiet_target fs lba"
  shows "2 \<le> lba" "lba \<noteq> g_generation fs mod 2" "lba \<noteq> (g_generation fs + 1) mod 2"
    "j < g_bitmap_blocks fs \<Longrightarrow> lba \<noteq> bitmap_lba fs (g_generation fs mod 2) j"
    "data_first fs \<le> lba \<Longrightarrow> \<not> bm_test (g_committed_bm fs) lba"
proof -
  let ?b = "g_bitmap_blocks fs" and ?g = "g_generation fs"
  have df: "data_first fs = 2 + 2 * ?b" by (rule geom_bounds(1) [OF assms(1)])
  have p: "?g mod 2 \<le> 1" "(?g + 1) mod 2 \<le> 1" "?g mod 2 \<noteq> (?g + 1) mod 2"
    "?g mod 2 = 0 \<or> ?g mod 2 = 1" "(?g + 1) mod 2 = 0 \<or> (?g + 1) mod 2 = 1" by presburger+
  have cases: "2 + 2 * ?b \<le> lba \<and> \<not> bm_test (g_committed_bm fs) lba
      \<or> (\<exists>i < ?b. lba = 2 + (?g + 1) mod 2 * ?b + i)"
    using assms(2) bitmap_lba_eq [OF assms(1) p(2)] by (auto simp: quiet_target_def cow_target_def df)
  then show two: "2 \<le> lba" by auto
  then show "lba \<noteq> ?g mod 2" "lba \<noteq> (?g + 1) mod 2" using p(1,2) by linarith+
  show "lba \<noteq> bitmap_lba fs (?g mod 2) j" if "j < ?b"
    unfolding bitmap_lba_eq [OF assms(1) p(1) that]
    using cases that p(3) p(4) p(5) by auto
  show "\<not> bm_test (g_committed_bm fs) lba" if "data_first fs \<le> lba"
    using cases that p(5) by (auto simp: df)
qed

text \<open>A disk that differs only in quiet targets still holds the same file system.\<close>

lemma gfs_on_disk_quiet:
  assumes "gfs_on_disk d fs" "\<forall>w \<in> set ws. quiet_target fs (fst w)"
  shows "gfs_on_disk (apply_writes ws d) fs"
proof -
  have g: "geom_ok fs" using assms(1) by (simp add: gfs_on_disk_def)
  have keep: "apply_writes ws d lba = d lba" if "\<not> quiet_target fs lba" for lba
    using assms(2) that by (intro apply_writes_other) auto
  have "\<not> quiet_target fs (bp_phys (g_nodemap fs))"
    using quiet_not_protected(5) [OF g] assms(1) by (auto simp: gfs_on_disk_def)
  moreover have "\<not> quiet_target fs (g_generation fs mod 2)" using quiet_not_protected(2) [OF g] by blast
  moreover have "\<not> quiet_target fs (1 - g_generation fs mod 2)"
    using quiet_not_protected(1) [OF g, of "1 - g_generation fs mod 2"] by auto
  moreover have "\<not> quiet_target fs (bitmap_lba fs (g_generation fs mod 2) j)" if "j < g_bitmap_blocks fs" for j
    using quiet_not_protected(4) [OF g _ that] by blast
  ultimately show ?thesis using assms(1) by (simp add: gfs_on_disk_def keep)
qed

section \<open>Writing the bitmap copy\<close>

definition write_bitmap_body :: "nat \<Rightarrow> byte list \<Rightarrow> nat \<Rightarrow> ('c, unit) gfs_m" where
  "write_bitmap_body parity bm j =
     gseq (gmod (to_b (zeros GFS_BLOCK_SIZE)))
     (gget (\<lambda>fs. gseq (gmod (\<lambda>fs'. fs'\<lparr>g_b := bsplice 0 (bslice (u64 (j * GFS_BLOCK_SIZE))
              (bitmap_chunk (g_bm_bytes fs) j) bm) (g_b fs')\<rparr>))
     (gget (\<lambda>fs. bwrite (bitmap_lba fs parity j) (g_b fs)))))"

lemma write_bitmap_eq:
  "write_bitmap parity bm = gget (\<lambda>fs. gfor [0..<g_bitmap_blocks fs] (write_bitmap_body parity bm))"
  by (simp add: write_bitmap_def write_bitmap_body_def [abs_def] Let_def)

lemma write_bitmap_body_eq:
  "write_bitmap_body parity bm j fs = bwrite (bitmap_lba fs parity j) (bitmap_block bm (g_bm_bytes fs) j)
     (fs\<lparr>g_b := bitmap_block bm (g_bm_bytes fs) j\<rparr>)"
  by (simp add: write_bitmap_body_def gseq_def gbind_def gmod_def gget_def bitmap_block_def bitmap_lba_def)

lemma bwrite_fields: "\<exists>r c. bwrite lba blk fs = Some (r, fs\<lparr>g_ctx := c\<rparr>)"
proof (cases "lba \<ge> g_total_blocks fs")
  case True
  then show ?thesis by (intro exI [of _ "Inl GFS_ECORRUPT"] exI [of _ "g_ctx fs"]) (simp add: bwrite_def)
next
  case False
  obtain ok c where "op_write (g_ops fs) (g_ctx fs) lba blk = (ok, c)" by fastforce
  then show ?thesis using False
    by (intro exI [of _ "if ok then Inr () else Inl GFS_EIO"] exI [of _ c]) (simp add: bwrite_def)
qed

lemma fold_upd_other: "l \<notin> f ` set js \<Longrightarrow> fold (\<lambda>j d. d(f j := g j)) js d l = d l"
  by (induction js arbitrary: d) auto

lemma fold_upd_same:
  "inj_on f (set js) \<Longrightarrow> distinct js \<Longrightarrow> j \<in> set js \<Longrightarrow> fold (\<lambda>j d. d(f j := g j)) js d (f j) = g j"
proof (induction js arbitrary: d)
  case (Cons i js)
  show ?case
  proof (cases "j = i")
    case True
    then have "f j \<notin> f ` set js" using Cons.prems by (auto simp: inj_on_def)
    then have "fold (\<lambda>j d. d(f j := g j)) js (d(f i := g i)) (f j) = (d(f i := g i)) (f j)"
      by (rule fold_upd_other)
    then show ?thesis using True by (simp del: fun_upd_apply) (simp add: fun_upd_same)
  next
    case False
    then have "fold (\<lambda>j d. d(f j := g j)) js (d(f i := g i)) (f j) = g j"
      using Cons by (intro Cons.IH) auto
    then show ?thesis by (simp del: fun_upd_apply)
  qed
qed simp

lemma bitmap_block_slice:
  assumes "geom_ok fs" "j < g_bitmap_blocks fs" "length bm = g_bm_bytes fs"
  shows "bslice 0 (bitmap_chunk (g_bm_bytes fs) j) (bitmap_block bm (g_bm_bytes fs) j)
    = bslice (j * 4096) (bitmap_chunk (g_bm_bytes fs) j) bm"
proof -
  let ?c = "bitmap_chunk (g_bm_bytes fs) j"
  have c: "?c \<le> 4096" "?c \<le> g_bm_bytes fs - j * 4096" using bitmap_chunk_eq(1) [OF assms(1,2)] by simp_all
  then have "length (bslice (j * 4096) ?c bm) = ?c" using assms(3) by simp
  then show ?thesis
    using slice_splice_same [of 0 "bslice (j * 4096) ?c bm" "zeros 4096"] c(1)
    by (simp add: bitmap_block_def bitmap_chunk_eq(3) [OF assms(1,2)])
qed

lemma count_free_less: "count_free fs < 2 ^ 64"
proof -
  have "fold (\<lambda>i c. if \<not> bm_test (g_working_bm fs) i then u64 (c + 1) else c) xs c < 2 ^ 64"
    if "c < 2 ^ 64" for xs c
    using that by (induction xs arbitrary: c) (auto simp del: u64_id)
  then show ?thesis by (simp add: count_free_def)
qed

context block_dev
begin

lemma bwrite_run:
  assumes d: "dinv (g_ctx fs)" "g_ops fs = ops" and run: "bwrite lba blk fs = Some (r, fs')"
  shows "dinv (g_ctx fs') \<and> fs' = fs\<lparr>g_ctx := g_ctx fs'\<rparr>
    \<and> (\<exists>vs. log (g_ctx fs') = log (g_ctx fs) @ vs \<and> disk (g_ctx fs') = apply_writes vs (disk (g_ctx fs))
      \<and> (vs = [] \<or> (\<exists>junk. vs = [(lba, junk)])) \<and> (r = Inr () \<longrightarrow> vs = [(lba, blk)]))"
proof (cases "lba \<ge> g_total_blocks fs")
  case True
  then show ?thesis using run d by (auto simp: bwrite_def)
next
  case False
  obtain ok c where w: "op_write ops (g_ctx fs) lba blk = (ok, c)" by fastforce
  then have r: "r = (if ok then Inr () else Inl GFS_EIO)" "fs' = fs\<lparr>g_ctx := c\<rparr>"
    using run False d by (auto simp: bwrite_def)
  show ?thesis
  proof (cases ok)
    case True
    then show ?thesis using r dev_write [OF d(1), of lba blk c] w
      by (auto intro!: exI [of _ "[(lba, blk)]"])
  next
    case False
    then show ?thesis using r dev_write_fail [OF d(1), of lba blk c] w
      by (fastforce intro: exI [of _ "[]"] exI [of _ "[(lba, junk)]" for junk])
  qed
qed

lemma write_bitmap_body_run:
  assumes f: "frame T fs0 fs" and t: "T (bitmap_lba fs0 p j)"
    and run: "write_bitmap_body p bm j fs = Some (r, fs')"
  shows "frame T fs0 fs' \<and> g_working_bm fs' = g_working_bm fs
    \<and> (r = Inr () \<longrightarrow> disk (g_ctx fs') = (disk (g_ctx fs))(bitmap_lba fs0 p j := bitmap_block bm (g_bm_bytes fs0) j))"
proof -
  let ?fs = "fs\<lparr>g_b := bitmap_block bm (g_bm_bytes fs) j\<rparr>"
  have live: "live fs = live fs0" and d: "dinv (g_ctx ?fs)" "g_ops ?fs = ops" using f by (auto simp: frame_def)
  then have eq: "bitmap_lba fs p j = bitmap_lba fs0 p j" "g_bm_bytes fs = g_bm_bytes fs0"
    by (auto simp: live_eq_iff bitmap_lba_def)
  have b: "bwrite (bitmap_lba fs0 p j) (bitmap_block bm (g_bm_bytes fs0) j) ?fs = Some (r, fs')"
    using run by (simp only: write_bitmap_body_eq eq)
  have f': "frame T fs0 ?fs"
    using frame_scratch [OF scratch_update_buffers(5) f, of "\<lambda>_. bitmap_block bm (g_bm_bytes fs) j"] .
  note w = bwrite_run [OF d b]
  have "g_working_bm fs' = g_working_bm fs" using w by (metis gfs.select_convs(14) gfs.surjective gfs.update_convs(2,20))
  moreover have "frame T fs0 fs'" using keepsD [OF keeps_bwrite, OF t f' b] .
  ultimately show ?thesis using w by auto
qed

lemma write_bitmap_loop_run:
  assumes "frame T fs0 fs" "\<forall>j \<in> set js. T (bitmap_lba fs0 p j)"
    and "gfor js (write_bitmap_body p bm) fs = Some (r, fs')"
  shows "frame T fs0 fs' \<and> g_working_bm fs' = g_working_bm fs
    \<and> (r = Inr () \<longrightarrow> disk (g_ctx fs')
        = fold (\<lambda>j d. d(bitmap_lba fs0 p j := bitmap_block bm (g_bm_bytes fs0) j)) js (disk (g_ctx fs)))"
  using assms
proof (induction js arbitrary: fs)
  case Nil
  then show ?case by (auto simp: gret_def)
next
  case (Cons j js)
  then consider (err) e where "write_bitmap_body p bm j fs = Some (Inl e, fs')" "r = Inl e"
    | (ok) fs1 where "write_bitmap_body p bm j fs = Some (Inr (), fs1)"
        "gfor js (write_bitmap_body p bm) fs1 = Some (r, fs')"
    by (auto simp: gseq_Some_iff)
  then show ?case
  proof cases
    case err
    then show ?thesis using write_bitmap_body_run [OF Cons.prems(1) _ err(1)] Cons.prems(2) by auto
  next
    case ok
    have b: "frame T fs0 fs1 \<and> g_working_bm fs1 = g_working_bm fs \<and> disk (g_ctx fs1)
        = (disk (g_ctx fs))(bitmap_lba fs0 p j := bitmap_block bm (g_bm_bytes fs0) j)"
      using write_bitmap_body_run [OF Cons.prems(1) _ ok(1)] Cons.prems(2) by simp
    then show ?thesis using Cons.IH [OF _ _ ok(2)] Cons.prems(2) by simp
  qed
qed

end

section \<open>Commit\<close>

definition commit_publish :: "nat \<Rightarrow> gfs_bp \<Rightarrow> int \<Rightarrow> ('c, unit) gfs_m" where
  "commit_publish new_gen new_map nodes_delta =
     gget (\<lambda>fs. let free_blocks = count_free fs;
          free_nodes = (if nodes_delta \<ge> 0 then u64 (g_free_nodes fs + nat nodes_delta)
                        else sub64 (g_free_nodes fs) (nat (- nodes_delta))) in
     gseq (write_bitmap (new_gen mod 2) (g_working_bm fs))
     (gget (\<lambda>fs. let bm_crc = bitmap_crc fs in
     gseq (gmod (sb_encode new_gen new_map bm_crc free_blocks free_nodes))
     (gseq (gget (\<lambda>fs. bwrite (new_gen mod 2) (g_sb fs)))
     (gmod (\<lambda>fs. fs\<lparr>g_generation := new_gen, g_nodemap := new_map, g_free_blocks := free_blocks,
        g_free_nodes := free_nodes,
        g_committed_bm := bsplice 0 (bslice 0 (g_bm_bytes fs) (g_working_bm fs)) (g_committed_bm fs)\<rparr>))))))"

lemma txn_commit_eq:
  "txn_commit nodes_delta = gget (\<lambda>fs0.
     gbind alloc_block (\<lambda>mp_phys.
     gbind (gget (\<lambda>fs. write_meta mp_phys (g_map fs))) (\<lambda>new_map.
     gseq (gmod (free_block (bp_phys (g_nodemap fs0))))
     (commit_publish (u64 (g_generation fs0 + 1)) new_map nodes_delta))))"
  by (simp add: txn_commit_def commit_publish_def Let_def)

text \<open>What an operation has done to the disk: nothing visible, or one complete publish.\<close>

definition geometry_of :: "'c gfs \<Rightarrow> nat \<times> nat \<times> nat \<times> nat \<times> nat \<times> nat" where
  "geometry_of fs = (g_total_blocks fs, g_node_count fs, g_root_node fs, g_bitmap_start fs, g_bitmap_blocks fs,
     g_bm_bytes fs)"

context block_dev
begin

definition outcome :: "'c gfs \<Rightarrow> gfs_err + 'a \<Rightarrow> 'c gfs \<Rightarrow> bool" where
  "outcome fs0 r fs' \<longleftrightarrow> g_ops fs' = ops \<and> dinv (g_ctx fs') \<and> length (g_working_bm fs') = length (g_working_bm fs0)
     \<and> (\<exists>ws. log (g_ctx fs') = log (g_ctx fs0) @ ws \<and> disk (g_ctx fs') = apply_writes ws (disk (g_ctx fs0))
        \<and> (live fs' = live fs0 \<and> (\<forall>w \<in> set ws. quiet_target fs0 (fst w))
           \<or> (\<exists>ws1 blk. ws = ws1 @ [((g_generation fs0 + 1) mod 2, blk)] \<and> (\<forall>w \<in> set ws1. quiet_target fs0 (fst w))
              \<and> (isl r \<and> live fs' = live fs0
                 \<or> \<not> isl r \<and> gfs_on_disk (disk (g_ctx fs')) fs' \<and> g_generation fs' = g_generation fs0 + 1
                   \<and> geometry_of fs' = geometry_of fs0))))"

lemma frame_quiet: "frame (cow_target fs0) fs0 fs \<Longrightarrow> frame (quiet_target fs0) fs0 fs"
  by (auto simp: frame_def quiet_target_def)

lemma frame_outcome: "frame (quiet_target fs0) fs0 fs \<Longrightarrow> outcome fs0 r fs"
  by (auto simp: frame_def outcome_def)

lemma write_bitmap_run:
  assumes f: "frame (quiet_target fs0) fs0 fs" and g: "geom_ok fs0"
    and p: "p = (g_generation fs0 + 1) mod 2" and run: "write_bitmap p bm fs = Some (r, fs')"
  shows "frame (quiet_target fs0) fs0 fs' \<and> g_working_bm fs' = g_working_bm fs"
    and "r = Inr () \<Longrightarrow> j < g_bitmap_blocks fs0 \<Longrightarrow>
      disk (g_ctx fs') (bitmap_lba fs0 p j) = bitmap_block bm (g_bm_bytes fs0) j"
    and "r = Inr () \<Longrightarrow> lba < 2 \<or> data_first fs0 \<le> lba \<Longrightarrow> disk (g_ctx fs') lba = disk (g_ctx fs) lba"
proof -
  let ?f = "bitmap_lba fs0 p" and ?js = "[0..<g_bitmap_blocks fs0]"
  have "g_bitmap_blocks fs = g_bitmap_blocks fs0" using f by (auto simp: frame_def live_eq_iff)
  then have loop: "gfor ?js (write_bitmap_body p bm) fs = Some (r, fs')"
    using run by (simp add: write_bitmap_eq gget_def)
  have p1: "p \<le> 1" using p by simp
  have lba: "?f j = 2 + p * g_bitmap_blocks fs0 + j" if "j < g_bitmap_blocks fs0" for j
    by (rule bitmap_lba_eq [OF g p1 that])
  have "\<forall>j \<in> set ?js. quiet_target fs0 (?f j)" by (auto simp: quiet_target_def p)
  note L = write_bitmap_loop_run [OF f this loop]
  then show "frame (quiet_target fs0) fs0 fs' \<and> g_working_bm fs' = g_working_bm fs" by blast
  have inj: "inj_on ?f (set ?js)" by (auto simp: inj_on_def lba)
  show "disk (g_ctx fs') (?f j) = bitmap_block bm (g_bm_bytes fs0) j"
    if "r = Inr ()" "j < g_bitmap_blocks fs0"
    using L that fold_upd_same [OF inj, of j] by simp
  show "disk (g_ctx fs') lba = disk (g_ctx fs) lba" if "r = Inr ()" "lba < 2 \<or> data_first fs0 \<le> lba"
  proof -
    have "p = 0 \<or> p = 1" using p1 by auto
    then have "lba \<notin> ?f ` set ?js" using that(2) lba geom_bounds(1) [OF g] by auto
    then show ?thesis using L that(1) fold_upd_other [of lba ?f ?js] by simp
  qed
qed

lemma commit_publish_run:
  assumes on: "gfs_on_disk (disk (g_ctx fs0)) fs0" and gen: "g_generation fs0 + 1 < 2 ^ 64"
    and f: "frame (cow_target fs0) fs0 fs"
    and mp: "data_first fs0 \<le> mp" "mp < g_total_blocks fs0" "bm_test (g_working_bm fs) mp"
    and new_map: "new_map = \<lparr>bp_phys = mp, bp_crc = unat (crc32c (disk (g_ctx fs) mp))\<rparr>"
    and run: "commit_publish (g_generation fs0 + 1) new_map nd fs = Some (r, fs')"
  shows "outcome fs0 r fs'"
proof -
  define p where "p = (g_generation fs0 + 1) mod 2"
  define fb where "fb = count_free fs"
  define fn where "fn = (if nd \<ge> 0 then u64 (g_free_nodes fs + nat nd) else sub64 (g_free_nodes fs) (nat (- nd)))"
  have g: "geom_ok fs0" using on by (simp add: gfs_on_disk_def)
  have q: "frame (quiet_target fs0) fs0 fs" by (rule frame_quiet [OF f])
  consider (wb_err) e where "write_bitmap p (g_working_bm fs) fs = Some (Inl e, fs')" "r = Inl e"
    | (wb_ok) fs1 where "write_bitmap p (g_working_bm fs) fs = Some (Inr (), fs1)"
        "gseq (gmod (sb_encode (g_generation fs0 + 1) new_map (bitmap_crc fs1) fb fn))
          (gseq (gget (\<lambda>fs. bwrite p (g_sb fs)))
          (gmod (\<lambda>fs. fs\<lparr>g_generation := g_generation fs0 + 1, g_nodemap := new_map, g_free_blocks := fb,
             g_free_nodes := fn,
             g_committed_bm := bsplice 0 (bslice 0 (g_bm_bytes fs) (g_working_bm fs)) (g_committed_bm fs)\<rparr>))) fs1
          = Some (r, fs')"
    using run unfolding commit_publish_def gget_def Let_def p_def [symmetric] fb_def [symmetric] fn_def [symmetric]
    by (auto simp: gseq_Some_iff [of "write_bitmap _ _"])
  then show ?thesis
  proof cases
    case wb_err
    then show ?thesis using write_bitmap_run(1) [OF q g p_def] frame_outcome by blast
  next
    case wb_ok
    note W = write_bitmap_run [OF q g p_def wb_ok(1)]
    define fs2 where "fs2 = sb_encode (g_generation fs0 + 1) new_map (bitmap_crc fs1) fb fn fs1"
    have q2: "frame (quiet_target fs0) fs0 fs2"
      unfolding fs2_def using W(1) frame_scratch [OF scratch_update_sb_encode] by blast
    then have d2: "dinv (g_ctx fs2)" "g_ops fs2 = ops" and l2: "live fs2 = live fs0"
      "length (g_working_bm fs2) = length (g_working_bm fs0)" by (auto simp: frame_def)
    obtain r1 c where bw: "bwrite p (g_sb fs2) fs2 = Some (r1, fs2\<lparr>g_ctx := c\<rparr>)" using bwrite_fields [of p "g_sb fs2" fs2] by blast
    obtain vs where vs: "log c = log (g_ctx fs2) @ vs" "disk c = apply_writes vs (disk (g_ctx fs2))"
      "vs = [] \<or> (\<exists>junk. vs = [(p, junk)])" "r1 = Inr () \<longrightarrow> vs = [(p, g_sb fs2)]" and dc: "dinv c"
      using bwrite_run [OF d2 bw] by auto
    obtain ws where ws: "log (g_ctx fs2) = log (g_ctx fs0) @ ws"
      "disk (g_ctx fs2) = apply_writes ws (disk (g_ctx fs0))" "\<forall>w \<in> set ws. quiet_target fs0 (fst w)"
      using q2 by (auto simp: frame_def)
    have run2: "gseq (bwrite p (g_sb fs2))
          (gmod (\<lambda>fs. fs\<lparr>g_generation := g_generation fs0 + 1, g_nodemap := new_map, g_free_blocks := fb,
             g_free_nodes := fn,
             g_committed_bm := bsplice 0 (bslice 0 (g_bm_bytes fs) (g_working_bm fs)) (g_committed_bm fs)\<rparr>)) fs2
          = Some (r, fs')"
      using wb_ok(2) by (simp only: gseq_mod gseq_get flip: fs2_def)
    show ?thesis
    proof (cases r1)
      case (Inl e)
      then have fs': "fs' = fs2\<lparr>g_ctx := c\<rparr>" "r = Inl e"
        using run2 bw by (auto simp: gseq_Some_iff)
      have "log c = log (g_ctx fs0) @ ws @ vs" "disk c = apply_writes (ws @ vs) (disk (g_ctx fs0))"
        using vs(1,2) ws(1,2) by simp_all
      then show ?thesis
        using vs(3) ws(3) l2 d2 dc unfolding outcome_def fs' p_def
        by (intro conjI exI [of _ "ws @ vs"]) auto
    next
      case (Inr u)
      define fs3 where "fs3 = fs2\<lparr>g_ctx := c, g_generation := g_generation fs0 + 1, g_nodemap := new_map,
        g_free_blocks := fb, g_free_nodes := fn,
        g_committed_bm := bsplice 0 (bslice 0 (g_bm_bytes fs2) (g_working_bm fs2)) (g_committed_bm fs2)\<rparr>"
      have fs': "fs' = fs3" "r = Inr ()"
        using run2 bw Inr unfolding fs3_def by (auto simp: gseq_Some_iff gmod_def)
      have vs1: "vs = [(p, g_sb fs2)]" using vs(4) Inr by simp
      have wk: "g_working_bm fs2 = g_working_bm fs" "g_sb fs2 = sb_image (g_total_blocks fs1) (g_node_count fs1)
          (g_root_node fs1) (g_bitmap_start fs1) (g_bitmap_blocks fs1) (g_generation fs0 + 1) new_map
          (bitmap_crc fs1) fb fn" "g_ctx fs2 = g_ctx fs1" "live fs2 = live fs1" "g_working_bm fs2 = g_working_bm fs1"
        using W(1) by (simp_all add: fs2_def sb_encode_def)
      have len: "length (g_working_bm fs2) = g_bm_bytes fs0" "length (g_committed_bm fs2) = g_bm_bytes fs0"
        "g_bm_bytes fs2 = g_bm_bytes fs0"
        using g l2 by (auto simp: geom_ok_def live_eq_iff)
      have cm3: "g_committed_bm fs3 = g_working_bm fs2"
        using len by (simp add: fs3_def splice_all slice_whole)
      have crc: "bitmap_crc fs1 = unat (crc32c (g_working_bm fs2))"
        using len wk(4,5) by (simp add: bitmap_crc_def live_eq_iff slice_whole)
      have disk: "disk c = (disk (g_ctx fs1))(p := g_sb fs2)" using vs(2) vs1 wk(3) by simp
      have sb: "g_sb fs2 = gfs_sb fs3"
        using l2(1) wk(4) by (simp add: gfs_sb_def wk(2) crc cm3) (simp add: fs3_def live_eq_iff)
      have p01: "p < 2" "1 - p = g_generation fs0 mod 2" "1 - p \<noteq> p"
        unfolding p_def by (simp, presburger, presburger)
      have mpd: "disk c mp = disk (g_ctx fs) mp"
        using disk p01(1) mp(1) W(3) [OF refl, of mp] geom_bounds(1) [OF g] by simp
      have other: "disk c (1 - p) = gfs_sb fs0"
      proof -
        have "disk c (1 - p) = disk (g_ctx fs2) (1 - p)" using disk p01(3) wk(3) by simp
        also have "\<dots> = disk (g_ctx fs0) (1 - p)"
          unfolding ws(2) p01(2) using ws(3) quiet_not_protected(2) [OF g]
          by (intro apply_writes_other) fastforce
        finally show ?thesis using on p01(2) by (simp add: gfs_on_disk_def)
      qed
      have valid: "sb_valid (gfs_sb fs0) = Some (g_generation fs0)"
        using gen unfolding gfs_sb_def by (intro sb_image_valid) simp
      have lba3: "bitmap_lba fs3 p j = bitmap_lba fs0 p j" "data_first fs3 = data_first fs0" for j
        using l2(1) by (simp_all add: fs3_def bitmap_lba_def data_first_def live_eq_iff)
      have bm: "disk c (bitmap_lba fs0 p j) = bitmap_block (g_working_bm fs) (g_bm_bytes fs0) j"
        if "j < g_bitmap_blocks fs0" for j
      proof -
        have "bitmap_lba fs0 p j \<noteq> p" using bitmap_lba_eq [OF g _ that, of p] p01(1) by simp
        then show ?thesis using disk W(2) [OF refl that] by simp
      qed
      have fields3: "g_generation fs3 = g_generation fs0 + 1" "g_nodemap fs3 = new_map" "g_free_blocks fs3 = fb"
        "g_free_nodes fs3 = fn" "g_writable fs3" "g_total_blocks fs3 = g_total_blocks fs0"
        "g_bitmap_blocks fs3 = g_bitmap_blocks fs0" "g_bm_bytes fs3 = g_bm_bytes fs0"
        "g_bitmap_start fs3 = g_bitmap_start fs0" "g_node_count fs3 = g_node_count fs0"
        "g_root_node fs3 = g_root_node fs0"
        using l2(1) on by (simp_all add: fs3_def live_eq_iff gfs_on_disk_def)
      have len3: "length (g_committed_bm fs3) = g_bm_bytes fs0" "length (g_working_bm fs3) = g_bm_bytes fs0"
        using cm3 len(1) by (simp_all add: fs3_def)
      have geom3: "geom_ok fs3" using g unfolding geom_ok_def fields3 len3 by blast
      have "fb < 2 ^ 64" unfolding fb_def by (rule count_free_less)
      moreover have "fn < 2 ^ 64" by (simp add: fn_def del: u64_id)
      moreover have "mp < 2 ^ 64" using mp(2) g by (simp add: geom_ok_def)
      moreover have "unat (crc32c (disk (g_ctx fs) mp)) < 2 ^ 32"
        using unsigned_less [of "crc32c (disk (g_ctx fs) mp)"] by simp
      moreover have "bslice 0 (bitmap_chunk (g_bm_bytes fs0) j) (disk c (bitmap_lba fs0 p j))
          = bslice (j * 4096) (bitmap_chunk (g_bm_bytes fs0) j) (g_working_bm fs)" if "j < g_bitmap_blocks fs0" for j
        using bitmap_block_slice [OF g that, of "g_working_bm fs"] bm [OF that] len(1) wk(1) by simp
      ultimately have on3: "gfs_on_disk (disk c) fs3"
        using geom3 fields3(5) gen mp mpd other valid disk sb p01 unfolding gfs_on_disk_def fields3 lba3 p_def [symmetric] cm3 wk(1)
        by (auto simp: new_map bp_ok_def)
      have "log c = log (g_ctx fs0) @ ws @ vs" "disk c = apply_writes (ws @ vs) (disk (g_ctx fs0))"
        using vs(1,2) ws(1,2) by simp_all
      moreover have "geometry_of fs3 = geometry_of fs0"
        using l2(1) by (simp add: geometry_of_def fs3_def live_eq_iff)
      moreover have "g_ctx fs3 = c" "g_ops fs3 = ops" "g_generation fs3 = g_generation fs0 + 1"
        "length (g_working_bm fs3) = length (g_working_bm fs0)"
        using d2 l2(2) by (simp_all add: fs3_def)
      ultimately show ?thesis
        using ws(3) on3 dc vs1 unfolding outcome_def fs' p_def
        by (intro conjI exI [of _ "ws @ vs"]) auto
    qed
  qed
qed

lemma txn_commit_run:
  assumes on: "gfs_on_disk (disk (g_ctx fs0)) fs0" and gen: "g_generation fs0 + 1 < 2 ^ 64"
    and f: "frame (cow_target fs0) fs0 fs" and run: "txn_commit nd fs = Some (r, fs')"
  shows "outcome fs0 r fs'"
proof -
  let ?old = "bp_phys (g_nodemap fs)"
  have g: "geom_ok fs0" using on by (simp add: gfs_on_disk_def)
  have live: "live fs = live fs0" and len: "length (g_working_bm fs) = length (g_working_bm fs0)"
    using f by (auto simp: frame_def)
  have gfs: "u64 (g_generation fs + 1) = g_generation fs0 + 1" using live gen by (simp add: live_eq_iff)
  obtain r1 fs1 where al: "alloc_block fs = Some (r1, fs1)"
    by (cases "List.find (both_free fs) [data_first fs..<g_total_blocks fs]") (simp_all add: alloc_block_def)
  note A = alloc_block_Some [OF al]
  show ?thesis
  proof (cases r1)
    case (Inl e)
    then have "fs' = fs" using run A al by (auto simp: txn_commit_eq gget_def gbind_def)
    then show ?thesis using frame_outcome [OF frame_quiet [OF f]] by simp
  next
    case (Inr mp)
    then have mp: "data_first fs \<le> mp" "mp < g_total_blocks fs" "both_free fs mp"
      and fs1: "fs1 = fs\<lparr>g_working_bm := bm_set (g_working_bm fs) mp\<rparr>" using A by auto
    note T = frame_alloc [OF f mp]
    then have f1: "frame (cow_target fs0) fs0 fs1" and t: "cow_target fs0 mp" by (simp_all add: fs1)
    have d1: "dinv (g_ctx fs1)" "g_ops fs1 = ops" using f1 by (auto simp: frame_def)
    obtain r2 c where bw: "bwrite mp (g_map fs1) fs1 = Some (r2, fs1\<lparr>g_ctx := c\<rparr>)"
      using bwrite_fields [of mp "g_map fs1" fs1] by blast
    have f2: "frame (cow_target fs0) fs0 (fs1\<lparr>g_ctx := c\<rparr>)"
      using keepsD [OF keeps_bwrite, OF t f1 bw] .
    show ?thesis
    proof (cases r2)
      case (Inl e)
      then have "fs' = fs1\<lparr>g_ctx := c\<rparr>"
        using run al Inr bw by (auto simp: txn_commit_eq write_meta_def gget_def gbind_def gseq_def)
      then show ?thesis using frame_outcome [OF frame_quiet [OF f2]] by simp
    next
      case r2: (Inr u)
      define fs3 where "fs3 = free_block ?old (fs1\<lparr>g_ctx := c\<rparr>)"
      have f3: "frame (cow_target fs0) fs0 fs3"
        unfolding fs3_def by (rule frame_scratch [OF scratch_update_free_block f2])
      have dc: "disk c mp = g_map fs1" using bwrite_run [OF d1 bw] r2 by auto
      have run3: "commit_publish (g_generation fs0 + 1) \<lparr>bp_phys = mp, bp_crc = unat (crc32c (g_map fs1))\<rparr> nd fs3
          = Some (r, fs')"
        using run al Inr bw r2
        by (simp add: txn_commit_eq write_meta_def gget_def gbind_def gseq_def gmod_def gret_def gfs [simplified] fs3_def)
      have c3: "g_ctx fs3 = c" by (simp add: fs3_def free_block_def)
      have idx: "mp div 8 < length (g_working_bm fs)" "?old div 8 < length (bm_set (g_working_bm fs) mp)"
      proof -
        have n: "length (g_working_bm fs) = g_bm_bytes fs0" using g len by (simp add: geom_ok_def)
        have "mp < 8 * g_bm_bytes fs0" "?old < 8 * g_bm_bytes fs0"
          using geom_bounds(6) [OF g] mp(2) live on by (auto simp: live_eq_iff gfs_on_disk_def)
        then show "mp div 8 < length (g_working_bm fs)" "?old div 8 < length (bm_set (g_working_bm fs) mp)"
          by (auto simp: n)
      qed
      have "mp \<noteq> ?old" using mp(3) live on by (auto simp: both_free_def live_eq_iff gfs_on_disk_def)
      then have "bm_test (g_working_bm fs3) mp"
        using idx by (simp add: fs3_def free_block_def fs1)
      moreover have "data_first fs0 \<le> mp" "mp < g_total_blocks fs0" using t by (auto simp: cow_target_def)
      ultimately show ?thesis
        using commit_publish_run [OF on gen f3 _ _ _ _ run3] dc c3 by simp
    qed
  qed
qed

end

end
