(* ===== verification/Gfs_Crash.thy ===== *)
theory Gfs_Crash
  imports Gfs_Commit
begin

text \<open>
  Crash consistency of graphfs. Every mutating operation, whatever it returns, either leaves the
  live file system alone or replaces it by the next generation with its last block write. A
  mount of the disk after any prefix of the operation's writes therefore yields the old or the
  new file system, never a mixture.
\<close>

section \<open>The mutating operations as calls\<close>

datatype gfs_call =
    Call_node_create nat nat
  | Call_link nat "byte list" nat nat
  | Call_unlink nat "byte list"
  | Call_write nat nat "byte list"
  | Call_create_at nat "byte list" nat nat
  | Call_rename nat "byte list" nat "byte list"
  | Call_truncate nat nat

text \<open>The result is the node id or byte count, 0 for the operations that only report success.\<close>

fun gfs_exec :: "gfs_call \<Rightarrow> ('c, nat) gfs_m" where
  "gfs_exec (Call_node_create typ mode) = gfs_node_create typ mode"
| "gfs_exec (Call_link dir name target typ) = gseq (gfs_link dir name target typ) (gret 0)"
| "gfs_exec (Call_unlink dir name) = gseq (gfs_unlink dir name) (gret 0)"
| "gfs_exec (Call_write nid off src) = gfs_write nid off src"
| "gfs_exec (Call_create_at dir name typ mode) = gfs_create_at dir name typ mode"
| "gfs_exec (Call_rename olddir oldname newdir newname) = gseq (gfs_rename olddir oldname newdir newname) (gret 0)"
| "gfs_exec (Call_truncate nid sz) = gseq (gfs_truncate nid sz) (gret 0)"

named_theorems ends_intros \<open>operations that end in at most one publish\<close>

context block_dev
begin

definition ends :: "'c gfs \<Rightarrow> ('c, 'a) gfs_m \<Rightarrow> bool" where
  "ends fs0 m \<longleftrightarrow> (\<forall>fs r fs'. frame (cow_target fs0) fs0 fs \<longrightarrow> m fs = Some (r, fs') \<longrightarrow> outcome fs0 r fs')"

lemma keeps_ends: "keeps (cow_target fs0) fs0 m \<Longrightarrow> ends fs0 m"
  unfolding ends_def keeps_def using frame_outcome frame_quiet by blast

lemma ends_bind [ends_intros]:
  assumes m: "keeps (cow_target fs0) fs0 m" and f: "\<And>x. ends fs0 (f x)"
  shows "ends fs0 (gbind m f)"
  unfolding ends_def
proof (intro allI impI)
  fix fs r fs' assume fr: "frame (cow_target fs0) fs0 fs" and run: "gbind m f fs = Some (r, fs')"
  then consider (err) e where "m fs = Some (Inl e, fs')" "r = Inl e"
    | (ok) x fs1 where "m fs = Some (Inr x, fs1)" "f x fs1 = Some (r, fs')" by (auto simp: gbind_Some_iff)
  then show "outcome fs0 r fs'"
  proof cases
    case err
    then show ?thesis using frame_outcome [OF frame_quiet [OF keepsD [OF m fr err(1)]]] by simp
  next
    case ok
    then show ?thesis using f keepsD [OF m fr ok(1)] by (auto simp: ends_def)
  qed
qed

lemma ends_seq [ends_intros]:
  "keeps (cow_target fs0) fs0 m \<Longrightarrow> ends fs0 k \<Longrightarrow> ends fs0 (gseq m k)"
  unfolding gseq_def by (rule ends_bind)

lemma ends_get [ends_intros]: "(\<And>fs. ends fs0 (f fs)) \<Longrightarrow> ends fs0 (gget f)"
  unfolding ends_def gget_def by blast

lemma ends_if [ends_intros]: "ends fs0 a \<Longrightarrow> ends fs0 b \<Longrightarrow> ends fs0 (if c then a else b)"
  by simp

lemma ends_case_sum [ends_intros]:
  "(\<And>y. ends fs0 (a y)) \<Longrightarrow> (\<And>y. ends fs0 (b y)) \<Longrightarrow> ends fs0 (case x of Inl y \<Rightarrow> a y | Inr y \<Rightarrow> b y)"
  by (cases x) auto

lemma ends_case_prod [ends_intros]:
  "(\<And>y z. ends fs0 (a y z)) \<Longrightarrow> ends fs0 (case x of (y, z) \<Rightarrow> a y z)"
  by (cases x) auto

lemma outcome_isl: "outcome fs0 r fs \<Longrightarrow> isl r = isl r' \<Longrightarrow> outcome fs0 r' fs"
  by (simp add: outcome_def)

lemma ends_ret:
  assumes "ends fs0 m"
  shows "ends fs0 (gseq m (gret x))"
  unfolding ends_def
proof (intro allI impI)
  fix fs r fs' assume f: "frame (cow_target fs0) fs0 fs" and run: "gseq m (gret x) fs = Some (r, fs')"
  then obtain r1 where r1: "m fs = Some (r1, fs')" "isl r1 = isl r" by (auto simp: gseq_Some_iff gret_def)
  then have "outcome fs0 r1 fs'" using assms f by (auto simp: ends_def)
  then show "outcome fs0 r fs'" using r1(2) by (rule outcome_isl)
qed

lemma keeps_txn_begin:
  assumes "geom_ok fs0"
  shows "keeps (cow_target fs0) fs0 txn_begin"
  unfolding keeps_def
proof (intro allI impI)
  fix fs r fs' assume f: "frame (cow_target fs0) fs0 fs" and run: "txn_begin fs = Some (r, fs')"
  let ?u = "fs\<lparr>g_working_bm := bsplice 0 (bslice 0 (g_bm_bytes fs) (g_committed_bm fs)) (g_working_bm fs)\<rparr>"
  have "length (g_working_bm ?u) = length (g_working_bm fs)"
    using f assms by (auto simp: frame_def geom_ok_def live_eq_iff)
  then have u: "frame (cow_target fs0) fs0 ?u" using f by (simp add: frame_def)
  have rm: "keeps (cow_target fs0) fs0 (gbind (read_meta (g_nodemap fs) to_map) (\<lambda>_. gret ()))"
    by (intro keeps_intros keeps_blocks)
  show "frame (cow_target fs0) fs0 fs'"
  proof (cases "g_writable fs")
    case True
    then have "gbind (read_meta (g_nodemap fs) to_map) (\<lambda>_. gret ()) ?u = Some (r, fs')"
      using run by (simp add: txn_begin_def gget_def gfail_if_def gseq_mod) (simp add: gseq_def gbind_def gret_def gmod_def)
    then show ?thesis by (rule keepsD [OF rm u])
  next
    case False
    then show ?thesis using run f by (simp add: txn_begin_def gget_def gfail_if_def gseq_def gbind_def gfail_def)
  qed
qed

lemma keeps_trim:
  assumes "\<And>n'. keeps T fs0 (k n')"
  shows "keeps T fs0 (gget (\<lambda>fs. case trim_extents keep n fs of (n', fs') \<Rightarrow> gseq (gmod (\<lambda>_. fs')) (k n')))"
  unfolding keeps_def
proof (intro allI impI)
  fix fs r fs' assume f: "frame T fs0 fs"
    and run: "gget (\<lambda>fs. case trim_extents keep n fs of (n', fs') \<Rightarrow> gseq (gmod (\<lambda>_. fs')) (k n')) fs = Some (r, fs')"
  obtain n1 fs1 where t: "trim_extents keep n fs = (n1, fs1)" by fastforce
  then have "frame T fs0 fs1"
    using f scratch_updateD [OF scratch_update_trim, of keep n fs] by (simp add: frame_def)
  moreover have "k n1 fs1 = Some (r, fs')" using run t by (simp add: gget_def gseq_mod)
  ultimately show "frame T fs0 fs'" using keepsD [OF assms] by blast
qed

text \<open>From here on a mounted file system is fixed.\<close>

lemma ends_commit:
  assumes "gfs_on_disk (disk (g_ctx fs0)) fs0" "g_generation fs0 + 1 < 2 ^ 64"
  shows "ends fs0 (txn_commit nd)"
  unfolding ends_def using txn_commit_run [OF assms] by blast

lemma ends_rename_apply:
  assumes "gfs_on_disk (disk (g_ctx fs0)) fs0" "g_generation fs0 + 1 < 2 ^ 64"
  shows "ends fs0 (rename_apply olddir oldname newdir newname od ndn src sn dst)"
  unfolding rename_apply_def Let_def
  by (intro ends_intros ends_commit [OF assms] keeps_intros)

lemma gfs_exec_ends:
  assumes on: "gfs_on_disk (disk (g_ctx fs0)) fs0" and gen: "g_generation fs0 + 1 < 2 ^ 64"
  shows "ends fs0 (gfs_exec call)"
proof -
  have g: "geom_ok fs0" using on by (simp add: gfs_on_disk_def)
  note fin = ends_ret ends_intros ends_commit [OF on gen] ends_rename_apply [OF on gen]
  note pre = keeps_intros keeps_txn_begin [OF g] keeps_blocks
  show ?thesis
  proof (cases call)
    case (Call_node_create ty mode)
    show ?thesis unfolding Call_node_create gfs_exec.simps gfs_node_create_def
      by (rule fin | rule pre)+
  next
    case (Call_link dir name target ty)
    show ?thesis unfolding Call_link gfs_exec.simps gfs_link_def Let_def by (rule fin | rule pre)+
  next
    case (Call_unlink dir name)
    show ?thesis unfolding Call_unlink gfs_exec.simps gfs_unlink_def by (rule fin | rule pre)+
  next
    case (Call_write nid off src)
    show ?thesis unfolding Call_write gfs_exec.simps gfs_write_def Let_def
      by (rule fin | rule pre | rule keeps_ends)+
  next
    case (Call_create_at dir name ty mode)
    show ?thesis unfolding Call_create_at gfs_exec.simps gfs_create_at_def by (rule fin | rule pre)+
  next
    case (Call_rename olddir oldname newdir newname)
    show ?thesis unfolding Call_rename gfs_exec.simps gfs_rename_def Let_def
      by (rule fin | rule pre | rule keeps_ends)+
  next
    case (Call_truncate nid sz)
    show ?thesis unfolding Call_truncate gfs_exec.simps gfs_truncate_def Let_def
      by (rule keeps_trim | rule fin | rule pre | rule keeps_ends)+
  qed
qed

end

end
