(* ===== verification/Gfs_Recover.thy ===== *)
theory Gfs_Recover
  imports Gfs_Crash
begin

text \<open>
  Recovery of graphfs: on a device whose reads succeed, a disk that holds a file system mounts
  to exactly that file system. With the theory of the mutating operations this gives what a mount
  finds after a crash.
\<close>

section \<open>Reliable devices\<close>

locale reliable_dev = block_dev ops disk log dinv
  for ops :: "'c gfs_ops" and disk :: "'c \<Rightarrow> nat \<Rightarrow> byte list" and log :: "'c \<Rightarrow> write_log"
    and dinv :: "'c \<Rightarrow> bool" +
  fixes cap :: nat
  assumes dev_read_ok: "dinv c \<Longrightarrow> lba < cap \<Longrightarrow> fst (op_read ops c lba) \<noteq> None"

lemma gfor_append: "gfor (xs @ ys) f = gseq (gfor xs f) (gfor ys f)"
  by (rule ext, induction xs) (auto simp: gseq_def gbind_def gret_def split: sum.splits bind_splits)

lemma gbind_run: "m fs = Some (Inr x, fs1) \<Longrightarrow> gbind m f fs = f x fs1"
  by (simp add: gbind_def)

lemma gseq_run: "m fs = Some (Inr (), fs1) \<Longrightarrow> gseq m k fs = k fs1"
  by (simp add: gseq_def gbind_def)

lemma gfail_if_False: "\<not> c \<Longrightarrow> gseq (gfail_if c e) k = k"
  by (rule ext) (simp add: gseq_def gbind_def gfail_if_def gret_def)

lemma gtry_run: "m fs = Some (Inr x, fs1) \<Longrightarrow> gtry m fs = Some (Inr (Inr x), fs1)"
  by (simp add: gtry_def)

text \<open>The fields of a mount that the superblock does not give.\<close>

lemma gfs_on_disk_live:
  assumes "gfs_on_disk d fs" "live fs' = live fs" "length (g_working_bm fs') = length (g_working_bm fs)"
  shows "gfs_on_disk d fs'"
proof -
  have "bitmap_lba fs' = bitmap_lba fs" "data_first fs' = data_first fs" "gfs_sb fs' = gfs_sb fs"
    using assms(2) by (auto simp: live_eq_iff bitmap_lba_def [abs_def] data_first_def gfs_sb_def)
  then show ?thesis
    using assms geom_live [OF assms(2,3)] by (auto simp: gfs_on_disk_def live_eq_iff)
qed

section \<open>The superblock slots\<close>

definition slot_pick :: "(nat \<times> byte list) option \<Rightarrow> byte list \<Rightarrow> (nat \<times> byte list) option" where
  "slot_pick best blk = (case sb_valid blk of None \<Rightarrow> best
     | Some gen \<Rightarrow> (case best of None \<Rightarrow> Some (gen, blk)
         | Some (best_gen, chosen) \<Rightarrow> if gen > best_gen then Some (gen, blk) else best))"

lemma slot_pick_on_disk:
  assumes on: "gfs_on_disk d fs"
  shows "slot_pick (slot_pick None (d 0)) (d 1) = Some (g_generation fs, gfs_sb fs)"
proof -
  let ?g = "g_generation fs"
  have sb: "d (?g mod 2) = gfs_sb fs" "sb_valid (gfs_sb fs) = Some ?g"
    and other: "\<And>g. sb_valid (d (1 - ?g mod 2)) = Some g \<Longrightarrow> g < ?g"
    using on sb_image_valid by (auto simp: gfs_on_disk_def gfs_sb_def)
  show ?thesis
  proof (cases "?g mod 2 = 0")
    case True
    have "sb_valid (d 0) = Some ?g" using True sb by simp
    then have "slot_pick None (d 0) = Some (?g, gfs_sb fs)" using True sb(1) by (simp add: slot_pick_def)
    then show ?thesis using True other by (auto simp: slot_pick_def split: option.split)
  next
    case False
    then have one: "?g mod 2 = 1" by simp
    then have "sb_valid (d 1) = Some ?g" "d 1 = gfs_sb fs" using sb by simp_all
    moreover have "\<And>g. sb_valid (d 0) = Some g \<Longrightarrow> g < ?g" using other one by simp
    ultimately show ?thesis by (auto simp: slot_pick_def split: option.split)
  qed
qed

definition read_bitmap_body :: "nat \<Rightarrow> nat \<Rightarrow> ('c, unit) gfs_m" where
  "read_bitmap_body parity j =
       gget (\<lambda>fs. gbind (bread (bitmap_lba fs parity j) to_b) (\<lambda>_.
       gmod (\<lambda>fs. fs\<lparr>g_committed_bm := bsplice (u64 (j * GFS_BLOCK_SIZE))
         (bslice 0 (bitmap_chunk (g_bm_bytes fs) j) (g_b fs)) (g_committed_bm fs)\<rparr>)))"

lemma read_bitmap_eq:
  "read_bitmap parity = gget (\<lambda>fs. gfor [0..<g_bitmap_blocks fs] (read_bitmap_body parity))"
  by (simp add: read_bitmap_def read_bitmap_body_def [abs_def])

lemma geom_facts:
  assumes "geom_ok fs"
  shows "g_bitmap_start fs = 2" "2 + 2 * g_bitmap_blocks fs \<le> g_total_blocks fs" "g_total_blocks fs < 2 ^ 63"
    "2 \<le> g_node_count fs" "g_node_count fs \<le> GFS_MAX_NODES" "g_root_node fs = GFS_ROOT_NODE"
    "length (g_committed_bm fs) = g_bm_bytes fs" "length (g_working_bm fs) = g_bm_bytes fs"
    "g_bm_bytes fs = (g_total_blocks fs + 7) div 8"
  using assms unfolding geom_ok_def by blast+

lemma bitmap_lba_less:
  assumes "geom_ok fs" "p \<le> 1" "j < g_bitmap_blocks fs"
  shows "bitmap_lba fs p j < g_total_blocks fs"
proof -
  have "p * g_bitmap_blocks fs \<le> g_bitmap_blocks fs" using assms(2) by (cases p) auto
  then show ?thesis using bitmap_lba_eq [OF assms] geom_facts(2) [OF assms(1)] assms(3) by linarith
qed

lemma on_disk_facts:
  assumes "gfs_on_disk d fs"
  shows "geom_ok fs" "g_writable fs" "g_generation fs < 2 ^ 64" "bp_ok (g_nodemap fs)"
    "g_free_blocks fs < 2 ^ 64" "g_free_nodes fs < 2 ^ 64" "data_first fs \<le> bp_phys (g_nodemap fs)"
    "bp_phys (g_nodemap fs) < g_total_blocks fs" "unat (crc32c (d (bp_phys (g_nodemap fs)))) = bp_crc (g_nodemap fs)"
  using assms unfolding gfs_on_disk_def by blast+

definition with_sb :: "'d gfs \<Rightarrow> 'c gfs \<Rightarrow> 'c gfs" where
  "with_sb fs0 fs = fs\<lparr>g_generation := g_generation fs0, g_total_blocks := g_total_blocks fs0,
     g_node_count := g_node_count fs0, g_root_node := g_root_node fs0, g_bitmap_start := g_bitmap_start fs0,
     g_bitmap_blocks := g_bitmap_blocks fs0, g_nodemap := g_nodemap fs0, g_free_blocks := g_free_blocks fs0,
     g_free_nodes := g_free_nodes fs0\<rparr>"

lemma sb_decode_on_disk:
  assumes on: "gfs_on_disk d fs0"
  shows "sb_decode (gfs_sb fs0) fs = with_sb fs0 fs" "rd32 (gfs_sb fs0) SB_BM_CRC = unat (crc32c (g_committed_bm fs0))"
    "sb_geometry_ok (with_sb fs0 fs)"
proof -
  have g: "geom_ok fs0" using on by (simp add: gfs_on_disk_def)
  have b: "g_total_blocks fs0 < 2 ^ 64" "g_node_count fs0 < 2 ^ 64" "g_root_node fs0 < 2 ^ 64"
    "g_bitmap_start fs0 < 2 ^ 64" "g_bitmap_blocks fs0 < 2 ^ 64" "g_generation fs0 < 2 ^ 64" "bp_ok (g_nodemap fs0)"
    "unat (crc32c (g_committed_bm fs0)) < 2 ^ 32" "g_free_blocks fs0 < 2 ^ 64" "g_free_nodes fs0 < 2 ^ 64"
    using on_disk_facts [OF on] geom_facts(1-6) [OF g] unsigned_less [of "crc32c (g_committed_bm fs0)"] by simp_all
  note dec = sb_image_decode [OF b]
  show "sb_decode (gfs_sb fs0) fs = with_sb fs0 fs"
    unfolding sb_decode_def gfs_sb_def dec with_sb_def by simp
  show "rd32 (gfs_sb fs0) SB_BM_CRC = unat (crc32c (g_committed_bm fs0))"
    unfolding gfs_sb_def by (rule dec(7))
  have "data_first (with_sb fs0 fs) = data_first fs0" by (simp add: data_first_def with_sb_def)
  then show "sb_geometry_ok (with_sb fs0 fs)"
    using on_disk_facts(7,8) [OF on] geom_facts(1-6) [OF g] geom_bounds(1,2) [OF g]
    by (simp add: sb_geometry_ok_def with_sb_def)
qed

section \<open>Crashes\<close>

text \<open>A writable mount of the device with the work buffer \<open>w\<close> succeeds with this live state.\<close>

definition mounts_as :: "'c gfs_ops \<Rightarrow> 'c \<Rightarrow> byte list \<Rightarrow> live_state \<Rightarrow> bool" where
  "mounts_as ops c w lv \<longleftrightarrow> (\<exists>fs. gfs_mount ops c True (Some w) = Some (Inr (), fs) \<and> live fs = lv)"

text \<open>
  What may remain of a block write that the crash interrupts: nothing, or any block, except that a
  torn superblock does not pass for a valid superblock of the generation being published.
\<close>

definition torn_write :: "'c gfs \<Rightarrow> nat \<times> byte list \<Rightarrow> write_log \<Rightarrow> bool" where
  "torn_write fs wr torn \<longleftrightarrow> torn = [] \<or> (\<exists>junk. torn = [(fst wr, junk)]
     \<and> (fst wr < 2 \<longrightarrow> (\<forall>g. sb_valid junk = Some g \<longrightarrow> g < g_generation fs)))"

lemma gfs_on_disk_other_slot:
  assumes on: "gfs_on_disk d fs" and junk: "\<forall>g. sb_valid junk = Some g \<longrightarrow> g < g_generation fs"
  shows "gfs_on_disk (d((g_generation fs + 1) mod 2 := junk)) fs"
proof -
  let ?s = "(g_generation fs + 1) mod 2" and ?p = "g_generation fs mod 2"
  have g: "geom_ok fs" by (rule on_disk_facts(1) [OF on])
  have s: "?s = 1 - ?p" "?s \<noteq> ?p" "?s < 2" by presburger+
  have "2 \<le> bp_phys (g_nodemap fs)" using on_disk_facts(7) [OF on] geom_bounds(1) [OF g] by simp
  moreover have "bitmap_lba fs ?p j \<noteq> 1 - ?p" if "j < g_bitmap_blocks fs" for j
    using bitmap_lba_eq [OF g _ that, of ?p] by simp
  ultimately show ?thesis
    using on junk s unfolding gfs_on_disk_def by (auto simp: fun_upd_def)
qed

lemma torn_prefix_on_disk:
  assumes on: "gfs_on_disk d fs"
    and ws: "(\<forall>w \<in> set ws. quiet_target fs (fst w))
      \<or> (\<exists>ws1 blk. ws = ws1 @ [((g_generation fs + 1) mod 2, blk)] \<and> (\<forall>w \<in> set ws1. quiet_target fs (fst w)))"
    and n: "n < length ws" and torn: "torn_write fs (ws ! n) torn"
  shows "gfs_on_disk (apply_writes (take n ws @ torn) d) fs"
proof -
  have pre: "\<forall>w \<in> set (take n ws). quiet_target fs (fst w)"
    using ws n by (fastforce dest: in_set_takeD simp: take_Cons')
  have on': "gfs_on_disk (apply_writes (take n ws) d) fs" by (rule gfs_on_disk_quiet [OF on pre])
  show ?thesis
  proof (cases "torn = [] \<or> quiet_target fs (fst (ws ! n))")
    case True
    then have "\<forall>w \<in> set torn. quiet_target fs (fst w)" using torn by (auto simp: torn_write_def)
    then show ?thesis using gfs_on_disk_quiet [OF on'] by simp
  next
    case False
    then obtain junk where j: "torn = [(fst (ws ! n), junk)]"
      "fst (ws ! n) < 2 \<longrightarrow> (\<forall>g. sb_valid junk = Some g \<longrightarrow> g < g_generation fs)"
      using torn by (auto simp: torn_write_def)
    moreover have "fst (ws ! n) = (g_generation fs + 1) mod 2"
      using ws n False by (auto simp: nth_append less_Suc_eq)
    ultimately show ?thesis using gfs_on_disk_other_slot [OF on'] by simp
  qed
qed

section \<open>Reads that succeed\<close>

context reliable_dev
begin

lemma read_ok:
  assumes "dinv c" "lba < cap"
  obtains c' where "op_read ops c lba = (Some (disk c lba), c')" "dinv c'" "disk c' = disk c" "log c' = log c"
proof -
  obtain r c' where r: "op_read ops c lba = (r, c')" by fastforce
  then have "r \<noteq> None" using dev_read_ok [OF assms] by simp
  then show thesis using that dev_read [OF assms(1) r] r by auto
qed

lemma bread_ok:
  assumes "dinv (g_ctx fs)" "g_ops fs = ops" "lba < g_total_blocks fs" "g_total_blocks fs \<le> cap"
  obtains c where "bread lba put fs = Some (Inr (disk (g_ctx fs) lba), put (disk (g_ctx fs) lba) (fs\<lparr>g_ctx := c\<rparr>))"
    "dinv c" "disk c = disk (g_ctx fs)" "log c = log (g_ctx fs)"
proof -
  obtain c where "op_read ops (g_ctx fs) lba = (Some (disk (g_ctx fs) lba), c)" "dinv c"
    "disk c = disk (g_ctx fs)" "log c = log (g_ctx fs)"
    using read_ok [OF assms(1)] assms(3,4) by (metis le_trans not_le)
  then show thesis using that assms(2,3) by (simp add: bread_def)
qed

lemma read_meta_ok:
  assumes "dinv (g_ctx fs)" "g_ops fs = ops" "bp_phys bp < g_total_blocks fs" "g_total_blocks fs \<le> cap"
    "unat (crc32c (disk (g_ctx fs) (bp_phys bp))) = bp_crc bp"
  obtains c where "read_meta bp put fs
      = Some (Inr (disk (g_ctx fs) (bp_phys bp)), put (disk (g_ctx fs) (bp_phys bp)) (fs\<lparr>g_ctx := c\<rparr>))"
    "dinv c" "disk c = disk (g_ctx fs)" "log c = log (g_ctx fs)"
proof -
  obtain c where b: "bread (bp_phys bp) put fs
      = Some (Inr (disk (g_ctx fs) (bp_phys bp)), put (disk (g_ctx fs) (bp_phys bp)) (fs\<lparr>g_ctx := c\<rparr>))"
    and c: "dinv c" "disk c = disk (g_ctx fs)" "log c = log (g_ctx fs)"
    using bread_ok [OF assms(1-4)] by blast
  have "read_meta bp put fs
      = Some (Inr (disk (g_ctx fs) (bp_phys bp)), put (disk (g_ctx fs) (bp_phys bp)) (fs\<lparr>g_ctx := c\<rparr>))"
    using assms(5) b by (simp add: read_meta_def gbind_def gret_def)
  then show thesis using that c by blast
qed


lemma mount_slot_ok:
  assumes "dinv (g_ctx fs)" "g_ops fs = ops" "slot < cap"
  obtains c where "mount_slot slot best fs = Some (Inr (slot_pick best (disk (g_ctx fs) slot)),
          fs\<lparr>g_ctx := c, g_sb := disk (g_ctx fs) slot\<rparr>)"
    "dinv c" "disk c = disk (g_ctx fs)" "log c = log (g_ctx fs)"
proof -
  obtain c where "op_read ops (g_ctx fs) slot = (Some (disk (g_ctx fs) slot), c)" "dinv c"
    "disk c = disk (g_ctx fs)" "log c = log (g_ctx fs)" using read_ok [OF assms(1,3)] by blast
  then show thesis using that assms(2) by (simp add: mount_slot_def slot_pick_def)
qed

lemma mount_slots_ok:
  assumes d: "dinv (g_ctx fs)" "g_ops fs = ops" and cap: "2 \<le> cap" and on: "gfs_on_disk (disk (g_ctx fs)) fs0"
  obtains c blk where "gfold mount_slot [0, 1] None fs
      = Some (Inr (Some (g_generation fs0, gfs_sb fs0)), fs\<lparr>g_ctx := c, g_sb := blk\<rparr>)"
    "dinv c" "disk c = disk (g_ctx fs)" "log c = log (g_ctx fs)"
proof -
  let ?d = "disk (g_ctx fs)"
  have cap0: "0 < cap" "1 < cap" using cap by simp_all
  obtain c1 where s1: "mount_slot 0 None fs = Some (Inr (slot_pick None (?d 0)), fs\<lparr>g_ctx := c1, g_sb := ?d 0\<rparr>)"
    and c1: "dinv c1" "disk c1 = ?d" "log c1 = log (g_ctx fs)"
    using mount_slot_ok [OF d cap0(1)] by blast
  define fs1 where "fs1 = fs\<lparr>g_ctx := c1, g_sb := ?d 0\<rparr>"
  have fs1: "dinv (g_ctx fs1)" "g_ops fs1 = ops" "disk (g_ctx fs1) = ?d" "log (g_ctx fs1) = log (g_ctx fs)"
    using d c1 by (simp_all add: fs1_def)
  obtain c2 where s2: "mount_slot 1 (slot_pick None (?d 0)) fs1
      = Some (Inr (slot_pick (slot_pick None (?d 0)) (?d 1)), fs1\<lparr>g_ctx := c2, g_sb := ?d 1\<rparr>)"
    and c2: "dinv c2" "disk c2 = ?d" "log c2 = log (g_ctx fs)"
    using mount_slot_ok [OF fs1(1,2) cap0(2)] fs1(3,4) by metis
  have "gfold mount_slot [0, 1] None fs = Some (Inr (slot_pick (slot_pick None (?d 0)) (?d 1)),
      fs1\<lparr>g_ctx := c2, g_sb := ?d 1\<rparr>)"
    using s1 s2 [unfolded fs1_def] by (simp add: gbind_def gret_def fs1_def)
  moreover have "fs1\<lparr>g_ctx := c2, g_sb := ?d 1\<rparr> = fs\<lparr>g_ctx := c2, g_sb := ?d 1\<rparr>" by (simp add: fs1_def)
  ultimately show thesis using that [of "?d 1" c2] slot_pick_on_disk [OF on] c2 by simp
qed

section \<open>The bitmap\<close>

lemma read_bitmap_step:
  assumes d: "dinv (g_ctx fs)" "g_ops fs = ops" and cap: "g_total_blocks fs \<le> cap"
    and lba: "bitmap_lba fs p j < g_total_blocks fs"
  obtains c where "read_bitmap_body p j fs = Some (Inr (), fs\<lparr>g_ctx := c, g_b := disk (g_ctx fs) (bitmap_lba fs p j),
      g_committed_bm := bsplice (u64 (j * 4096)) (bslice 0 (bitmap_chunk (g_bm_bytes fs) j)
         (disk (g_ctx fs) (bitmap_lba fs p j))) (g_committed_bm fs)\<rparr>)"
    "dinv c" "disk c = disk (g_ctx fs)" "log c = log (g_ctx fs)"
proof -
  obtain c where "bread (bitmap_lba fs p j) to_b fs = Some (Inr (disk (g_ctx fs) (bitmap_lba fs p j)),
      fs\<lparr>g_ctx := c, g_b := disk (g_ctx fs) (bitmap_lba fs p j)\<rparr>)"
    "dinv c" "disk c = disk (g_ctx fs)" "log c = log (g_ctx fs)"
    using bread_ok [OF d lba cap] by blast
  then show thesis using that by (simp add: read_bitmap_body_def gget_def gbind_def gmod_def)
qed

lemma read_bitmap_loop:
  assumes d: "dinv (g_ctx fs)" "g_ops fs = ops" and cap: "g_total_blocks fs \<le> cap"
    and g: "geom_ok fs0" and p: "p \<le> 1"
    and same: "g_total_blocks fs = g_total_blocks fs0" "g_bitmap_start fs = g_bitmap_start fs0"
      "g_bitmap_blocks fs = g_bitmap_blocks fs0" "g_bm_bytes fs = g_bm_bytes fs0"
      "length (g_committed_bm fs) = g_bm_bytes fs0"
    and on: "\<forall>j < g_bitmap_blocks fs0. bslice 0 (bitmap_chunk (g_bm_bytes fs0) j) (disk (g_ctx fs) (bitmap_lba fs0 p j))
      = bslice (j * 4096) (bitmap_chunk (g_bm_bytes fs0) j) C"
    and C: "length C = g_bm_bytes fs0"
    and k: "k \<le> g_bitmap_blocks fs0"
  shows "\<exists>c b w. gfor [0..<k] (read_bitmap_body p) fs = Some (Inr (), fs\<lparr>g_ctx := c, g_b := b, g_committed_bm := w\<rparr>)
    \<and> dinv c \<and> disk c = disk (g_ctx fs) \<and> log c = log (g_ctx fs) \<and> length w = g_bm_bytes fs0
    \<and> take (min (k * 4096) (g_bm_bytes fs0)) w = take (min (k * 4096) (g_bm_bytes fs0)) C"
  using k
proof (induction k)
  case 0
  have "gfor [0..<0] (read_bitmap_body p) fs = Some (Inr (), fs\<lparr>g_ctx := g_ctx fs, g_b := g_b fs,
      g_committed_bm := g_committed_bm fs\<rparr>)" by (simp add: gret_def)
  then show ?case using d same by (intro exI conjI) (assumption | simp)+
next
  case (Suc k)
  let ?n = "g_bm_bytes fs0" and ?ch = "bitmap_chunk (g_bm_bytes fs0) k" and ?lba = "bitmap_lba fs0 p k"
  obtain c b w where run: "gfor [0..<k] (read_bitmap_body p) fs = Some (Inr (), fs\<lparr>g_ctx := c, g_b := b, g_committed_bm := w\<rparr>)"
    and c: "dinv c" "disk c = disk (g_ctx fs)" "log c = log (g_ctx fs)" and w: "length w = ?n"
      "take (min (k * 4096) ?n) w = take (min (k * 4096) ?n) C"
    using Suc by auto
  have k: "k < g_bitmap_blocks fs0" using Suc by simp
  note ch = bitmap_chunk_eq [OF g k]
  define fs1 where "fs1 = fs\<lparr>g_ctx := c, g_b := b, g_committed_bm := w\<rparr>"
  have lba: "bitmap_lba fs1 p k = ?lba" using same by (simp add: fs1_def bitmap_lba_def)
  have "?lba < g_total_blocks fs1" using bitmap_lba_less [OF g p k] same(1) by (simp add: fs1_def)
  then obtain c1 where s: "read_bitmap_body p k fs1 = Some (Inr (), fs1\<lparr>g_ctx := c1, g_b := disk c ?lba,
      g_committed_bm := bsplice (k * 4096) (bslice 0 ?ch (disk c ?lba)) w\<rparr>)"
    and c1: "dinv c1" "disk c1 = disk c" "log c1 = log c"
    using read_bitmap_step [of fs1 p k] c(1) d(2) cap same lba ch(3) by (auto simp: fs1_def)
  let ?w = "bsplice (k * 4096) (bslice 0 ?ch (disk c ?lba)) w"
  have piece: "bslice 0 ?ch (disk c ?lba) = bslice (k * 4096) ?ch C" using on k c(2) by simp
  have len: "k * 4096 + ?ch \<le> ?n" and le: "min (Suc k * 4096) ?n = k * 4096 + ?ch" "min (k * 4096) ?n = k * 4096"
    using ch(1,2) by auto
  have "length ?w = ?n" unfolding piece using w(1) C len by simp
  moreover have "take (k * 4096 + ?ch) ?w = take (k * 4096 + ?ch) C"
    unfolding piece using w C len le(2) by (auto simp: bsplice_def bslice_def take_add)
  moreover have "gfor [0..<Suc k] (read_bitmap_body p) fs
      = Some (Inr (), fs\<lparr>g_ctx := c1, g_b := disk c ?lba, g_committed_bm := ?w\<rparr>)"
    using run s by (simp add: gfor_append gseq_run fs1_def gseq_def gbind_def gret_def)
  ultimately show ?case using c c1 le(1) by (intro exI conjI) (assumption | simp)+
qed

lemma read_bitmap_ok:
  assumes d: "dinv (g_ctx fs)" "g_ops fs = ops" and cap: "g_total_blocks fs0 \<le> cap"
    and on: "gfs_on_disk (disk (g_ctx fs)) fs0"
    and same: "g_total_blocks fs = g_total_blocks fs0" "g_bitmap_start fs = g_bitmap_start fs0"
      "g_bitmap_blocks fs = g_bitmap_blocks fs0" "g_bm_bytes fs = g_bm_bytes fs0"
      "length (g_committed_bm fs) = g_bm_bytes fs0"
  obtains c b where "read_bitmap (g_generation fs0 mod 2) fs
      = Some (Inr (), fs\<lparr>g_ctx := c, g_b := b, g_committed_bm := g_committed_bm fs0\<rparr>)"
    "dinv c" "disk c = disk (g_ctx fs)" "log c = log (g_ctx fs)"
proof -
  let ?n = "g_bm_bytes fs0" and ?k = "g_bitmap_blocks fs0"
  have g: "geom_ok fs0" by (rule on_disk_facts(1) [OF on])
  have C: "length (g_committed_bm fs0) = ?n" by (rule geom_facts(7) [OF g])
  have n: "min (?k * 4096) ?n = ?n" using geom_bounds(5) [OF g] by simp
  have p: "g_generation fs0 mod 2 \<le> 1" by auto
  have bits: "\<forall>j < ?k. bslice 0 (bitmap_chunk ?n j) (disk (g_ctx fs) (bitmap_lba fs0 (g_generation fs0 mod 2) j))
      = bslice (j * 4096) (bitmap_chunk ?n j) (g_committed_bm fs0)" using on by (simp add: gfs_on_disk_def)
  obtain c b w where run: "gfor [0..<?k] (read_bitmap_body (g_generation fs0 mod 2)) fs
      = Some (Inr (), fs\<lparr>g_ctx := c, g_b := b, g_committed_bm := w\<rparr>)"
    and c: "dinv c" "disk c = disk (g_ctx fs)" "log c = log (g_ctx fs)" and w: "length w = ?n"
      "take (min (?k * 4096) ?n) w = take (min (?k * 4096) ?n) (g_committed_bm fs0)"
    using read_bitmap_loop [OF d _ g p same bits C order_refl] cap same(1) by auto
  have "w = g_committed_bm fs0" using w C unfolding n by simp
  then show thesis using that run c same(3) by (simp add: read_bitmap_eq gget_def)
qed

lemma gfs_mount_bitmaps_ok:
  assumes d: "dinv (g_ctx fs)" "g_ops fs = ops" and cap: "g_total_blocks fs0 \<le> cap"
    and on: "gfs_on_disk (disk (g_ctx fs)) fs0" and w: "gfs_mount_work_size (g_total_blocks fs0) \<le> length w"
    and fs: "fs = with_sb fs0 fs" "g_writable fs"
  obtains fs' where "gfs_mount_bitmaps (gfs_sb fs0) (Some w) fs = Some (Inr (), fs')" "live fs' = live fs0"
    "g_ops fs' = ops" "dinv (g_ctx fs')" "disk (g_ctx fs') = disk (g_ctx fs)" "log (g_ctx fs') = log (g_ctx fs)"
    "g_working_bm fs' = g_committed_bm fs0"
proof -
  let ?n = "g_bm_bytes fs0"
  have g: "geom_ok fs0" and wr: "g_writable fs0" using on_disk_facts [OF on] by blast+
  have C: "length (g_committed_bm fs0) = ?n" by (rule geom_facts(7) [OF g])
  have same: "g_total_blocks fs = g_total_blocks fs0" "g_bitmap_start fs = g_bitmap_start fs0"
    "g_bitmap_blocks fs = g_bitmap_blocks fs0" "g_generation fs = g_generation fs0"
    by (subst fs(1), simp add: with_sb_def)+
  have t: "g_total_blocks fs0 < 2 ^ 63" "?n = (g_total_blocks fs0 + 7) div 8" using geom_facts(3,9) [OF g] by blast+
  then have n: "bm_size (g_total_blocks fs) = ?n" unfolding same bm_size_def by simp
  have "2 * ?n \<le> length w" using w n t by (simp add: gfs_mount_work_size_def same u64_def)
  then have lw: "length (bslice 0 ?n w) = ?n" "length (bslice ?n ?n w) = ?n" by simp_all
  define fs1 where "fs1 = fs\<lparr>g_bm_bytes := ?n, g_committed_bm := bslice 0 ?n w, g_working_bm := bslice ?n ?n w\<rparr>"
  have f1: "dinv (g_ctx fs1)" "g_ops fs1 = ops" "gfs_on_disk (disk (g_ctx fs1)) fs0"
    "g_total_blocks fs1 = g_total_blocks fs0" "g_bitmap_start fs1 = g_bitmap_start fs0"
    "g_bitmap_blocks fs1 = g_bitmap_blocks fs0" "g_bm_bytes fs1 = ?n"
    using d on same by (simp_all add: fs1_def)
  have f1': "length (g_committed_bm fs1) = ?n" using lw(1) by (simp add: fs1_def)
  obtain c b where rb: "read_bitmap (g_generation fs0 mod 2) fs1
      = Some (Inr (), fs1\<lparr>g_ctx := c, g_b := b, g_committed_bm := g_committed_bm fs0\<rparr>)"
    and c: "dinv c" "disk c = disk (g_ctx fs1)" "log c = log (g_ctx fs1)"
    using read_bitmap_ok [OF f1(1,2) cap f1(3-7) f1'] by blast
  define fs2 where "fs2 = fs1\<lparr>g_ctx := c, g_b := b, g_committed_bm := g_committed_bm fs0, g_working_bm := g_committed_bm fs0\<rparr>"
  have "bsplice 0 (bslice 0 ?n (g_committed_bm fs0)) (bslice ?n ?n w) = g_committed_bm fs0"
    using C lw by (simp add: slice_whole splice_all)
  moreover have "\<not> length w < gfs_mount_work_size (g_total_blocks fs)" using w same(1) by simp
  moreover have "unat (crc32c (g_committed_bm fs0)) = rd32 (gfs_sb fs0) SB_BM_CRC"
    using sb_decode_on_disk(2) [OF on] by simp
  ultimately have "gfs_mount_bitmaps (gfs_sb fs0) (Some w) fs = Some (Inr (), fs2)"
    using rb by (simp add: gfs_mount_bitmaps_def gget_def gfail_if_False gseq_mod Let_def n same(4) gseq_run
        flip: fs1_def) (simp add: gseq_def gbind_def gget_def gfail_if_def gret_def gmod_def fs2_def fs1_def)
  moreover have "live fs2 = live fs0"
    unfolding fs2_def fs1_def by (subst fs(1)) (use wr fs(2) in \<open>simp add: live_def with_sb_def\<close>)
  ultimately show thesis using that [of fs2] c d by (simp add: fs2_def fs1_def)
qed

text \<open>A disk that holds a file system mounts to that file system.\<close>

lemma gfs_mount_ok:
  assumes d: "dinv c" and cap: "g_total_blocks fs0 \<le> cap" and on: "gfs_on_disk (disk c) fs0"
    and w: "gfs_mount_work_size (g_total_blocks fs0) \<le> length w"
  obtains fs where "gfs_mount ops c True (Some w) = Some (Inr (), fs)" "live fs = live fs0" "g_ops fs = ops"
    "dinv (g_ctx fs)" "disk (g_ctx fs) = disk c" "log (g_ctx fs) = log c" "gfs_on_disk (disk (g_ctx fs)) fs"
proof -
  let ?fs = "gfs_blank ops c" and ?s = "gfs_sb fs0"
  have g: "geom_ok fs0" by (rule on_disk_facts(1) [OF on])
  have b0: "g_ctx ?fs = c" "g_ops ?fs = ops" by (simp_all add: gfs_blank_def)
  have cap2: "2 \<le> cap" using geom_facts(2) [OF g] cap by simp
  obtain c1 blk where s1: "gfold mount_slot [0, 1] None ?fs
      = Some (Inr (Some (g_generation fs0, ?s)), ?fs\<lparr>g_ctx := c1, g_sb := blk\<rparr>)"
    and c1: "dinv c1" "disk c1 = disk c" "log c1 = log c"
    using mount_slots_ok [of ?fs fs0] d on cap2 b0 by metis
  define fs1 where "fs1 = with_sb fs0 (?fs\<lparr>g_ctx := c1, g_sb := blk\<rparr>)"
  have f1: "g_ctx fs1 = c1" "g_ops fs1 = ops" "g_nodemap fs1 = g_nodemap fs0" "g_total_blocks fs1 = g_total_blocks fs0"
    by (simp_all add: fs1_def with_sb_def gfs_blank_def)
  obtain c2 where s2: "read_meta (g_nodemap fs0) to_map fs1 = Some (Inr (disk c (bp_phys (g_nodemap fs0))),
      fs1\<lparr>g_ctx := c2, g_map := disk c (bp_phys (g_nodemap fs0))\<rparr>)"
    and c2: "dinv c2" "disk c2 = disk c" "log c2 = log c"
    using read_meta_ok [of fs1 "g_nodemap fs0" to_map] f1 c1 on_disk_facts(8,9) [OF on] cap by auto
  define fs2 where "fs2 = fs1\<lparr>g_ctx := c2, g_map := disk c (bp_phys (g_nodemap fs0)), g_writable := True\<rparr>"
  have f2: "fs2 = with_sb fs0 fs2" by (simp add: fs2_def fs1_def with_sb_def)
  obtain fs3 where s3: "gfs_mount_bitmaps ?s (Some w) fs2 = Some (Inr (), fs3)" and l: "live fs3 = live fs0"
    and f3: "g_ops fs3 = ops" "dinv (g_ctx fs3)" "disk (g_ctx fs3) = disk c" "log (g_ctx fs3) = log c"
      "g_working_bm fs3 = g_committed_bm fs0"
    using gfs_mount_bitmaps_ok [of fs2 fs0 w] f2 f1 c2 cap on w by (auto simp: fs2_def)
  have dec: "sb_decode ?s (?fs\<lparr>g_ctx := c1, g_sb := blk\<rparr>) = fs1" and geo: "sb_geometry_ok fs1"
    unfolding fs1_def by (rule sb_decode_on_disk [OF on])+
  have "gfs_mount ops c True (Some w) = gfs_mount_bitmaps ?s (Some w) fs2"
    unfolding gfs_mount_def gfs_mount_body_def
    by (subst gbind_run, rule s1)
      (simp add: gseq_mod gget_def dec geo gfail_if_False f1(3), simp add: gbind_def gtry_def s2 gseq_mod fs2_def)
  moreover have "gfs_on_disk (disk (g_ctx fs3)) fs3"
    using gfs_on_disk_live [OF on l] f3(3,5) geom_facts(7,8) [OF g] by simp
  ultimately show thesis using that s3 l f3 by simp
qed

text \<open>The state of the disk after a crash: the writes up to the \<open>n\<close>-th, and possibly a torn write after them.\<close>

lemma crash_before_publish:
  assumes d: "dinv (g_ctx fs0)" "g_ops fs0 = ops" and cap: "g_total_blocks fs0 \<le> cap"
    and on: "gfs_on_disk (disk (g_ctx fs0)) fs0" and gen: "g_generation fs0 + 1 < 2 ^ 64"
    and run: "gfs_exec call fs0 = Some (r, fs1)" and log: "log (g_ctx fs1) = log (g_ctx fs0) @ ws"
    and n: "n < length ws" and torn: "torn_write fs0 (ws ! n) torn"
    and c: "dinv c" "disk c = apply_writes (take n ws @ torn) (disk (g_ctx fs0))"
    and w: "gfs_mount_work_size (g_total_blocks fs0) \<le> length w"
  shows "mounts_as ops c w (live fs0)"
proof -
  have "outcome fs0 r fs1"
    using gfs_exec_ends [OF on gen] frame_refl [OF d(2,1)] run unfolding ends_def by blast
  then have "(\<forall>w \<in> set ws. quiet_target fs0 (fst w))
      \<or> (\<exists>ws1 blk. ws = ws1 @ [((g_generation fs0 + 1) mod 2, blk)] \<and> (\<forall>w \<in> set ws1. quiet_target fs0 (fst w)))"
    using log by (auto simp: outcome_def)
  then have "gfs_on_disk (disk c) fs0" unfolding c(2) by (rule torn_prefix_on_disk [OF on _ n torn])
  then show ?thesis using gfs_mount_ok [OF c(1) cap _ w] by (metis mounts_as_def)
qed

lemma crash_after_publish:
  assumes d: "dinv (g_ctx fs0)" "g_ops fs0 = ops" and cap: "g_total_blocks fs0 \<le> cap"
    and on: "gfs_on_disk (disk (g_ctx fs0)) fs0" and gen: "g_generation fs0 + 1 < 2 ^ 64"
    and run: "gfs_exec call fs0 = Some (Inr x, fs1)"
    and c: "dinv c" "disk c = disk (g_ctx fs1)"
    and w: "gfs_mount_work_size (g_total_blocks fs0) \<le> length w"
  shows "gfs_on_disk (disk (g_ctx fs1)) fs1" "mounts_as ops c w (live fs1)"
proof -
  have o: "outcome fs0 (Inr x) fs1"
    using gfs_exec_ends [OF on gen] frame_refl [OF d(2,1)] run unfolding ends_def by blast
  have len: "length (g_working_bm fs1) = length (g_working_bm fs0)" using o by (simp add: outcome_def)
  have 1: "gfs_on_disk (disk (g_ctx fs1)) fs1 \<and> g_total_blocks fs1 = g_total_blocks fs0"
  proof (cases "gfs_on_disk (disk (g_ctx fs1)) fs1 \<and> geometry_of fs1 = geometry_of fs0")
    case True
    then show ?thesis by (simp add: geometry_of_def)
  next
    case False
    then obtain ws where "live fs1 = live fs0" "\<forall>w \<in> set ws. quiet_target fs0 (fst w)"
      "disk (g_ctx fs1) = apply_writes ws (disk (g_ctx fs0))" using o by (auto simp: outcome_def)
    then show ?thesis using gfs_on_disk_live [OF gfs_on_disk_quiet [OF on] _ len, of ws] by (simp add: live_eq_iff)
  qed
  then show "gfs_on_disk (disk (g_ctx fs1)) fs1" by blast
  show "mounts_as ops c w (live fs1)"
    using gfs_mount_ok [OF c(1), of fs1 w] 1 c(2) cap w by (metis mounts_as_def)
qed

end

end
