(* ===== verification/Gfs_Mkfs.thy ===== *)
theory Gfs_Mkfs
  imports Gfs_Recover
begin

text \<open>
  What \<^verbatim>\<open>gfs_mkfs\<close> leaves on the disk: a file system of generation 1 whose bitmap marks exactly
  the blocks of the format and of the root table as used.
\<close>

lemma gret_Some_iff: "gret x fs = Some (r, fs') \<longleftrightarrow> r = Inr x \<and> fs' = fs"
  by (auto simp: gret_def)

section \<open>The bitmap of a fresh file system\<close>

definition mkfs_bm :: "nat \<Rightarrow> nat \<Rightarrow> nat \<Rightarrow> nat \<Rightarrow> byte list" where
  "mkfs_bm tot up n bb = concat (map (\<lambda>j. bslice 0 (bitmap_chunk n j) (mkfs_bitmap_block tot up j)) [0..<bb])"

lemma mkfs_bitmap_fold:
  assumes "m \<le> 32768"
  shows "length (fold (\<lambda>bit blk. let b = j * 32768 + bit in if b < tot \<and> b < up then bm_set blk bit else blk)
       [0..<m] (zeros 4096)) = 4096
    \<and> (\<forall>i < 32768. bm_test (fold (\<lambda>bit blk. let b = j * 32768 + bit in if b < tot \<and> b < up then bm_set blk bit else blk)
       [0..<m] (zeros 4096)) i \<longleftrightarrow> i < m \<and> j * 32768 + i < tot \<and> j * 32768 + i < up)"
  using assms
proof (induction m)
  case 0
  have "\<not> bm_test (zeros 4096) i" if "i < 32768" for i
    using bm_test_replicate_zero [of i 4096] that by (simp only: zeros_def) simp
  then show ?case by simp
next
  case (Suc m)
  let ?f = "\<lambda>m. fold (\<lambda>bit blk. let b = j * 32768 + bit in if b < tot \<and> b < up then bm_set blk bit else blk)
       [0..<m] (zeros 4096)"
  have IH: "length (?f m) = 4096" "\<forall>i < 32768. bm_test (?f m) i \<longleftrightarrow> i < m \<and> j * 32768 + i < tot \<and> j * 32768 + i < up"
    using Suc by simp_all
  have step: "?f (Suc m) = (if j * 32768 + m < tot \<and> j * 32768 + m < up then bm_set (?f m) m else ?f m)"
    by (simp add: Let_def)
  have "m div 8 < length (?f m)" using Suc.prems IH(1) by simp
  then show ?case unfolding step using IH by (auto simp: less_Suc_eq)
qed

lemma mkfs_bitmap_block:
  "length (mkfs_bitmap_block tot up j) = 4096"
  "i < 32768 \<Longrightarrow> bm_test (mkfs_bitmap_block tot up j) i \<longleftrightarrow> j * 32768 + i < tot \<and> j * 32768 + i < up"
  using mkfs_bitmap_fold [of 32768 j tot up] by (auto simp: mkfs_bitmap_block_def)

lemma mkfs_bm_prefix:
  assumes "geom_ok fs" "k \<le> g_bitmap_blocks fs"
  shows "length (mkfs_bm tot up (g_bm_bytes fs) k) = min (k * 4096) (g_bm_bytes fs)"
  using assms(2)
proof (induction k)
  case 0
  then show ?case by (simp add: mkfs_bm_def)
next
  case (Suc k)
  then have k: "k < g_bitmap_blocks fs" by simp
  have "length (mkfs_bm tot up (g_bm_bytes fs) (Suc k))
      = length (mkfs_bm tot up (g_bm_bytes fs) k) + bitmap_chunk (g_bm_bytes fs) k"
    using bitmap_chunk_eq(1) [OF assms(1) k] by (simp add: mkfs_bm_def mkfs_bitmap_block)
  then show ?case using Suc bitmap_chunk_eq(1,2) [OF assms(1) k] by auto
qed

lemma mkfs_bm_slice:
  assumes g: "geom_ok fs" and j: "j < g_bitmap_blocks fs"
  shows "bslice (j * 4096) (bitmap_chunk (g_bm_bytes fs) j) (mkfs_bm tot up (g_bm_bytes fs) (g_bitmap_blocks fs))
    = bslice 0 (bitmap_chunk (g_bm_bytes fs) j) (mkfs_bitmap_block tot up j)"
proof -
  let ?n = "g_bm_bytes fs" and ?k = "g_bitmap_blocks fs"
  let ?f = "\<lambda>j. bslice 0 (bitmap_chunk ?n j) (mkfs_bitmap_block tot up j)"
  have "[0..<?k] = [0..<j] @ j # [Suc j..<?k]"
    using j upt_add_eq_append [of 0 j "?k - j"] upt_conv_Cons [of j ?k] by simp
  then have "mkfs_bm tot up ?n ?k = mkfs_bm tot up ?n j @ ?f j @ concat (map ?f [Suc j..<?k])"
    by (simp add: mkfs_bm_def)
  moreover have "length (mkfs_bm tot up ?n j) = j * 4096"
    using mkfs_bm_prefix [OF g, of j] bitmap_chunk_eq(2) [OF g j] j by simp
  moreover have "length (?f j) = bitmap_chunk ?n j"
    using bitmap_chunk_eq(1) [OF g j] by (simp add: mkfs_bitmap_block)
  ultimately show ?thesis by (simp add: bslice_def)
qed

lemma bit_block_index:
  fixes i :: nat
  shows "i div 8 = i div 32768 * 4096 + i mod 32768 div 8" "i mod 32768 mod 8 = i mod 8" "i mod 32768 div 8 < 4096"
    "i = i div 32768 * 32768 + i mod 32768"
proof -
  show 1: "i = i div 32768 * 32768 + i mod 32768" by (rule div_mult_mod_eq [symmetric])
  have "i div 8 = (i mod 32768 + i div 32768 * 4096 * 8) div 8" by (subst 1) (simp only: mult.assoc add.commute, simp)
  also have "\<dots> = i div 32768 * 4096 + i mod 32768 div 8" by (subst div_mult_self1) simp_all
  finally show "i div 8 = i div 32768 * 4096 + i mod 32768 div 8" .
  show "i mod 32768 mod 8 = i mod 8" by (rule mod_mod_cancel) simp
  have "i mod 32768 < 4096 * 8" by simp
  then show "i mod 32768 div 8 < 4096" by (rule less_mult_imp_div_less)
qed

lemma mkfs_bm_test:
  assumes g: "geom_ok fs" and i: "i < g_total_blocks fs"
  shows "bm_test (mkfs_bm (g_total_blocks fs) up (g_bm_bytes fs) (g_bitmap_blocks fs)) i \<longleftrightarrow> i < up"
proof -
  let ?n = "g_bm_bytes fs" and ?k = "g_bitmap_blocks fs" and ?j = "i div 32768" and ?r = "i mod 32768"
  let ?bm = "mkfs_bm (g_total_blocks fs) up ?n ?k" and ?blk = "mkfs_bitmap_block (g_total_blocks fs) up ?j"
  note i8 = bit_block_index [of i]
  have n: "i div 8 < ?n" using i geom_bounds(6) [OF g] by linarith
  have j: "?j < ?k" using n i8(1) geom_bounds(5) [OF g] by linarith
  note ch = bitmap_chunk_eq [OF g j]
  have r: "?r div 8 < bitmap_chunk ?n ?j" using n i8(1,3) ch(1) by linarith
  have len: "length ?bm = ?n" using mkfs_bm_prefix [OF g order_refl] geom_bounds(5) [OF g] by simp
  have "?bm ! (i div 8) = bslice (?j * 4096) (bitmap_chunk ?n ?j) ?bm ! (?r div 8)"
    using r n len i8(1) by (subst nth_slice) auto
  also have "\<dots> = ?blk ! (?r div 8)"
    unfolding mkfs_bm_slice [OF g j] using r i8(3) by (subst nth_slice) (auto simp: mkfs_bitmap_block)
  finally have "bm_test ?bm i \<longleftrightarrow> bm_test ?blk ?r" by (simp add: bm_test_bit i8(2))
  also have "\<dots> \<longleftrightarrow> i < up" using mkfs_bitmap_block(2) [of ?r "g_total_blocks fs" up ?j] i i8(4) by simp
  finally show ?thesis .
qed

section \<open>The fresh file system\<close>

definition mkfs_bitmap_blocks :: "nat \<Rightarrow> nat" where
  "mkfs_bitmap_blocks tot = ((tot + 7) div 8 + 4095) div 4096"

definition mkfs_root_table :: "byte list" where
  "mkfs_root_table = bsplice (GFS_ROOT_NODE * GFS_NODE_SIZE) (node_encode mkfs_root) (zeros GFS_BLOCK_SIZE)"

definition mkfs_node_map :: "nat \<Rightarrow> byte list" where
  "mkfs_node_map root_tbl_phys =
     wr32 (wr64 (zeros GFS_BLOCK_SIZE) MP_PHYS root_tbl_phys) MP_CRC (unat (crc32c mkfs_root_table))"

text \<open>The mount that the fresh disk describes.\<close>

definition mkfs_view :: "'c gfs_ops \<Rightarrow> 'c \<Rightarrow> nat \<Rightarrow> nat \<Rightarrow> 'c gfs" where
  "mkfs_view ops c tot nodes =
     (let n = (tot + 7) div 8; bb = mkfs_bitmap_blocks tot; nm = 2 + 2 * bb; bm = mkfs_bm tot (nm + 2) n bb in
      (gfs_blank ops c)\<lparr>g_writable := True, g_generation := 1, g_total_blocks := tot,
        g_node_count := max 2 (min nodes GFS_MAX_NODES), g_root_node := GFS_ROOT_NODE, g_bitmap_start := 2,
        g_bitmap_blocks := bb, g_nodemap := \<lparr>bp_phys = nm, bp_crc = unat (crc32c (mkfs_node_map (nm + 1)))\<rparr>,
        g_free_blocks := tot - (nm + 2), g_free_nodes := max 2 (min nodes GFS_MAX_NODES) - 2,
        g_committed_bm := bm, g_working_bm := bm, g_bm_bytes := n\<rparr>)"

lemma mkfs_view_geom:
  assumes "tot < 2 ^ 63" "4 + 2 * mkfs_bitmap_blocks tot \<le> tot"
  shows "geom_ok (mkfs_view ops c tot nodes)"
proof -
  let ?n = "(tot + 7) div 8" and ?bb = "mkfs_bitmap_blocks tot"
  let ?fs0 = "(mkfs_view ops c tot nodes)\<lparr>g_committed_bm := zeros ?n, g_working_bm := zeros ?n\<rparr>"
  have f: "g_bitmap_start ?fs0 = 2" "g_total_blocks ?fs0 = tot" "g_bm_bytes ?fs0 = ?n" "g_bitmap_blocks ?fs0 = ?bb"
    "g_node_count ?fs0 = max 2 (min nodes 4096)" "g_root_node ?fs0 = 1"
    by (simp_all add: mkfs_view_def Let_def)
  have g0: "geom_ok ?fs0"
    unfolding geom_ok_def f using assms by (simp add: mkfs_bitmap_blocks_def)
  have "length (mkfs_bm tot (2 + 2 * ?bb + 2) ?n ?bb) = ?n"
    using mkfs_bm_prefix [OF g0 order_refl] geom_bounds(5) [OF g0] unfolding f by simp
  then show ?thesis using g0 by (simp add: geom_ok_def mkfs_view_def Let_def)
qed

definition mkfs_sb :: "nat \<Rightarrow> nat \<Rightarrow> nat \<Rightarrow> byte list" where
  "mkfs_sb tot nodes gen = (let bb = mkfs_bitmap_blocks tot; nc = max 2 (min nodes GFS_MAX_NODES) in
     sb_image tot nc GFS_ROOT_NODE 2 bb gen
       \<lparr>bp_phys = 2 + 2 * bb, bp_crc = unat (crc32c (mkfs_node_map (3 + 2 * bb)))\<rparr>
       (unat (crc32c (mkfs_bm tot (4 + 2 * bb) ((tot + 7) div 8) bb))) (tot - (4 + 2 * bb)) (nc - 2))"

lemma mkfs_view_fields:
  fixes tot nodes :: nat and ops :: "'c gfs_ops" and c :: 'c
  defines "bb \<equiv> mkfs_bitmap_blocks tot"
  defines "fs \<equiv> mkfs_view ops c tot nodes"
  shows "g_writable fs" "g_generation fs = 1" "g_total_blocks fs = tot" "g_bitmap_start fs = 2" "g_bitmap_blocks fs = bb"
    "g_nodemap fs = \<lparr>bp_phys = 2 + 2 * bb, bp_crc = unat (crc32c (mkfs_node_map (3 + 2 * bb)))\<rparr>"
    "g_free_blocks fs = tot - (4 + 2 * bb)" "g_free_nodes fs = max 2 (min nodes GFS_MAX_NODES) - 2"
    "g_committed_bm fs = mkfs_bm tot (4 + 2 * bb) ((tot + 7) div 8) bb" "g_bm_bytes fs = (tot + 7) div 8"
    "gfs_sb fs = mkfs_sb tot nodes 1" "g_ops fs = ops"
proof -
  have e: "2 + 2 * bb + 1 = 3 + 2 * bb" "2 + 2 * bb + 2 = 4 + 2 * bb" by simp_all
  note v = mkfs_view_def [of ops c tot nodes, folded bb_def, unfolded Let_def e, folded fs_def]
  show "g_writable fs" "g_generation fs = 1" "g_total_blocks fs = tot" "g_bitmap_start fs = 2" "g_bitmap_blocks fs = bb"
    "g_nodemap fs = \<lparr>bp_phys = 2 + 2 * bb, bp_crc = unat (crc32c (mkfs_node_map (3 + 2 * bb)))\<rparr>"
    "g_free_blocks fs = tot - (4 + 2 * bb)" "g_free_nodes fs = max 2 (min nodes GFS_MAX_NODES) - 2"
    "g_committed_bm fs = mkfs_bm tot (4 + 2 * bb) ((tot + 7) div 8) bb" "g_bm_bytes fs = (tot + 7) div 8" "g_ops fs = ops"
    unfolding v by (simp_all add: gfs_blank_def)
  show "gfs_sb fs = mkfs_sb tot nodes 1"
    unfolding gfs_sb_def mkfs_sb_def Let_def bb_def [symmetric] unfolding v by simp
qed

lemma mkfs_on_disk:
  assumes t: "tot < 2 ^ 63" "4 + 2 * mkfs_bitmap_blocks tot \<le> tot"
    and map: "d (2 + 2 * mkfs_bitmap_blocks tot) = mkfs_node_map (3 + 2 * mkfs_bitmap_blocks tot)"
    and bits: "\<And>j. j < mkfs_bitmap_blocks tot \<Longrightarrow> d (2 + mkfs_bitmap_blocks tot + j)
        = mkfs_bitmap_block tot (4 + 2 * mkfs_bitmap_blocks tot) j"
    and sb: "d 0 = mkfs_sb tot nodes 0" "d 1 = mkfs_sb tot nodes 1"
  shows "gfs_on_disk d (mkfs_view ops c tot nodes)"
proof -
  let ?fs = "mkfs_view ops c tot nodes" and ?bb = "mkfs_bitmap_blocks tot" and ?n = "(tot + 7) div 8"
  have g: "geom_ok ?fs" by (rule mkfs_view_geom [OF t])
  note f = mkfs_view_fields [of ops c tot nodes]
  have crc: "unat (crc32c (mkfs_node_map (3 + 2 * ?bb))) < 2 ^ 32"
    using unsigned_less [of "crc32c (mkfs_node_map (3 + 2 * ?bb))"] by simp
  have df: "data_first ?fs = 2 + 2 * ?bb" using geom_bounds(1) [OF g] unfolding f .
  have used: "bm_test (g_committed_bm ?fs) (2 + 2 * ?bb)"
    using mkfs_bm_test [OF g, of "2 + 2 * ?bb" "4 + 2 * ?bb"] t(2) unfolding f by simp
  have v0: "sb_valid (d 0) = Some 0" unfolding sb mkfs_sb_def Let_def by (rule sb_image_valid) simp
  have bm: "bslice 0 (bitmap_chunk ?n j) (d (bitmap_lba ?fs 1 j)) = bslice (j * 4096) (bitmap_chunk ?n j) (g_committed_bm ?fs)"
    if j: "j < ?bb" for j
  proof -
    have "bitmap_lba ?fs 1 j = 2 + ?bb + j" using bitmap_lba_eq [OF g, of 1 j] j unfolding f by simp
    then show ?thesis
      using bits [OF j] mkfs_bm_slice [OF g, of j tot "4 + 2 * ?bb"] j unfolding f by simp
  qed
  have b64: "tot - (4 + 2 * ?bb) < 2 ^ 64" "max 2 (min nodes 4096) - 2 < (2 ^ 64 :: nat)" using t(1) by simp_all
  have bp: "bp_ok (g_nodemap ?fs)" unfolding f bp_ok_def using t crc by simp
  show ?thesis
    unfolding gfs_on_disk_def f(1-8,10,11) using g bp [unfolded f(6)] df used v0 bm b64 t map sb by (simp add: f(1))
qed

text \<open>The computed layout of \<^verbatim>\<open>gfs_mkfs\<close> for a device within the 63-bit range.\<close>

lemma gfs_mkfs_eq:
  assumes t: "tot < 2 ^ 63" and bb: "bb = mkfs_bitmap_blocks tot" "0 < bb"
    and nc: "nc = max 2 (min nodes GFS_MAX_NODES)"
  shows "gfs_mkfs ops c tot nodes =
    (if 4 + 2 * bb > tot then gfail GFS_EINVAL else
      gseq (dev_write (3 + 2 * bb) mkfs_root_table)
      (gseq (dev_write (2 + 2 * bb) (mkfs_node_map (3 + 2 * bb)))
      (gbind (gfold (\<lambda>copy _. mkfs_bitmap_copy tot (4 + 2 * bb) 2 bb ((tot + 7) div 8) copy) [0, 1] 0) (\<lambda>bmcrc.
      gseq (gmod (\<lambda>tmp. tmp\<lparr>g_total_blocks := tot, g_node_count := nc, g_root_node := GFS_ROOT_NODE,
          g_bitmap_start := 2, g_bitmap_blocks := bb\<rparr>))
      (gfor [0, 1] (\<lambda>gen.
        gseq (gmod (sb_encode gen \<lparr>bp_phys = 2 + 2 * bb, bp_crc = unat (crc32c (mkfs_node_map (3 + 2 * bb)))\<rparr>
                bmcrc (tot - (4 + 2 * bb)) (nc - 2)))
        (gget (\<lambda>tmp. dev_write gen (g_sb tmp)))))))))
      (gfs_blank ops c)"
proof -
  have n: "bm_size tot = (tot + 7) div 8" using t by (simp add: bm_size_def)
  have "(tot + 7) div 8 + 4095 < 2 ^ 64" using t by simp
  then have b: "u64 ((tot + 7) div 8 + 4096 - 1) div 4096 = bb" unfolding bb(1) mkfs_bitmap_blocks_def by simp
  have nc': "(if (if nodes < 2 then 2 else nodes) > 4096 then 4096 else if nodes < 2 then 2 else nodes) = nc"
    unfolding nc by (auto simp: max_def min_def)
  have e: "(if bb = 0 then 1 else bb) = bb" "2 + 2 * bb + 1 = 3 + 2 * bb" "3 + 2 * bb + 1 = 4 + 2 * bb"
    using bb(2) by simp_all
  show ?thesis
    unfolding gfs_mkfs_def Let_def n b nc' e mkfs_root_table_def mkfs_node_map_def ..
qed

context block_dev
begin

lemma dev_write_run:
  assumes "dinv (g_ctx fs)" "g_ops fs = ops" "Gfs_Mount.dev_write lba blk fs = Some (Inr (), fs')"
  obtains c where "fs' = fs\<lparr>g_ctx := c\<rparr>" "dinv c" "disk c = (disk (g_ctx fs))(lba := blk)"
proof -
  obtain ok c where w: "op_write ops (g_ctx fs) lba blk = (ok, c)" by fastforce
  then have "ok" "fs' = fs\<lparr>g_ctx := c\<rparr>" using assms(2,3) by (auto simp: dev_write_def split: if_splits)
  then show thesis using that dev_write [OF assms(1), of lba blk c] w assms(2) by simp
qed

lemma mkfs_copy_loop:
  assumes "dinv (g_ctx fs)" "g_ops fs = ops"
    and "gfold (\<lambda>j running. let blk = g j in gseq (Gfs_Mount.dev_write (f j) blk)
         (gret (crc32c_update running (h j blk)))) js x fs = Some (Inr y, fs')"
  shows "\<exists>c. fs' = fs\<lparr>g_ctx := c\<rparr> \<and> dinv c \<and> disk c = fold (\<lambda>j d. d(f j := g j)) js (disk (g_ctx fs))
    \<and> y = crc32c_update x (concat (map (\<lambda>j. h j (g j)) js))"
  using assms
proof (induction js arbitrary: x fs)
  case Nil
  then have "fs' = fs\<lparr>g_ctx := g_ctx fs\<rparr>" "y = x" by (simp_all add: gret_def)
  then show ?case using Nil by (intro exI [of _ "g_ctx fs"]) simp
next
  case (Cons j js)
  from Cons.prems(3) obtain fs1 where w: "Gfs_Mount.dev_write (f j) (g j) fs = Some (Inr (), fs1)"
    and rest: "gfold (\<lambda>j running. let blk = g j in gseq (Gfs_Mount.dev_write (f j) blk)
         (gret (crc32c_update running (h j blk)))) js (crc32c_update x (h j (g j))) fs1 = Some (Inr y, fs')"
    by (auto simp: gbind_Some_iff gseq_Some_iff gret_Some_iff Let_def)
  obtain c1 where c1: "fs1 = fs\<lparr>g_ctx := c1\<rparr>" "dinv c1" "disk c1 = (disk (g_ctx fs))(f j := g j)"
    using dev_write_run [OF Cons.prems(1,2) w] by blast
  have f1: "dinv (g_ctx fs1)" "g_ops fs1 = ops" using c1 Cons.prems(2) by simp_all
  obtain c2 where "fs' = fs1\<lparr>g_ctx := c2\<rparr>" "dinv c2" "disk c2 = fold (\<lambda>j d. d(f j := g j)) js (disk (g_ctx fs1))"
    "y = crc32c_update (crc32c_update x (h j (g j))) (concat (map (\<lambda>j. h j (g j)) js))"
    using Cons.IH [OF f1 rest] by blast
  then have "fs' = fs\<lparr>g_ctx := c2\<rparr> \<and> dinv c2 \<and> disk c2 = fold (\<lambda>j d. d(f j := g j)) (j # js) (disk (g_ctx fs))
      \<and> y = crc32c_update x (concat (map (\<lambda>j. h j (g j)) (j # js)))"
    using c1 by (simp add: crc32c_update_append del: fun_upd_apply)
  then show ?case by blast
qed

lemma mkfs_bitmap_copy_run:
  assumes "dinv (g_ctx fs)" "g_ops fs = ops"
    and "mkfs_bitmap_copy tot up start bb n copy fs = Some (Inr y, fs')"
  obtains c where "fs' = fs\<lparr>g_ctx := c\<rparr>" "dinv c" "y = unat (crc32c (mkfs_bm tot up n bb))"
    "disk c = fold (\<lambda>j d. d(start + copy * bb + j := mkfs_bitmap_block tot up j)) [0..<bb] (disk (g_ctx fs))"
proof -
  obtain running where run: "gfold (\<lambda>j running. let blk = mkfs_bitmap_block tot up j in
         gseq (Gfs_Mount.dev_write (start + copy * bb + j) blk)
         (gret (crc32c_update running (bslice 0 (bitmap_chunk n j) blk)))) [0..<bb] CRC32C_INIT fs = Some (Inr running, fs')"
    and y: "y = unat (crc32c_final running)"
    using assms(3) unfolding mkfs_bitmap_copy_def by (auto simp: gbind_Some_iff gret_Some_iff)
  show thesis
    using that y mkfs_copy_loop [where g = "mkfs_bitmap_block tot up" and f = "\<lambda>j. start + copy * bb + j"
        and h = "\<lambda>j. bslice 0 (bitmap_chunk n j)", OF assms(1,2) run]
    unfolding mkfs_bm_def crc32c_def by blast
qed

lemma mkfs_bitmap_copies_run:
  assumes "dinv (g_ctx fs)" "g_ops fs = ops"
    and "gfold (\<lambda>copy _. mkfs_bitmap_copy tot up start bb n copy) [0, 1] 0 fs = Some (Inr y, fs')"
  obtains c where "fs' = fs\<lparr>g_ctx := c\<rparr>" "dinv c" "y = unat (crc32c (mkfs_bm tot up n bb))"
    "disk c = fold (\<lambda>j d. d(start + 1 * bb + j := mkfs_bitmap_block tot up j)) [0..<bb]
       (fold (\<lambda>j d. d(start + 0 * bb + j := mkfs_bitmap_block tot up j)) [0..<bb] (disk (g_ctx fs)))"
proof -
  obtain y1 fs1 where r1: "mkfs_bitmap_copy tot up start bb n 0 fs = Some (Inr y1, fs1)"
    and r2: "mkfs_bitmap_copy tot up start bb n 1 fs1 = Some (Inr y, fs')"
    using assms(3) by (auto simp: gbind_Some_iff gret_Some_iff)
  obtain c1 where c1: "fs1 = fs\<lparr>g_ctx := c1\<rparr>" "dinv c1"
    "disk c1 = fold (\<lambda>j d. d(start + 0 * bb + j := mkfs_bitmap_block tot up j)) [0..<bb] (disk (g_ctx fs))"
    by (rule mkfs_bitmap_copy_run [OF assms(1,2) r1])
  have f1: "dinv (g_ctx fs1)" "g_ops fs1 = ops" using c1 assms(2) by simp_all
  show thesis
    by (rule mkfs_bitmap_copy_run [OF f1 r2]) (rule that, use c1 in \<open>simp_all del: fun_upd_apply\<close>)
qed

text \<open>A format that succeeds leaves a file system of generation 1 on the disk.\<close>

lemma gfs_mkfs_run:
  assumes d: "dinv c" and t: "tot < 2 ^ 63" and run: "gfs_mkfs ops c tot nodes = Some (Inr (), tmp)"
  shows "dinv (g_ctx tmp) \<and> g_ops tmp = ops \<and> gfs_on_disk (disk (g_ctx tmp)) (mkfs_view ops (g_ctx tmp) tot nodes)
    \<and> disk (g_ctx tmp) (2 + 2 * mkfs_bitmap_blocks tot) = mkfs_node_map (3 + 2 * mkfs_bitmap_blocks tot)
    \<and> disk (g_ctx tmp) (3 + 2 * mkfs_bitmap_blocks tot) = mkfs_root_table"
proof -
  let ?bb = "mkfs_bitmap_blocks tot" and ?nc = "max 2 (min nodes GFS_MAX_NODES)" and ?fs = "gfs_blank ops c"
  let ?nm = "\<lparr>bp_phys = 2 + 2 * ?bb, bp_crc = unat (crc32c (mkfs_node_map (3 + 2 * ?bb)))\<rparr>"
  have bb: "0 < ?bb"
  proof (rule ccontr)
    assume "\<not> 0 < ?bb"
    then have "tot = 0" by (simp add: mkfs_bitmap_blocks_def)
    then show False using run by (simp add: gfs_mkfs_def Let_def bm_size_def gfail_def)
  qed
  note run' = run [unfolded gfs_mkfs_eq [OF t refl bb refl]]
  have le: "4 + 2 * ?bb \<le> tot" using run' by (auto simp: gfail_def split: if_splits)
  obtain fs1 fs2 fs3 y where r1: "dev_write (3 + 2 * ?bb) mkfs_root_table ?fs = Some (Inr (), fs1)"
    and r2: "dev_write (2 + 2 * ?bb) (mkfs_node_map (3 + 2 * ?bb)) fs1 = Some (Inr (), fs2)"
    and r3: "gfold (\<lambda>copy _. mkfs_bitmap_copy tot (4 + 2 * ?bb) 2 ?bb ((tot + 7) div 8) copy) [0, 1] 0 fs2 = Some (Inr y, fs3)"
    and r4: "gseq (gmod (\<lambda>tmp. tmp\<lparr>g_total_blocks := tot, g_node_count := ?nc, g_root_node := GFS_ROOT_NODE,
          g_bitmap_start := 2, g_bitmap_blocks := ?bb\<rparr>))
      (gfor [0, 1] (\<lambda>gen. gseq (gmod (sb_encode gen ?nm y (tot - (4 + 2 * ?bb)) (?nc - 2)))
        (gget (\<lambda>tmp. dev_write gen (g_sb tmp))))) fs3 = Some (Inr (), tmp)"
    using run' le by (auto simp: gseq_Some_iff [of "dev_write _ _"] gbind_Some_iff simp del: gfold.simps gfor.simps)
  have f0: "dinv (g_ctx ?fs)" "g_ops ?fs = ops" using d by (simp_all add: gfs_blank_def)
  obtain c1 where c1: "fs1 = ?fs\<lparr>g_ctx := c1\<rparr>" "dinv c1" "disk c1 = (disk c)(3 + 2 * ?bb := mkfs_root_table)"
    by (rule dev_write_run [OF f0 r1]) (use that in \<open>simp add: gfs_blank_def\<close>)
  have f1: "dinv (g_ctx fs1)" "g_ops fs1 = ops" using c1 f0 by simp_all
  obtain c2 where c2: "fs2 = ?fs\<lparr>g_ctx := c2\<rparr>" "dinv c2" "disk c2 = (disk c1)(2 + 2 * ?bb := mkfs_node_map (3 + 2 * ?bb))"
    by (rule dev_write_run [OF f1 r2]) (use that c1 in simp)
  have f2: "dinv (g_ctx fs2)" "g_ops fs2 = ops" using c2 f0 by simp_all
  obtain c3 where c3: "fs3 = ?fs\<lparr>g_ctx := c3\<rparr>" "dinv c3"
    and y: "y = unat (crc32c (mkfs_bm tot (4 + 2 * ?bb) ((tot + 7) div 8) ?bb))"
    and d3: "disk c3 = fold (\<lambda>j d. d(2 + 1 * ?bb + j := mkfs_bitmap_block tot (4 + 2 * ?bb) j)) [0..<?bb]
       (fold (\<lambda>j d. d(2 + 0 * ?bb + j := mkfs_bitmap_block tot (4 + 2 * ?bb) j)) [0..<?bb] (disk c2))"
    by (rule mkfs_bitmap_copies_run [OF f2 r3]) (use that c2 in \<open>simp del: fun_upd_apply\<close>)
  define fs4 where "fs4 = ?fs\<lparr>g_ctx := c3, g_total_blocks := tot, g_node_count := ?nc, g_root_node := GFS_ROOT_NODE,
      g_bitmap_start := 2, g_bitmap_blocks := ?bb\<rparr>"
  let ?enc = "\<lambda>gen. sb_encode gen ?nm y (tot - (4 + 2 * ?bb)) (?nc - 2)"
  have sb: "g_sb (?enc gen fs) = mkfs_sb tot nodes gen" "g_ops (?enc gen fs) = ops" "g_ctx (?enc gen fs) = g_ctx fs"
    if "fs = fs4\<lparr>g_ctx := c', g_sb := s'\<rparr>" for gen c' s' fs
    unfolding that y by (simp_all add: sb_encode_def mkfs_sb_def fs4_def Let_def gfs_blank_def)
  have s4: "fs4 = fs4\<lparr>g_ctx := c3, g_sb := g_sb fs4\<rparr>" by (simp add: fs4_def)
  obtain fs5 where r5: "dev_write 0 (g_sb (?enc 0 fs4)) (?enc 0 fs4) = Some (Inr (), fs5)"
    and r6: "dev_write 1 (g_sb (?enc 1 fs5)) (?enc 1 fs5) = Some (Inr (), tmp)"
    using r4 unfolding gseq_mod c3(1) gfor.simps gseq_Some_iff [of "gseq _ _"] gret_Some_iff
    unfolding gseq_mod gget_def by (auto simp: fs4_def gret_Some_iff)
  have f4: "dinv (g_ctx (?enc 0 fs4))" "g_ops (?enc 0 fs4) = ops" using sb(2,3) [OF s4] c3(2) by (simp_all add: fs4_def)
  obtain c5 where c5: "fs5 = (?enc 0 fs4)\<lparr>g_ctx := c5\<rparr>" "dinv c5" "disk c5 = (disk c3)(0 := mkfs_sb tot nodes 0)"
    by (rule dev_write_run [OF f4 r5]) (use that sb [OF s4] in \<open>simp add: fs4_def\<close>)
  have s5: "fs5 = fs4\<lparr>g_ctx := c5, g_sb := mkfs_sb tot nodes 0\<rparr>"
    unfolding c5(1) using sb(1) [OF s4] by (simp add: sb_encode_def)
  have f5: "dinv (g_ctx (?enc 1 fs5))" "g_ops (?enc 1 fs5) = ops" using sb(2,3) [OF s5] c5(2) by (simp_all add: c5(1))
  obtain c6 where c6: "tmp = (?enc 1 fs5)\<lparr>g_ctx := c6\<rparr>" "dinv c6" "disk c6 = (disk c5)(1 := mkfs_sb tot nodes 1)"
    by (rule dev_write_run [OF f5 r6]) (use that sb [OF s5] c5(1) in simp)
  have d2: "disk c6 (2 + 2 * ?bb) = mkfs_node_map (3 + 2 * ?bb)"
    unfolding c6 c5 d3 using c2(3) by (simp add: fold_upd_other image_iff)
  have bits: "disk c6 (2 + ?bb + j) = mkfs_bitmap_block tot (4 + 2 * ?bb) j" if "j < ?bb" for j
    using fold_upd_same [of "\<lambda>j. 2 + 1 * ?bb + j" "[0..<?bb]" j] that unfolding c6 c5 d3 by (simp add: inj_on_def)
  have "gfs_on_disk (disk c6) (mkfs_view ops c6 tot nodes)"
    by (rule mkfs_on_disk [OF t le d2 bits]) (simp_all add: c6 c5)
  moreover have "disk c6 (3 + 2 * ?bb) = mkfs_root_table"
    unfolding c6 c5 d3 using c2(3) c1(3) by (simp add: fold_upd_other image_iff)
  ultimately show ?thesis using c6(1,2) d2 sb(2) [OF s5] by simp
qed

end

end
