(* ===== verification/Block_Cache.thy ===== *)
theory Block_Cache
  imports Gfs_Recover Kernel_Errno
begin

text \<open>
  The block layer (\<^verbatim>\<open>kernel/block/block.c\<close>): one registered device behind a write-through cache
  of 64 blocks with LRU replacement, and the callbacks \<^verbatim>\<open>gdev_read\<close>, \<^verbatim>\<open>gdev_write\<close> of
  \<^verbatim>\<open>kernel/fs/vfs.c\<close> that hand it to graphfs.

  The driver behind \<^verbatim>\<open>struct bdev\<close> is a parameter: a state of any type and the two operations; a
  failed read may leave anything in the buffer. The locale \<open>raw_disk\<close> states what the block layer
  relies on. The file's static variables are the record \<open>block_layer\<close>. A failed \<^verbatim>\<open>KASSERT\<close> and
  \<^verbatim>\<open>panic\<close> set \<open>bl_panic\<close> and do nothing else.
\<close>

section \<open>State\<close>

abbreviation (input) CACHE_ENTRIES :: nat where "CACHE_ENTRIES \<equiv> 64"

record 'd bdev =
  bd_addr :: nat
  bd_nblocks :: nat
  bd_read :: "'d \<Rightarrow> nat \<Rightarrow> byte list \<Rightarrow> int \<times> byte list \<times> 'd"
  bd_write :: "'d \<Rightarrow> nat \<Rightarrow> byte list \<Rightarrow> int \<times> 'd"

record cache_entry =
  ce_lba :: nat
  ce_stamp :: nat
  ce_data :: "byte list"

record 'd block_layer =
  bl_root :: "'d bdev option"
  bl_cache :: "cache_entry list"
  bl_clock :: nat
  bl_busy :: bool
  bl_panic :: bool
  bl_dev :: 'd

section \<open>Operations\<close>

text \<open>\<open>frames\<close> are the results of the 64 calls of \<^verbatim>\<open>pmm_alloc_frame\<close> with the bytes of the frame.\<close>

definition block_register :: "'d bdev option \<Rightarrow> byte list option list \<Rightarrow> 'd block_layer \<Rightarrow> 'd block_layer" where
  "block_register bd frames s =
     (case bd of None \<Rightarrow> s\<lparr>bl_panic := True\<rparr>
      | Some b \<Rightarrow>
        if \<not> bd_nblocks b > 0 then s\<lparr>bl_panic := True\<rparr>
        else if bl_root s \<noteq> None then s\<lparr>bl_panic := True\<rparr>
        else if None \<in> set (take CACHE_ENTRIES frames) \<or> length frames < CACHE_ENTRIES then s\<lparr>bl_panic := True\<rparr>
        else s\<lparr>bl_cache := map2 (\<lambda>e f. e\<lparr>ce_data := the f, ce_stamp := 0\<rparr>) (bl_cache s) (take CACHE_ENTRIES frames),
               bl_root := Some b\<rparr>)"

definition cache_lookup :: "nat \<Rightarrow> 'd block_layer \<Rightarrow> nat option" where
  "cache_lookup lba s = List.find (\<lambda>i. ce_stamp (bl_cache s ! i) \<noteq> 0 \<and> ce_lba (bl_cache s ! i) = lba) [0..<CACHE_ENTRIES]"

definition cache_victim :: "'d block_layer \<Rightarrow> nat" where
  "cache_victim s = fold (\<lambda>i v. if ce_stamp (bl_cache s ! i) < ce_stamp (bl_cache s ! v) then i else v)
     [1..<CACHE_ENTRIES] 0"

definition enter :: "'d bdev \<Rightarrow> nat \<Rightarrow> 'd block_layer \<Rightarrow> 'd block_layer" where
  "enter b lba s =
     (if \<not> (map_option bd_addr (bl_root s) = Some (bd_addr b) \<and> lba < bd_nblocks b) then s\<lparr>bl_panic := True\<rparr>
      else if bl_busy s then s\<lparr>bl_panic := True\<rparr>
      else s\<lparr>bl_busy := True\<rparr>)"

text \<open>\<^verbatim>\<open>e->stamp = ++lru_clock\<close> for entry \<open>i\<close>.\<close>

definition cache_touch :: "nat \<Rightarrow> 'd block_layer \<Rightarrow> 'd block_layer" where
  "cache_touch i s = (let clock = u64 (bl_clock s + 1) in
     s\<lparr>bl_clock := clock, bl_cache := (bl_cache s)[i := (bl_cache s ! i)\<lparr>ce_stamp := clock\<rparr>]\<rparr>)"

definition block_read :: "'d bdev option \<Rightarrow> nat \<Rightarrow> byte list \<Rightarrow> 'd block_layer \<Rightarrow> int \<times> byte list \<times> 'd block_layer" where
  "block_read bd lba buf s0 =
     (case bd of None \<Rightarrow> (- EINVAL, buf, s0)
      | Some b \<Rightarrow>
        if lba \<ge> bd_nblocks b then (- EINVAL, buf, s0)
        else let s = enter b lba s0 in
        if bl_panic s then (- EIO, buf, s)
        else case cache_lookup lba s of
          Some i \<Rightarrow> let s = cache_touch i s in (0, ce_data (bl_cache s ! i), s\<lparr>bl_busy := False\<rparr>)
        | None \<Rightarrow>
          let i = cache_victim s; e = bl_cache s ! i in
          case bd_read b (bl_dev s) lba (ce_data e) of (rc, data, d) \<Rightarrow>
            if rc \<noteq> 0
            then (rc, buf, s\<lparr>bl_dev := d, bl_cache := (bl_cache s)[i := e\<lparr>ce_data := data, ce_stamp := 0\<rparr>],
                             bl_busy := False\<rparr>)
            else let s = cache_touch i (s\<lparr>bl_dev := d, bl_cache := (bl_cache s)[i := e\<lparr>ce_data := data, ce_lba := lba\<rparr>]\<rparr>)
              in (0, ce_data (bl_cache s ! i), s\<lparr>bl_busy := False\<rparr>))"

definition block_write :: "'d bdev option \<Rightarrow> nat \<Rightarrow> byte list \<Rightarrow> 'd block_layer \<Rightarrow> int \<times> 'd block_layer" where
  "block_write bd lba buf s0 =
     (case bd of None \<Rightarrow> (- EINVAL, s0)
      | Some b \<Rightarrow>
        if lba \<ge> bd_nblocks b then (- EINVAL, s0)
        else let s = enter b lba s0 in
        if bl_panic s then (- EIO, s)
        else let i = (case cache_lookup lba s of Some i \<Rightarrow> i | None \<Rightarrow> cache_victim s);
            e = (bl_cache s ! i)\<lparr>ce_lba := lba, ce_data := buf\<rparr>;
            s = cache_touch i (s\<lparr>bl_cache := (bl_cache s)[i := e]\<rparr>) in
          case bd_write b (bl_dev s) lba (ce_data (bl_cache s ! i)) of (rc, d) \<Rightarrow>
            let s = s\<lparr>bl_dev := d\<rparr>;
                s = (if rc \<noteq> 0 then s\<lparr>bl_cache := (bl_cache s)[i := (bl_cache s ! i)\<lparr>ce_stamp := 0\<rparr>]\<rparr> else s)
            in (rc, s\<lparr>bl_busy := False\<rparr>))"

text \<open>The callbacks of \<^verbatim>\<open>GDEV_OPS\<close>, with the registered device as the context.\<close>

definition gdev_read :: "'d bdev \<Rightarrow> 'd block_layer \<Rightarrow> nat \<Rightarrow> byte list option \<times> 'd block_layer" where
  "gdev_read bd s lba = (case block_read (Some bd) lba [] s of (rc, buf, s') \<Rightarrow> (if rc = 0 then Some buf else None, s'))"

definition gdev_write :: "'d bdev \<Rightarrow> 'd block_layer \<Rightarrow> nat \<Rightarrow> byte list \<Rightarrow> bool \<times> 'd block_layer" where
  "gdev_write bd s lba buf = (case block_write (Some bd) lba buf s of (rc, s') \<Rightarrow> (rc = 0, s'))"

definition GDEV_OPS :: "'d bdev \<Rightarrow> 'd block_layer gfs_ops" where
  "GDEV_OPS bd = \<lparr>op_read = gdev_read bd, op_write = gdev_write bd\<rparr>"

section \<open>The victim is the least recently used entry\<close>

lemma victim_fold:
  assumes "\<forall>j < n. f v \<le> f j" "v < n" "n \<le> m"
  shows "\<forall>j < m. f (fold (\<lambda>i v. if f i < f v then i else v) [n..<m] v) \<le> (f j :: nat)"
    and "fold (\<lambda>i v. if f i < f v then i else v) [n..<m] v < m"
proof -
  have "(\<forall>j < m. f (fold (\<lambda>i v. if f i < f v then i else v) [n..<m] v) \<le> f j)
      \<and> fold (\<lambda>i v. if f i < f v then i else v) [n..<m] v < m"
    using assms
  proof (induction "m - n" arbitrary: n v)
    case 0
    then show ?case by simp
  next
    case (Suc k)
    then have "[n..<m] = n # [Suc n..<m]" by (simp add: upt_conv_Cons)
    moreover have "\<forall>j < Suc n. f (if f n < f v then n else v) \<le> f j"
      using Suc.prems(1) by (auto simp: less_Suc_eq intro: le_trans less_imp_le)
    moreover have "(if f n < f v then n else v) < Suc n" using Suc.prems(2) by simp
    ultimately show ?case
      using Suc.hyps(1) [of "Suc n" "if f n < f v then n else v"] Suc.hyps(2) by simp
  qed
  then show "\<forall>j < m. f (fold (\<lambda>i v. if f i < f v then i else v) [n..<m] v) \<le> f j"
    "fold (\<lambda>i v. if f i < f v then i else v) [n..<m] v < m" by blast+
qed

lemma cache_victim_least: "j < 64 \<Longrightarrow> ce_stamp (bl_cache s ! cache_victim s) \<le> ce_stamp (bl_cache s ! j)"
  and cache_victim_less: "cache_victim s < 64"
  using victim_fold [of 1 "\<lambda>i. ce_stamp (bl_cache s ! i)" 0 64] by (simp_all add: cache_victim_def)

lemma cache_lookup_Some:
  assumes "cache_lookup lba s = Some i"
  shows "i < 64" "ce_stamp (bl_cache s ! i) \<noteq> 0" "ce_lba (bl_cache s ! i) = lba"
  using assms by (auto simp: cache_lookup_def find_Some_iff)

lemma cache_lookup_None:
  assumes "cache_lookup lba s = None" "i < 64" "ce_stamp (bl_cache s ! i) \<noteq> 0"
  shows "ce_lba (bl_cache s ! i) \<noteq> lba"
  using assms by (auto simp: cache_lookup_def find_None_iff)

lemma cache_busy:
  "cache_lookup lba (s\<lparr>bl_busy := b\<rparr>) = cache_lookup lba s" "cache_victim (s\<lparr>bl_busy := b\<rparr>) = cache_victim s"
  by (simp_all add: cache_lookup_def cache_victim_def)

section \<open>The driver interface and coherence\<close>

locale raw_disk =
  fixes bd :: "'d bdev" and content :: "'d \<Rightarrow> nat \<Rightarrow> byte list" and history :: "'d \<Rightarrow> write_log"
    and rinv :: "'d \<Rightarrow> bool"
  assumes raw_read: "rinv d \<Longrightarrow> lba < bd_nblocks bd \<Longrightarrow> bd_read bd d lba buf = (rc, buf', d') \<Longrightarrow>
      rinv d' \<and> content d' = content d \<and> history d' = history d \<and> (rc = 0 \<longrightarrow> buf' = content d lba)"
    and raw_write: "rinv d \<Longrightarrow> lba < bd_nblocks bd \<Longrightarrow> bd_write bd d lba blk = (0, d') \<Longrightarrow>
      rinv d' \<and> content d' = (content d)(lba := blk) \<and> history d' = history d @ [(lba, blk)]"
    and raw_write_fail: "rinv d \<Longrightarrow> lba < bd_nblocks bd \<Longrightarrow> bd_write bd d lba blk = (rc, d') \<Longrightarrow> rc \<noteq> 0 \<Longrightarrow>
      rinv d' \<and> (content d' = content d \<and> history d' = history d
        \<or> (\<exists>junk. content d' = (content d)(lba := junk) \<and> history d' = history d @ [(lba, junk)]))"

text \<open>Every valid entry holds the current content of its block, and no block is cached twice.\<close>

definition cache_coherent :: "(nat \<Rightarrow> byte list) \<Rightarrow> cache_entry list \<Rightarrow> bool" where
  "cache_coherent disk es \<longleftrightarrow> length es = CACHE_ENTRIES
     \<and> (\<forall>i < CACHE_ENTRIES. ce_stamp (es ! i) \<noteq> 0 \<longrightarrow> ce_data (es ! i) = disk (ce_lba (es ! i)))
     \<and> (\<forall>i < CACHE_ENTRIES. \<forall>j < CACHE_ENTRIES. ce_stamp (es ! i) \<noteq> 0 \<longrightarrow> ce_stamp (es ! j) \<noteq> 0
          \<longrightarrow> ce_lba (es ! i) = ce_lba (es ! j) \<longrightarrow> i = j)"

lemma nth_upd_64: "length es = 64 \<Longrightarrow> j < 64 \<Longrightarrow> es[i := e] ! j = (if j = i then e else es ! j)"
  by (simp add: nth_list_update)

lemma coherent_drop:
  assumes "cache_coherent disk es" "ce_stamp e = 0"
  shows "cache_coherent disk (es[i := e])"
  using assms by (auto simp: cache_coherent_def nth_upd_64 split: if_splits)

lemma coherent_fill:
  assumes c: "cache_coherent disk es" and i: "i < 64"
    and other: "\<And>j. j < 64 \<Longrightarrow> j \<noteq> i \<Longrightarrow> ce_stamp (es ! j) \<noteq> 0 \<Longrightarrow> ce_lba (es ! j) \<noteq> ce_lba e"
    and e: "ce_data e = disk (ce_lba e)"
  shows "cache_coherent disk (es[i := e])"
  using assms unfolding cache_coherent_def by (auto simp: nth_upd_64 split: if_splits) blast

lemma coherent_upd:
  assumes c: "cache_coherent disk es"
    and other: "\<And>j. j < 64 \<Longrightarrow> ce_stamp (es ! j) \<noteq> 0 \<Longrightarrow> ce_lba (es ! j) \<noteq> lba"
  shows "cache_coherent (disk(lba := blk)) es"
  using assms unfolding cache_coherent_def by auto

text \<open>The entry a write takes: no other valid entry holds the block.\<close>

definition cache_slot :: "nat \<Rightarrow> 'd block_layer \<Rightarrow> nat" where
  "cache_slot lba s = (case cache_lookup lba s of Some i \<Rightarrow> i | None \<Rightarrow> cache_victim s)"

lemma cache_slot:
  assumes "cache_coherent disk (bl_cache s)"
  shows "cache_slot lba s < 64"
    and "j < 64 \<Longrightarrow> j \<noteq> cache_slot lba s \<Longrightarrow> ce_stamp (bl_cache s ! j) \<noteq> 0 \<Longrightarrow> ce_lba (bl_cache s ! j) \<noteq> lba"
  using assms cache_lookup_Some [of lba s] cache_lookup_None [of lba s] cache_victim_less [of s]
  by (auto simp: cache_slot_def cache_coherent_def split: option.splits)

lemma coherent_write:
  assumes c: "cache_coherent disk es" and i: "i < 64"
    and other: "\<And>j. j < 64 \<Longrightarrow> j \<noteq> i \<Longrightarrow> ce_stamp (es ! j) \<noteq> 0 \<Longrightarrow> ce_lba (es ! j) \<noteq> lba"
  shows "ce_lba e = lba \<Longrightarrow> ce_data e = blk \<Longrightarrow> cache_coherent (disk(lba := blk)) (es[i := e])"
    and "ce_stamp e = 0 \<Longrightarrow> cache_coherent (disk(lba := blk)) (es[i := e])"
proof -
  have len: "length es = 64" using c by (simp add: cache_coherent_def)
  have drop: "cache_coherent (disk(lba := blk)) (es[i := e0])" if "ce_stamp e0 = 0" for e0
    using coherent_drop [OF c that] other that len by (intro coherent_upd) (auto simp: nth_upd_64 split: if_splits)
  then show "ce_stamp e = 0 \<Longrightarrow> cache_coherent (disk(lba := blk)) (es[i := e])" .
  assume e: "ce_lba e = lba" "ce_data e = blk"
  let ?e0 = "e\<lparr>ce_stamp := 0\<rparr>"
  have "cache_coherent (disk(lba := blk)) (es[i := ?e0])" by (rule drop) simp
  then have "cache_coherent (disk(lba := blk)) (es[i := ?e0, i := e])"
    by (rule coherent_fill) (use i other e len in \<open>auto simp: nth_upd_64 split: if_splits\<close>)
  then show "cache_coherent (disk(lba := blk)) (es[i := e])" by simp
qed

text \<open>The block layer between two calls, with the device \<open>bd\<close> registered.\<close>

definition block_ok :: "'d bdev \<Rightarrow> ('d \<Rightarrow> nat \<Rightarrow> byte list) \<Rightarrow> ('d \<Rightarrow> bool) \<Rightarrow> 'd block_layer \<Rightarrow> bool" where
  "block_ok bd content rinv s \<longleftrightarrow> map_option bd_addr (bl_root s) = Some (bd_addr bd) \<and> \<not> bl_busy s \<and> \<not> bl_panic s
     \<and> rinv (bl_dev s) \<and> cache_coherent (content (bl_dev s)) (bl_cache s)"

lemma enter_ok: "block_ok bd content rinv s \<Longrightarrow> lba < bd_nblocks bd \<Longrightarrow> enter bd lba s = s\<lparr>bl_busy := True\<rparr>"
  by (simp add: enter_def block_ok_def)

context raw_disk
begin

lemma block_read_run:
  assumes ok: "block_ok bd content rinv s" and run: "block_read (Some bd) lba buf s = (rc, buf', s')"
  shows "block_ok bd content rinv s'" "content (bl_dev s') = content (bl_dev s)" "history (bl_dev s') = history (bl_dev s)"
    "rc = 0 \<Longrightarrow> lba < bd_nblocks bd \<and> buf' = content (bl_dev s) lba" "rc \<noteq> 0 \<Longrightarrow> buf' = buf"
proof -
  let ?C = "content (bl_dev s)" and ?es = "bl_cache s"
  have coh: "cache_coherent ?C ?es" and r: "rinv (bl_dev s)" and len: "length ?es = 64"
    using ok by (auto simp: block_ok_def cache_coherent_def)
  have "block_ok bd content rinv s' \<and> content (bl_dev s') = ?C \<and> history (bl_dev s') = history (bl_dev s)
    \<and> (rc = 0 \<longrightarrow> lba < bd_nblocks bd \<and> buf' = ?C lba) \<and> (rc \<noteq> 0 \<longrightarrow> buf' = buf)"
  proof (cases "lba < bd_nblocks bd")
    case False
    then show ?thesis using run ok by (simp add: block_read_def)
  next
    case lba: True
    note en = enter_ok [OF ok lba]
    show ?thesis
    proof (cases "cache_lookup lba s")
      case (Some i)
      note i = cache_lookup_Some [OF Some]
      have data: "ce_data (?es ! i) = ?C lba" using coh i by (auto simp: cache_coherent_def)
      have "cache_coherent ?C (?es[i := (?es ! i)\<lparr>ce_stamp := st\<rparr>])" for st
        using coh i data by (intro coherent_fill) (auto simp: cache_coherent_def)
      then show ?thesis
        using run ok lba Some i data len unfolding block_ok_def
        by (auto simp: block_read_def en cache_busy cache_touch_def Let_def block_ok_def)
    next
      case None
      let ?v = "cache_victim s"
      obtain rc1 data d where rd: "bd_read bd (bl_dev s) lba (ce_data (?es ! ?v)) = (rc1, data, d)" by (metis prod_cases3)
      note rr = raw_read [OF r lba rd]
      have fill: "rc1 = 0 \<Longrightarrow> cache_coherent ?C (?es[?v := (?es ! ?v)\<lparr>ce_data := data, ce_lba := lba, ce_stamp := st\<rparr>])" for st
        using coh rr cache_victim_less cache_lookup_None [OF None] by (intro coherent_fill) auto
      have drop: "cache_coherent ?C (?es[?v := (?es ! ?v)\<lparr>ce_data := data, ce_stamp := 0\<rparr>])"
        using coh by (rule coherent_drop) simp
      show ?thesis
        using run ok lba None rr fill drop len cache_victim_less [of s] unfolding block_ok_def
        by (auto simp: block_read_def en cache_busy rd cache_touch_def Let_def split: if_splits)
    qed
  qed
  then show "block_ok bd content rinv s'" "content (bl_dev s') = ?C" "history (bl_dev s') = history (bl_dev s)"
    "rc = 0 \<Longrightarrow> lba < bd_nblocks bd \<and> buf' = ?C lba" "rc \<noteq> 0 \<Longrightarrow> buf' = buf" by blast+
qed

lemma block_write_run:
  assumes ok: "block_ok bd content rinv s" and run: "block_write (Some bd) lba buf s = (rc, s')"
  shows "block_ok bd content rinv s'"
    "rc = 0 \<Longrightarrow> content (bl_dev s') = (content (bl_dev s))(lba := buf) \<and> history (bl_dev s') = history (bl_dev s) @ [(lba, buf)]"
    "rc \<noteq> 0 \<Longrightarrow> content (bl_dev s') = content (bl_dev s) \<and> history (bl_dev s') = history (bl_dev s)
      \<or> (\<exists>junk. content (bl_dev s') = (content (bl_dev s))(lba := junk)
           \<and> history (bl_dev s') = history (bl_dev s) @ [(lba, junk)])"
proof -
  let ?C = "content (bl_dev s)" and ?H = "history (bl_dev s)" and ?es = "bl_cache s" and ?i = "cache_slot lba s"
  have coh: "cache_coherent ?C ?es" and r: "rinv (bl_dev s)" and len: "length ?es = 64"
    using ok by (auto simp: block_ok_def cache_coherent_def)
  have "block_ok bd content rinv s'
    \<and> (rc = 0 \<longrightarrow> content (bl_dev s') = ?C(lba := buf) \<and> history (bl_dev s') = ?H @ [(lba, buf)])
    \<and> (rc \<noteq> 0 \<longrightarrow> content (bl_dev s') = ?C \<and> history (bl_dev s') = ?H
      \<or> (\<exists>junk. content (bl_dev s') = ?C(lba := junk) \<and> history (bl_dev s') = ?H @ [(lba, junk)]))"
  proof (cases "lba < bd_nblocks bd")
    case False
    then show ?thesis using run ok by (simp add: block_write_def)
  next
    case lba: True
    let ?clock = "u64 (bl_clock s + 1)"
    let ?e = "(?es ! ?i)\<lparr>ce_lba := lba, ce_data := buf, ce_stamp := ?clock\<rparr>"
    obtain d where wr: "bd_write bd (bl_dev s) lba buf = (rc, d)"
      and s': "s' = s\<lparr>bl_clock := ?clock, bl_dev := d,
        bl_cache := ?es[?i := if rc = 0 then ?e else ?e\<lparr>ce_stamp := 0\<rparr>]\<rparr>"
    proof -
      obtain rc1 d where w: "bd_write bd (bl_dev s) lba buf = (rc1, d)" by fastforce
      have sl: "(case cache_lookup lba (s\<lparr>bl_busy := True\<rparr>) of Some i \<Rightarrow> i | None \<Rightarrow> cache_victim (s\<lparr>bl_busy := True\<rparr>)) = ?i"
        by (simp add: cache_slot_def cache_busy split: option.split)
      have "\<not> bl_panic s" "\<not> bl_busy s" using ok by (auto simp: block_ok_def)
      then have "rc1 = rc" "s' = s\<lparr>bl_clock := ?clock, bl_dev := d,
          bl_cache := ?es[?i := if rc = 0 then ?e else ?e\<lparr>ce_stamp := 0\<rparr>]\<rparr>"
        using run lba w len cache_slot(1) [OF coh, of lba]
        by (auto simp: block_write_def enter_ok [OF ok lba] sl cache_touch_def Let_def split: if_splits)
      then show thesis using that w by blast
    qed
    have other: "\<And>j. j < 64 \<Longrightarrow> j \<noteq> ?i \<Longrightarrow> ce_stamp (?es ! j) \<noteq> 0 \<Longrightarrow> ce_lba (?es ! j) \<noteq> lba"
      by (rule cache_slot(2) [OF coh])
    note wc = coherent_write [OF coh cache_slot(1) [OF coh] other]
    show ?thesis
    proof (cases "rc = 0")
      case True
      then show ?thesis
        using raw_write [OF r lba, of buf d] wr s' ok wc(1) [where e = ?e and blk = buf] by (simp add: block_ok_def)
    next
      case False
      have "cache_coherent ?C (?es[?i := ?e\<lparr>ce_stamp := 0\<rparr>])" using coh by (rule coherent_drop) simp
      then show ?thesis
        using raw_write_fail [OF r lba wr False] False s' ok wc(2) [where e = "?e\<lparr>ce_stamp := 0\<rparr>"]
        by (auto simp: block_ok_def simp del: fun_upd_apply)
    qed
  qed
  then show "block_ok bd content rinv s'"
    "rc = 0 \<Longrightarrow> content (bl_dev s') = ?C(lba := buf) \<and> history (bl_dev s') = ?H @ [(lba, buf)]"
    "rc \<noteq> 0 \<Longrightarrow> content (bl_dev s') = ?C \<and> history (bl_dev s') = ?H
      \<or> (\<exists>junk. content (bl_dev s') = ?C(lba := junk) \<and> history (bl_dev s') = ?H @ [(lba, junk)])" by blast+
qed

end

text \<open>The cached device is a block device for graphfs.\<close>

sublocale raw_disk \<subseteq> cached: block_dev "GDEV_OPS bd" "\<lambda>s. content (bl_dev s)" "\<lambda>s. history (bl_dev s)" "block_ok bd content rinv"
proof
  fix c lba r c'
  assume ok: "block_ok bd content rinv c" and rd: "op_read (GDEV_OPS bd) c lba = (r, c')"
  obtain rc buf where run: "block_read (Some bd) lba [] c = (rc, buf, c')" and r: "r = (if rc = 0 then Some buf else None)"
    using rd by (auto simp: GDEV_OPS_def gdev_read_def split: prod.splits)
  show "block_ok bd content rinv c' \<and> content (bl_dev c') = content (bl_dev c) \<and> history (bl_dev c') = history (bl_dev c)
      \<and> (\<forall>blk. r = Some blk \<longrightarrow> blk = content (bl_dev c) lba)"
    using block_read_run [OF ok run] r by auto
next
  fix c lba blk c'
  assume ok: "block_ok bd content rinv c" and wr: "op_write (GDEV_OPS bd) c lba blk = (True, c')"
  then have "block_write (Some bd) lba blk c = (0, c')"
    by (auto simp: GDEV_OPS_def gdev_write_def split: prod.splits)
  then show "block_ok bd content rinv c' \<and> content (bl_dev c') = (content (bl_dev c))(lba := blk)
      \<and> history (bl_dev c') = history (bl_dev c) @ [(lba, blk)]"
    using block_write_run(1,2) [OF ok] by blast
next
  fix c lba blk c'
  assume ok: "block_ok bd content rinv c" and wr: "op_write (GDEV_OPS bd) c lba blk = (False, c')"
  then obtain rc where "block_write (Some bd) lba blk c = (rc, c')" "rc \<noteq> 0"
    by (auto simp: GDEV_OPS_def gdev_write_def split: prod.splits)
  then show "block_ok bd content rinv c' \<and> (content (bl_dev c') = content (bl_dev c) \<and> history (bl_dev c') = history (bl_dev c)
        \<or> (\<exists>junk. content (bl_dev c') = (content (bl_dev c))(lba := junk) \<and> history (bl_dev c') = history (bl_dev c) @ [(lba, junk)]))"
    using block_write_run(1,3) [OF ok] by blast
qed

end
