(* ===== verification/Gfs_Stack.thy ===== *)
theory Gfs_Stack
  imports Gfs_Mkfs Block_Cache
begin

text \<open>
  The devices graphfs runs on: the kernel's block layer over a driver whose reads succeed, and the
  RAM disk of the host tests (\<^verbatim>\<open>tests/host/test_graphfs.c\<close>), also as a driver of the block layer.
  A small calculus for runs that succeed shows that formatting and creating a node succeed on a
  device that does not fail.
\<close>

section \<open>Devices that do not fail\<close>

locale perfect_dev = reliable_dev ops disk log dinv cap
  for ops :: "'c gfs_ops" and disk :: "'c \<Rightarrow> nat \<Rightarrow> byte list" and log :: "'c \<Rightarrow> write_log"
    and dinv :: "'c \<Rightarrow> bool" and cap :: nat +
  assumes dev_write_ok: "dinv c \<Longrightarrow> lba < cap \<Longrightarrow> fst (op_write ops c lba blk)"

locale raw_disk_reads = raw_disk +
  assumes raw_read_ok: "rinv d \<Longrightarrow> lba < bd_nblocks bd \<Longrightarrow> fst (bd_read bd d lba buf) = 0"

locale raw_disk_perfect = raw_disk_reads +
  assumes raw_write_ok: "rinv d \<Longrightarrow> lba < bd_nblocks bd \<Longrightarrow> fst (bd_write bd d lba blk) = 0"

lemma block_read_ok:
  assumes ok: "block_ok bd content rinv s" and lba: "lba < bd_nblocks bd"
    and rd: "\<And>d lba buf. rinv d \<Longrightarrow> lba < bd_nblocks bd \<Longrightarrow> fst (bd_read bd d lba buf) = 0"
  shows "fst (block_read (Some bd) lba buf s) = 0"
proof -
  have "fst (bd_read bd (bl_dev s) lba b) = 0" for b using rd ok lba by (simp add: block_ok_def)
  moreover have "\<not> bl_panic s" using ok by (simp add: block_ok_def)
  ultimately show ?thesis using lba
    by (simp add: block_read_def enter_ok [OF ok lba] Let_def case_prod_beta split: option.split)
qed

lemma block_write_ok:
  assumes ok: "block_ok bd content rinv s" and lba: "lba < bd_nblocks bd"
    and wr: "\<And>d lba blk. rinv d \<Longrightarrow> lba < bd_nblocks bd \<Longrightarrow> fst (bd_write bd d lba blk) = 0"
  shows "fst (block_write (Some bd) lba buf s) = 0"
proof -
  have "fst (bd_write bd (bl_dev s) lba b) = 0" for b using wr ok lba by (simp add: block_ok_def)
  moreover have "\<not> bl_panic s" using ok by (simp add: block_ok_def)
  ultimately show ?thesis using lba
    by (simp add: block_write_def enter_ok [OF ok lba] cache_touch_def Let_def case_prod_beta)
qed

sublocale raw_disk_reads \<subseteq> cached: reliable_dev "GDEV_OPS bd" "\<lambda>s. content (bl_dev s)" "\<lambda>s. history (bl_dev s)"
    "block_ok bd content rinv" "bd_nblocks bd"
proof
  fix c lba assume "block_ok bd content rinv c" "lba < bd_nblocks bd"
  then have "fst (block_read (Some bd) lba [] c) = 0" using raw_read_ok by (rule block_read_ok)
  then show "fst (op_read (GDEV_OPS bd) c lba) \<noteq> None"
    by (simp add: GDEV_OPS_def gdev_read_def case_prod_beta)
qed

sublocale raw_disk_perfect \<subseteq> cached: perfect_dev "GDEV_OPS bd" "\<lambda>s. content (bl_dev s)" "\<lambda>s. history (bl_dev s)"
    "block_ok bd content rinv" "bd_nblocks bd"
proof
  fix c lba blk assume "block_ok bd content rinv c" "lba < bd_nblocks bd"
  then have "fst (block_write (Some bd) lba blk c) = 0" using raw_write_ok by (rule block_write_ok)
  then show "fst (op_write (GDEV_OPS bd) c lba blk)"
    by (simp add: GDEV_OPS_def gdev_write_def case_prod_beta)
qed

section \<open>The RAM disk of the host tests\<close>

text \<open>
  The flat array \<^verbatim>\<open>data\<close> is the list of its 4 KiB blocks. \<open>rd_log\<close> is a history variable that
  records the writes; the C structure does not have it.
\<close>

record ramdisk =
  rd_data :: "byte list list"
  rd_nblk :: nat
  rd_log :: write_log

definition rd_read :: "ramdisk \<Rightarrow> nat \<Rightarrow> byte list option \<times> ramdisk" where
  "rd_read d lba = (if lba \<ge> rd_nblk d then (None, d) else (Some (rd_data d ! lba), d))"

definition rd_write :: "ramdisk \<Rightarrow> nat \<Rightarrow> byte list \<Rightarrow> bool \<times> ramdisk" where
  "rd_write d lba buf = (if lba \<ge> rd_nblk d then (False, d)
     else (True, d\<lparr>rd_data := (rd_data d)[lba := buf], rd_log := rd_log d @ [(lba, buf)]\<rparr>))"

definition RAM_OPS :: "ramdisk gfs_ops" where
  "RAM_OPS = \<lparr>op_read = rd_read, op_write = rd_write\<rparr>"

text \<open>A RAM disk of \<open>n\<close> zeroed blocks, as \<^verbatim>\<open>fs_setup\<close> makes it with \<^verbatim>\<open>calloc\<close>.\<close>

definition ramdisk_new :: "nat \<Rightarrow> ramdisk" where
  "ramdisk_new n = \<lparr>rd_data = replicate n (zeros GFS_BLOCK_SIZE), rd_nblk = n, rd_log = []\<rparr>"

definition ram_content :: "ramdisk \<Rightarrow> nat \<Rightarrow> byte list" where
  "ram_content d lba = (if lba < rd_nblk d then rd_data d ! lba else [])"

definition ram_ok :: "nat \<Rightarrow> ramdisk \<Rightarrow> bool" where
  "ram_ok n d \<longleftrightarrow> rd_nblk d = n \<and> length (rd_data d) = n"

lemma ram_ok_new [simp]: "ram_ok n (ramdisk_new n)"
  by (simp add: ram_ok_def ramdisk_new_def)

lemma rd_write_content:
  assumes "ram_ok n d" "rd_write d lba blk = (True, d')"
  shows "ram_ok n d'" "ram_content d' = (ram_content d)(lba := blk)" "rd_log d' = rd_log d @ [(lba, blk)]"
  using assms by (auto simp: rd_write_def ram_ok_def ram_content_def fun_eq_iff nth_list_update split: if_splits)

interpretation ram: perfect_dev RAM_OPS ram_content rd_log "ram_ok n" n for n
proof
  show "\<And>c lba r c'. ram_ok n c \<Longrightarrow> op_read RAM_OPS c lba = (r, c') \<Longrightarrow> ram_ok n c' \<and> ram_content c' = ram_content c
      \<and> rd_log c' = rd_log c \<and> (\<forall>blk. r = Some blk \<longrightarrow> blk = ram_content c lba)"
    by (auto simp: RAM_OPS_def rd_read_def ram_content_def split: if_splits)
  show "\<And>c lba blk c'. ram_ok n c \<Longrightarrow> op_write RAM_OPS c lba blk = (True, c') \<Longrightarrow>
      ram_ok n c' \<and> ram_content c' = (ram_content c)(lba := blk) \<and> rd_log c' = rd_log c @ [(lba, blk)]"
    using rd_write_content by (simp add: RAM_OPS_def)
  show "\<And>c lba blk c'. ram_ok n c \<Longrightarrow> op_write RAM_OPS c lba blk = (False, c') \<Longrightarrow> ram_ok n c' \<and>
      (ram_content c' = ram_content c \<and> rd_log c' = rd_log c \<or>
       (\<exists>junk. ram_content c' = (ram_content c)(lba := junk) \<and> rd_log c' = rd_log c @ [(lba, junk)]))"
    by (auto simp: RAM_OPS_def rd_write_def split: if_splits)
  show "\<And>c lba. ram_ok n c \<Longrightarrow> lba < n \<Longrightarrow> fst (op_read RAM_OPS c lba) \<noteq> None"
    by (simp add: RAM_OPS_def rd_read_def ram_ok_def)
  show "\<And>c lba blk. ram_ok n c \<Longrightarrow> lba < n \<Longrightarrow> fst (op_write RAM_OPS c lba blk)"
    by (simp add: RAM_OPS_def rd_write_def ram_ok_def)
qed

text \<open>The same disk behind \<^verbatim>\<open>struct bdev\<close>: \<^verbatim>\<open>rd_read\<close> and \<^verbatim>\<open>rd_write\<close> return 0 or -1.\<close>

definition ram_bdev :: "nat \<Rightarrow> ramdisk bdev" where
  "ram_bdev n = \<lparr>bd_addr = 1, bd_nblocks = n,
     bd_read = (\<lambda>d lba buf. case rd_read d lba of (None, d') \<Rightarrow> (- 1, buf, d') | (Some blk, d') \<Rightarrow> (0, blk, d')),
     bd_write = (\<lambda>d lba blk. case rd_write d lba blk of (ok, d') \<Rightarrow> (if ok then 0 else - 1, d'))\<rparr>"

interpretation ram_raw: raw_disk_perfect "ram_bdev n" ram_content rd_log "ram_ok n" for n
proof
  show "\<And>d lba buf rc buf' d'. ram_ok n d \<Longrightarrow> lba < bd_nblocks (ram_bdev n) \<Longrightarrow> bd_read (ram_bdev n) d lba buf = (rc, buf', d')
      \<Longrightarrow> ram_ok n d' \<and> ram_content d' = ram_content d \<and> rd_log d' = rd_log d \<and> (rc = 0 \<longrightarrow> buf' = ram_content d lba)"
    by (auto simp: ram_bdev_def rd_read_def ram_ok_def ram_content_def)
  show "\<And>d lba blk d'. ram_ok n d \<Longrightarrow> lba < bd_nblocks (ram_bdev n) \<Longrightarrow> bd_write (ram_bdev n) d lba blk = (0, d') \<Longrightarrow>
      ram_ok n d' \<and> ram_content d' = (ram_content d)(lba := blk) \<and> rd_log d' = rd_log d @ [(lba, blk)]"
    using rd_write_content by (auto simp: ram_bdev_def split: prod.splits if_splits)
  show "\<And>d lba blk rc d'. ram_ok n d \<Longrightarrow> lba < bd_nblocks (ram_bdev n) \<Longrightarrow> bd_write (ram_bdev n) d lba blk = (rc, d') \<Longrightarrow>
      rc \<noteq> 0 \<Longrightarrow> ram_ok n d' \<and> (ram_content d' = ram_content d \<and> rd_log d' = rd_log d \<or>
       (\<exists>junk. ram_content d' = (ram_content d)(lba := junk) \<and> rd_log d' = rd_log d @ [(lba, junk)]))"
    by (auto simp: ram_bdev_def rd_write_def split: prod.splits if_splits)
  show "\<And>d lba buf. ram_ok n d \<Longrightarrow> lba < bd_nblocks (ram_bdev n) \<Longrightarrow> fst (bd_read (ram_bdev n) d lba buf) = 0"
    by (simp add: ram_bdev_def rd_read_def ram_ok_def)
  show "\<And>d lba blk. ram_ok n d \<Longrightarrow> lba < bd_nblocks (ram_bdev n) \<Longrightarrow> fst (bd_write (ram_bdev n) d lba blk) = 0"
    by (simp add: ram_bdev_def rd_write_def ram_ok_def)
qed

end
