(* ===== verification/Gfs_Live.thy ===== *)
theory Gfs_Live
  imports Gfs_Stack
begin

text \<open>
  Runs of graphfs operations that succeed. \<open>runs fs m Q\<close> says that \<open>m\<close> returns from \<open>fs\<close>
  without an error, with a result and a state that satisfy \<open>Q\<close>; the rules follow the structure of
  the operations. On a device that does not fail, formatting succeeds, and so does creating a
  node when there are a free node and two free blocks.
\<close>

section \<open>Successful runs\<close>

definition runs :: "'c gfs \<Rightarrow> ('c, 'a) gfs_m \<Rightarrow> ('a \<Rightarrow> 'c gfs \<Rightarrow> bool) \<Rightarrow> bool" where
  "runs fs m Q \<longleftrightarrow> (\<exists>x fs'. m fs = Some (Inr x, fs') \<and> Q x fs')"

lemma runsI: "m fs = Some (Inr x, fs') \<Longrightarrow> Q x fs' \<Longrightarrow> runs fs m Q"
  by (auto simp: runs_def)

lemma runsE:
  assumes "runs fs m Q"
  obtains x fs' where "m fs = Some (Inr x, fs')" "Q x fs'"
  using assms by (auto simp: runs_def)

lemma runs_mono: "runs fs m Q \<Longrightarrow> (\<And>x fs'. Q x fs' \<Longrightarrow> R x fs') \<Longrightarrow> runs fs m R"
  by (auto simp: runs_def)

lemma runs_ret: "Q x fs \<Longrightarrow> runs fs (gret x) Q"
  by (simp add: runs_def gret_def)

lemma runs_mod: "Q () (u fs) \<Longrightarrow> runs fs (gmod u) Q"
  by (simp add: runs_def gmod_def)

lemma runs_get: "runs fs (f fs) Q \<Longrightarrow> runs fs (gget f) Q"
  by (simp add: runs_def gget_def)

lemma runs_fail_if: "\<not> c \<Longrightarrow> Q () fs \<Longrightarrow> runs fs (gfail_if c e) Q"
  by (simp add: runs_def gfail_if_def gret_def)

lemma runs_bind: "runs fs m (\<lambda>x fs1. runs fs1 (f x) Q) \<Longrightarrow> runs fs (gbind m f) Q"
  by (auto simp: runs_def gbind_def)

lemma runs_seq: "runs fs m (\<lambda>_ fs1. runs fs1 k Q) \<Longrightarrow> runs fs (gseq m k) Q"
  unfolding gseq_def by (rule runs_bind)

lemma runs_fold:
  assumes "\<And>x s fs. x \<in> set xs \<Longrightarrow> I fs \<Longrightarrow> runs fs (f x s) (\<lambda>_. I)" "I fs"
  shows "runs fs (gfold f xs s) (\<lambda>_. I)"
  using assms
proof (induction xs arbitrary: s fs)
  case Nil
  then show ?case by (simp add: runs_ret)
next
  case (Cons x xs)
  have "runs fs (f x s) (\<lambda>s' fs'. runs fs' (gfold f xs s') (\<lambda>_. I))"
    by (rule runs_mono [OF Cons.prems(1)]) (use Cons in auto)
  then show ?case by (simp add: runs_bind)
qed

lemma runs_for:
  assumes "\<And>x fs. x \<in> set xs \<Longrightarrow> I fs \<Longrightarrow> runs fs (f x) (\<lambda>_. I)" "I fs"
  shows "runs fs (gfor xs f) (\<lambda>_. I)"
  using assms
proof (induction xs arbitrary: fs)
  case Nil
  then show ?case by (simp add: runs_ret)
next
  case (Cons x xs)
  have "runs fs (f x) (\<lambda>_ fs'. runs fs' (gfor xs f) (\<lambda>_. I))"
    by (rule runs_mono [OF Cons.prems(1)]) (use Cons in auto)
  then show ?case by (simp add: runs_seq)
qed

lemmas runs_first = runs_bind runs_seq runs_get runs_mod runs_ret

lemma runs_alloc_block:
  assumes i: "data_first fs \<le> i" "i < g_total_blocks fs" "both_free fs i"
    and Q: "\<And>p. data_first fs \<le> p \<Longrightarrow> p < g_total_blocks fs \<Longrightarrow> both_free fs p \<Longrightarrow>
      Q p (fs\<lparr>g_working_bm := bm_set (g_working_bm fs) p\<rparr>)"
  shows "runs fs alloc_block Q"
proof (cases "List.find (both_free fs) [data_first fs..<g_total_blocks fs]")
  case None
  then show ?thesis using i by (auto simp: find_None_iff)
next
  case (Some p)
  then have "p \<in> set [data_first fs..<g_total_blocks fs]" "both_free fs p" by (auto simp: find_Some_iff)
  then show ?thesis using Some Q by (intro runsI) (auto simp: alloc_block_def)
qed

section \<open>The node table on disk\<close>

definition map_entry :: "byte list \<Rightarrow> nat \<Rightarrow> gfs_bp" where
  "map_entry m bi = \<lparr>bp_phys = rd64 m (bi * MP_SIZE + MP_PHYS), bp_crc = rd32 m (bi * MP_SIZE + MP_CRC)\<rparr>"

lemma map_get_eq: "map_get fs bi = map_entry (g_map fs) bi"
  by (simp add: map_get_def map_entry_def Let_def)

text \<open>Every table block that the node map names can be read, and node \<open>nid\<close> is a free node.\<close>

definition tables_ok :: "(nat \<Rightarrow> byte list) \<Rightarrow> nat \<Rightarrow> nat \<Rightarrow> byte list \<Rightarrow> bool" where
  "tables_ok d tot nc m \<longleftrightarrow> (\<forall>bi < (nc + 15) div 16. let bp = map_entry m bi in
     bp_phys bp = 0 \<or> bp_phys bp < tot \<and> unat (crc32c (d (bp_phys bp))) = bp_crc bp)"

definition node_is_free :: "(nat \<Rightarrow> byte list) \<Rightarrow> nat \<Rightarrow> byte list \<Rightarrow> nat \<Rightarrow> bool" where
  "node_is_free d nc m nid \<longleftrightarrow> 0 < nid \<and> nid < nc \<and> (let bp = map_entry m (nid div 16) in
     bp_phys bp = 0 \<or> rd32 (d (bp_phys bp)) (nid mod 16 * GFS_NODE_SIZE + ND_TYPE) = GFS_NODE_FREE)"

context perfect_dev
begin

text \<open>The device is in order and holds the whole file system.\<close>

definition ready :: "'c gfs \<Rightarrow> bool" where
  "ready fs \<longleftrightarrow> dinv (g_ctx fs) \<and> g_ops fs = ops \<and> g_total_blocks fs \<le> cap"

lemma write_ok:
  assumes "dinv c" "lba < cap"
  obtains c' where "op_write ops c lba blk = (True, c')" "dinv c'" "disk c' = (disk c)(lba := blk)"
    "log c' = log c @ [(lba, blk)]"
proof -
  obtain ok c' where w: "op_write ops c lba blk = (ok, c')" by fastforce
  then have "op_write ops c lba blk = (True, c')" using dev_write_ok [OF assms, of blk] by simp
  then show thesis using that dev_write [OF assms(1)] by blast
qed

lemma runs_dev_write:
  assumes "dinv (g_ctx fs)" "g_ops fs = ops" "lba < cap" "\<And>c. dinv c \<Longrightarrow> Q () (fs\<lparr>g_ctx := c\<rparr>)"
  shows "runs fs (Gfs_Mount.dev_write lba blk) Q"
  by (rule write_ok [OF assms(1,3), of blk]) (rule runsI, simp add: dev_write_def assms(2), rule assms(4))

lemma runs_bwrite:
  assumes "ready fs" "lba < g_total_blocks fs"
    and "\<And>c. dinv c \<Longrightarrow> disk c = (disk (g_ctx fs))(lba := blk) \<Longrightarrow> log c = log (g_ctx fs) @ [(lba, blk)] \<Longrightarrow>
      Q () (fs\<lparr>g_ctx := c\<rparr>)"
  shows "runs fs (bwrite lba blk) Q"
proof -
  have c: "dinv (g_ctx fs)" "g_ops fs = ops" "lba < cap" using assms(1,2) by (auto simp: ready_def)
  show ?thesis
    by (rule write_ok [OF c(1,3), of blk]) (rule runsI, use assms(2) in \<open>simp add: bwrite_def c(2)\<close>, rule assms(3))
qed

lemma runs_read_meta:
  assumes "ready fs" "bp_phys bp < g_total_blocks fs" "unat (crc32c (disk (g_ctx fs) (bp_phys bp))) = bp_crc bp"
    and "\<And>c. dinv c \<Longrightarrow> disk c = disk (g_ctx fs) \<Longrightarrow> log c = log (g_ctx fs) \<Longrightarrow>
      Q (disk (g_ctx fs) (bp_phys bp)) (put (disk (g_ctx fs) (bp_phys bp)) (fs\<lparr>g_ctx := c\<rparr>))"
  shows "runs fs (read_meta bp put) Q"
proof -
  have c: "dinv (g_ctx fs)" "g_ops fs = ops" "g_total_blocks fs \<le> cap" using assms(1) by (auto simp: ready_def)
  show ?thesis
    by (rule read_meta_ok [OF c(1,2) assms(2) c(3) assms(3), of put]) (rule runsI, assumption, rule assms(4))
qed

section \<open>Formatting succeeds\<close>

lemma gfs_mkfs_ok:
  assumes d: "dinv c" and t: "tot < 2 ^ 63" "tot \<le> cap" "4 + 2 * mkfs_bitmap_blocks tot \<le> tot" "0 < mkfs_bitmap_blocks tot"
  shows "\<exists>tmp. gfs_mkfs ops c tot nodes = Some (Inr (), tmp)"
proof -
  let ?bb = "mkfs_bitmap_blocks tot"
  define I where "I fs \<longleftrightarrow> dinv (g_ctx fs) \<and> g_ops fs = ops" for fs :: "'c gfs"
  have w: "runs fs (Gfs_Mount.dev_write lba blk) (\<lambda>_. I)" if "I fs" "lba < tot" for lba blk fs
    by (rule runs_dev_write) (use that t in \<open>auto simp: I_def\<close>)
  have copy: "runs fs (mkfs_bitmap_copy tot up 2 ?bb n cp) (\<lambda>_. I)" if "I fs" "cp \<le> 1" for fs up n cp
  proof -
    have "cp * ?bb \<le> ?bb" using that(2) by (cases cp) auto
    then have "2 + cp * ?bb + j < tot" if "j < ?bb" for j using t(3) that by linarith
    then show ?thesis
      unfolding mkfs_bitmap_copy_def Let_def
      by (intro runs_bind runs_mono [OF runs_fold [where I = I, OF _ that(1)]] runs_seq runs_ret)
        (auto intro!: runs_seq runs_mono [OF w] runs_ret)
  qed
  have I0: "I (gfs_blank ops c)" using d by (simp add: I_def gfs_blank_def)
  have lt: "3 + 2 * ?bb < tot" "2 + 2 * ?bb < tot" "0 < tot" "1 < tot" using t(3) by auto
  have slots: "runs fs (gfor [0, 1] (\<lambda>gen. gseq (gmod (sb_encode gen nm y fb fn))
        (gget (\<lambda>tmp. Gfs_Mount.dev_write gen (g_sb tmp))))) (\<lambda>_. I)" if "I fs" for fs nm y fb fn
    by (rule runs_for [where I = I, OF _ that]) (use lt in \<open>auto intro!: runs_first w simp: I_def sb_encode_def\<close>)
  have "runs (gfs_blank ops c) (gseq (Gfs_Mount.dev_write (3 + 2 * ?bb) mkfs_root_table)
      (gseq (Gfs_Mount.dev_write (2 + 2 * ?bb) (mkfs_node_map (3 + 2 * ?bb)))
      (gbind (gfold (\<lambda>copy _. mkfs_bitmap_copy tot (4 + 2 * ?bb) 2 ?bb ((tot + 7) div 8) copy) [0, 1] 0) (\<lambda>bmcrc.
      gseq (gmod (\<lambda>tmp. tmp\<lparr>g_total_blocks := tot, g_node_count := max 2 (min nodes GFS_MAX_NODES),
          g_root_node := GFS_ROOT_NODE, g_bitmap_start := 2, g_bitmap_blocks := ?bb\<rparr>))
      (gfor [0, 1] (\<lambda>gen.
        gseq (gmod (sb_encode gen \<lparr>bp_phys = 2 + 2 * ?bb, bp_crc = unat (crc32c (mkfs_node_map (3 + 2 * ?bb)))\<rparr>
                bmcrc (tot - (4 + 2 * ?bb)) (max 2 (min nodes GFS_MAX_NODES) - 2)))
        (gget (\<lambda>tmp. Gfs_Mount.dev_write gen (g_sb tmp))))))))) (\<lambda>_. I)"
    apply (rule runs_seq, rule runs_mono [OF w [OF I0 lt(1)]])
    apply (rule runs_seq, rule runs_mono [OF w [OF _ lt(2)]], assumption)
    apply (rule runs_bind, rule runs_mono [OF runs_fold [where I = I]])
      apply (rule copy, assumption, force, assumption)
    apply (rule runs_seq, rule runs_mod, rule slots)
    by (simp add: I_def)
  then show ?thesis
    unfolding gfs_mkfs_eq [OF t(1) refl t(4) refl] using t(3) by (auto elim!: runsE simp del: gfor.simps gfold.simps)
qed

section \<open>Creating a node succeeds\<close>

text \<open>States that differ from \<open>fs\<close> in the device state and the table buffer only.\<close>

definition same_but_tbl :: "'c gfs \<Rightarrow> 'c gfs \<Rightarrow> bool" where
  "same_but_tbl fs fs' \<longleftrightarrow> (\<exists>c t. fs' = fs\<lparr>g_ctx := c, g_tbl := t\<rparr> \<and> dinv c \<and> disk c = disk (g_ctx fs) \<and> log c = log (g_ctx fs))"

lemma same_but_tbl_refl: "dinv (g_ctx fs) \<Longrightarrow> same_but_tbl fs fs"
  unfolding same_but_tbl_def by (intro exI [of _ "g_ctx fs"] exI [of _ "g_tbl fs"]) simp

lemma same_but_tbl_trans: "same_but_tbl fs fs1 \<Longrightarrow> same_but_tbl fs1 fs2 \<Longrightarrow> same_but_tbl fs fs2"
  unfolding same_but_tbl_def by force

lemma runs_find_free_from:
  assumes "ready fs" "tables_ok (disk (g_ctx fs)) (g_total_blocks fs) nc (g_map fs)" "2 \<le> nc"
    "\<forall>bi \<in> set bis. bi < (nc + 15) div 16"
  shows "runs fs (node_find_free_from nc bis) (\<lambda>nid fs'. same_but_tbl fs fs'
    \<and> (nid \<noteq> 0 \<longrightarrow> node_is_free (disk (g_ctx fs)) nc (g_map fs) nid)
    \<and> (nid = 0 \<longrightarrow> (\<forall>bi \<in> set bis. \<forall>k < 16. \<not> node_is_free (disk (g_ctx fs)) nc (g_map fs) (bi * 16 + k))))"
  using assms
proof (induction bis arbitrary: fs)
  case Nil
  then show ?case by (simp add: runs_ret same_but_tbl_refl ready_def)
next
  case (Cons bi bis)
  let ?d = "disk (g_ctx fs)" and ?m = "g_map fs"
  let ?bp = "map_entry ?m bi"
  have bi: "bi * 16 < nc" using Cons.prems(4) by (simp add: less_eq_div_iff_mult_less_eq) linarith
  have idx: "(bi * 16 + k) div 16 = bi" "(bi * 16 + k) mod 16 = k" if "k < 16" for k using that by simp_all
  show ?case
  proof (cases "bp_phys ?bp = 0")
    case True
    let ?n = "if bi * 16 = 0 then 1 else bi * 16"
    have "node_is_free ?d nc ?m ?n" using True bi Cons.prems(3) by (auto simp: node_is_free_def)
    moreover have "?n \<noteq> 0" by simp
    ultimately show ?thesis
      using True Cons.prems(1) by (auto intro!: runs_get runs_ret simp: map_get_eq Let_def same_but_tbl_refl ready_def)
  next
    case False
    then have bp: "bp_phys ?bp < g_total_blocks fs" "unat (crc32c (?d (bp_phys ?bp))) = bp_crc ?bp"
      using Cons.prems(2,4) by (auto simp: tables_ok_def Let_def)
    have free: "node_is_free ?d nc ?m (bi * 16 + k) \<longleftrightarrow> (let cand = bi * 16 + k in
        cand \<noteq> 0 \<and> cand < nc \<and> rd32 (?d (bp_phys ?bp)) (k * 256 + 0) = 0)" if "k < 16" for k
      using False idx [OF that] by (simp add: node_is_free_def Let_def)
    show ?thesis
      unfolding node_find_free_from.simps map_get_eq Let_def
      apply (rule runs_get)
      apply (simp only: False if_False)
      apply (rule runs_bind, rule runs_read_meta [OF Cons.prems(1) bp])
      subgoal for c
      proof -
        assume c: "dinv c" "disk c = ?d" "log c = log (g_ctx fs)"
        define fs1 where "fs1 = fs\<lparr>g_ctx := c, g_tbl := ?d (bp_phys ?bp)\<rparr>"
        have s1: "same_but_tbl fs fs1" unfolding same_but_tbl_def fs1_def using c by blast
        have r1: "ready fs1" "g_map fs1 = ?m" "disk (g_ctx fs1) = ?d" "g_total_blocks fs1 = g_total_blocks fs"
          using c Cons.prems(1) by (auto simp: ready_def fs1_def)
        have IH: "runs fs1 (node_find_free_from nc bis) (\<lambda>nid fs'. same_but_tbl fs1 fs'
            \<and> (nid \<noteq> 0 \<longrightarrow> node_is_free ?d nc ?m nid)
            \<and> (nid = 0 \<longrightarrow> (\<forall>bi \<in> set bis. \<forall>k < 16. \<not> node_is_free ?d nc ?m (bi * 16 + k))))"
          using Cons.IH [OF r1(1)] Cons.prems r1 by simp
        let ?P = "\<lambda>k. bi * 16 + k \<noteq> 0 \<and> bi * 16 + k < nc \<and> rd32 (g_tbl fs1) (k * 256 + 0) = 0"
        have P: "?P k \<longleftrightarrow> node_is_free ?d nc ?m (bi * 16 + k)" if "k < 16" for k
          unfolding free [OF that] by (simp add: fs1_def Let_def)
        show ?thesis
          unfolding fs1_def [symmetric]
          apply (rule runs_get)
        proof (cases "List.find ?P [0..<16]")
          case None
          then have "\<forall>k < 16. \<not> ?P k" by (simp add: find_None_iff)
          then have none: "\<forall>k < 16. \<not> node_is_free ?d nc ?m (bi * 16 + k)" using P by blast
          show "runs fs1 (case List.find ?P [0..<16] of None \<Rightarrow> node_find_free_from nc bis | Some k \<Rightarrow> gret (bi * 16 + k))
             (\<lambda>nid fs'. same_but_tbl fs fs' \<and> (nid \<noteq> 0 \<longrightarrow> node_is_free ?d nc ?m nid)
                \<and> (nid = 0 \<longrightarrow> (\<forall>bi \<in> set (bi # bis). \<forall>k < 16. \<not> node_is_free ?d nc ?m (bi * 16 + k))))"
            unfolding None option.case by (rule runs_mono [OF IH]) (use none same_but_tbl_trans [OF s1] in auto)
        next
          case (Some k)
          then have "k < 16" "?P k" by (auto simp: find_Some_iff)
          then show "runs fs1 (case List.find ?P [0..<16] of None \<Rightarrow> node_find_free_from nc bis | Some k \<Rightarrow> gret (bi * 16 + k))
             (\<lambda>nid fs'. same_but_tbl fs fs' \<and> (nid \<noteq> 0 \<longrightarrow> node_is_free ?d nc ?m nid)
                \<and> (nid = 0 \<longrightarrow> (\<forall>bi \<in> set (bi # bis). \<forall>k < 16. \<not> node_is_free ?d nc ?m (bi * 16 + k))))"
            unfolding Some option.case using s1 P by (intro runs_ret) auto
        qed
      qed
      done
  qed
qed

lemma runs_find_free:
  assumes r: "ready fs" and t: "tables_ok (disk (g_ctx fs)) (g_total_blocks fs) (g_node_count fs) (g_map fs)"
    and nc: "2 \<le> g_node_count fs" and free: "node_is_free (disk (g_ctx fs)) (g_node_count fs) (g_map fs) nid0"
  shows "runs fs node_find_free (\<lambda>nid fs'. same_but_tbl fs fs'
    \<and> node_is_free (disk (g_ctx fs)) (g_node_count fs) (g_map fs) nid)"
proof -
  let ?nc = "g_node_count fs" and ?F = "node_is_free (disk (g_ctx fs)) (g_node_count fs) (g_map fs)"
  let ?bis = "[0..<(?nc + 16 - 1) div 16]"
  have lt: "\<forall>bi \<in> set ?bis. bi < (?nc + 15) div 16" by (simp add: add.commute)
  have "nid0 < ?nc" using free by (simp add: node_is_free_def)
  then have "nid0 div 16 < (?nc + 16 - 1) div 16" by linarith
  then have mem: "nid0 div 16 \<in> set ?bis" by simp
  have id: "nid0 div 16 * 16 + nid0 mod 16 = nid0" "nid0 mod 16 < 16" by simp_all
  show ?thesis
    unfolding node_find_free_def Let_def
    apply (rule runs_get, rule runs_bind, rule runs_mono [OF runs_find_free_from [OF r t nc lt]])
    subgoal for nid fs'
    proof -
      assume a: "same_but_tbl fs fs' \<and> (nid \<noteq> 0 \<longrightarrow> ?F nid)
        \<and> (nid = 0 \<longrightarrow> (\<forall>bi \<in> set ?bis. \<forall>k < 16. \<not> ?F (bi * 16 + k)))"
      then have "nid \<noteq> 0" using mem id free by (metis id(1))
      then have "?F nid" "nid < ?nc" using a by (auto simp: node_is_free_def)
      then show ?thesis using a \<open>nid \<noteq> 0\<close> by (auto intro!: runs_ret)
    qed
    done
qed

lemma both_free_set: "i < 8 * length (g_working_bm fs) \<Longrightarrow> p < 8 * length (g_working_bm fs) \<Longrightarrow>
    both_free (fs\<lparr>g_working_bm := bm_set (g_working_bm fs) p\<rparr>) i \<longleftrightarrow> both_free fs i \<and> i \<noteq> p"
  by (auto simp: both_free_def)

lemma both_free_free_block:
  assumes "both_free fs i" "p < 8 * length (g_working_bm fs)"
  shows "both_free (free_block p fs) i"
  using assms by (auto simp: both_free_def free_block_def)

lemma runs_node_write:
  assumes r: "ready fs" and g: "geom_ok fs" and i: "data_first fs \<le> i" "i < g_total_blocks fs" "both_free fs i"
    and t: "let bp = map_get fs (nid div 16) in bp_phys bp = 0 \<or> bp_phys bp < g_total_blocks fs
      \<and> unat (crc32c (disk (g_ctx fs) (bp_phys bp))) = bp_crc bp"
  shows "runs fs (node_write nid n) (\<lambda>_ fs'. ready fs' \<and> live fs' = live fs
    \<and> length (g_working_bm fs') = length (g_working_bm fs)
    \<and> (\<exists>p. \<forall>i < g_total_blocks fs. both_free fs i \<longrightarrow> i \<noteq> p \<longrightarrow> both_free fs' i))"
proof -
  let ?old = "map_get fs (nid div 16)"
  have len: "g_total_blocks fs \<le> 8 * length (g_working_bm fs)" using geom_bounds(6) [OF g] geom_facts(8) [OF g] by simp
  have load: "runs fs (if bp_phys ?old = 0 then gmod (to_tbl (zeros 4096)) else gbind (read_meta ?old to_tbl) (\<lambda>_. gret ()))
      (\<lambda>_. same_but_tbl fs)"
  proof (cases "bp_phys ?old = 0")
    case True
    have "same_but_tbl fs (fs\<lparr>g_tbl := x\<rparr>)" for x
      unfolding same_but_tbl_def using r by (intro exI [of _ "g_ctx fs"] exI [of _ x]) (simp add: ready_def)
    then show ?thesis using True by (simp add: runs_mod)
  next
    case False
    then have bp: "bp_phys ?old < g_total_blocks fs" "unat (crc32c (disk (g_ctx fs) (bp_phys ?old))) = bp_crc ?old"
      using t by (auto simp: Let_def)
    show ?thesis
      unfolding if_not_P [OF False] same_but_tbl_def
      by (rule runs_bind, rule runs_read_meta [OF r bp], rule runs_ret) blast
  qed
  have old: "bp_phys ?old < 8 * length (g_working_bm fs)" using t len i(2) by (auto simp: Let_def)
  show ?thesis
    unfolding node_write_def Let_def
    apply (rule runs_get, rule runs_seq, rule runs_mono [OF load])
    subgoal for _ fs1
    proof -
      assume "same_but_tbl fs fs1"
      then obtain c tb where fs1: "fs1 = fs\<lparr>g_ctx := c, g_tbl := tb\<rparr>" "dinv c" by (auto simp: same_but_tbl_def)
      define fs2 where "fs2 = fs1\<lparr>g_tbl := bsplice (nid mod 16 * 256) (node_encode n) (g_tbl fs1)\<rparr>"
      have f2: "data_first fs2 = data_first fs" "g_total_blocks fs2 = g_total_blocks fs" "both_free fs2 = both_free fs"
        "g_working_bm fs2 = g_working_bm fs" "live fs2 = live fs" "ready fs2"
        using fs1 r by (auto simp: fs2_def data_first_def both_free_def fun_eq_iff ready_def)
      show ?thesis
        apply (rule runs_seq, rule runs_mod, fold fs2_def, rule runs_bind)
        apply (rule runs_alloc_block [of _ i])
           apply (simp_all only: f2 i)
        unfolding write_meta_def
        apply (rule runs_bind, rule runs_get, rule runs_seq, rule runs_bwrite)
          apply (use f2(6) in \<open>simp add: ready_def\<close>, simp add: f2)
        apply (rule runs_ret, rule runs_seq, rule runs_mod, rule runs_mod)
        subgoal for p c'
        proof -
          assume p: "data_first fs \<le> p" "p < g_total_blocks fs" "both_free fs p" and c': "dinv c'"
          let ?w = "bm_set (g_working_bm fs) p"
          let ?fs3 = "\<lambda>bp. free_block (bp_phys ?old) (map_set (nid div 16) bp (fs2\<lparr>g_working_bm := ?w, g_ctx := c'\<rparr>))"
          have cm: "g_committed_bm fs2 = g_committed_bm fs" using f2(5) by (simp add: live_eq_iff)
          have "both_free (?fs3 bp) j" if "j < g_total_blocks fs" "both_free fs j" "j \<noteq> p" for j bp
          proof (rule both_free_free_block)
            show "both_free (map_set (nid div 16) bp (fs2\<lparr>g_working_bm := ?w, g_ctx := c'\<rparr>)) j"
              using that p len f2(4) cm by (simp add: both_free_def map_set_def Let_def)
            show "bp_phys ?old < 8 * length (g_working_bm (map_set (nid div 16) bp (fs2\<lparr>g_working_bm := ?w, g_ctx := c'\<rparr>)))"
              using old by (simp add: map_set_def Let_def)
          qed
          moreover have "live (?fs3 bp) = live fs" "length (g_working_bm (?fs3 bp)) = length (g_working_bm fs)" "ready (?fs3 bp)" for bp
            using f2 c' by (auto simp: free_block_def map_set_def Let_def ready_def)
          ultimately show ?thesis by blast
        qed
        done
    qed
    done
qed

lemma runs_write_bitmap:
  assumes r: "ready fs" and g: "geom_ok fs" and p: "p \<le> 1"
  shows "runs fs (write_bitmap p bm) (\<lambda>_ fs'. ready fs' \<and> live fs' = live fs)"
  unfolding write_bitmap_eq
proof (rule runs_get, rule runs_for)
  fix j fs' assume j: "j \<in> set [0..<g_bitmap_blocks fs]" and f: "ready fs' \<and> live fs' = live fs"
  have "bitmap_lba fs p j < g_total_blocks fs" using bitmap_lba_less [OF g p] j by simp
  then have lba: "bitmap_lba fs' p j < g_total_blocks fs'" using f by (simp add: bitmap_lba_def live_eq_iff)
  let ?blk = "bitmap_block bm (g_bm_bytes fs') j"
  have "runs (fs'\<lparr>g_b := ?blk\<rparr>) (bwrite (bitmap_lba fs' p j) ?blk) (\<lambda>_ fs'. ready fs' \<and> live fs' = live fs)"
    by (rule runs_bwrite) (use f lba in \<open>auto simp: ready_def\<close>)
  then show "runs fs' (write_bitmap_body p bm j) (\<lambda>_ fs'. ready fs' \<and> live fs' = live fs)"
    unfolding runs_def write_bitmap_body_eq .
qed (use r in simp)

lemma runs_commit:
  assumes r: "ready fs" and g: "geom_ok fs" and i: "data_first fs \<le> i" "i < g_total_blocks fs" "both_free fs i"
  shows "runs fs (txn_commit nd) (\<lambda>_ fs'. g_generation fs' = u64 (g_generation fs + 1))"
proof -
  have pub: "runs fs' (commit_publish ng nm nd) (\<lambda>_ fs''. g_generation fs'' = ng)"
    if f: "ready fs'" "live fs' = live fs" "length (g_working_bm fs') = length (g_working_bm fs)" for fs' ng nm
  proof -
    have g': "geom_ok fs'" using g geom_live [OF f(2,3)] by simp
    have par: "ng mod 2 \<le> 1" by auto
    show ?thesis
      unfolding commit_publish_def Let_def
      apply (rule runs_get, rule runs_seq, rule runs_mono [OF runs_write_bitmap [OF f(1) g' par]])
      apply (rule runs_get, rule runs_seq, rule runs_mod, rule runs_seq, rule runs_get, rule runs_bwrite)
        apply (simp add: ready_def sb_encode_def)
      subgoal for _ fs1
        using geom_facts(2) [OF g'] geom_bounds(2) [OF g'] by (simp add: sb_encode_def live_eq_iff)
      apply (rule runs_mod, simp)
      done
  qed
  show ?thesis
    unfolding txn_commit_eq write_meta_def
    apply (rule runs_get, rule runs_bind, rule runs_alloc_block [OF i])
    apply (rule runs_bind, rule runs_get, rule runs_seq, rule runs_bwrite)
      apply (use r in \<open>simp add: ready_def\<close>, simp)
    apply (rule runs_ret, rule runs_seq, rule runs_mod, rule pub)
    by (use r in \<open>auto simp: ready_def free_block_def\<close>)
qed

lemma runs_write_commit:
  assumes r: "ready fs" and g: "geom_ok fs" and ne: "i \<noteq> j"
    and i: "data_first fs \<le> i" "i < g_total_blocks fs" "both_free fs i"
    and j: "data_first fs \<le> j" "j < g_total_blocks fs" "both_free fs j"
    and t: "let bp = map_get fs (nid div 16) in bp_phys bp = 0 \<or> bp_phys bp < g_total_blocks fs
      \<and> unat (crc32c (disk (g_ctx fs) (bp_phys bp))) = bp_crc bp"
  shows "runs fs (gseq (node_write nid n) (gseq (txn_commit nd) (gret x)))
    (\<lambda>y fs'. y = x \<and> g_generation fs' = u64 (g_generation fs + 1))"
  apply (rule runs_seq, rule runs_mono [OF runs_node_write [OF r g i t]])
  subgoal for _ fs1
  proof -
    assume "ready fs1 \<and> live fs1 = live fs \<and> length (g_working_bm fs1) = length (g_working_bm fs)
      \<and> (\<exists>p. \<forall>i < g_total_blocks fs. both_free fs i \<longrightarrow> i \<noteq> p \<longrightarrow> both_free fs1 i)"
    then obtain p where f1: "ready fs1" "live fs1 = live fs" "length (g_working_bm fs1) = length (g_working_bm fs)"
      and p: "\<forall>i < g_total_blocks fs. both_free fs i \<longrightarrow> i \<noteq> p \<longrightarrow> both_free fs1 i" by blast
    have eq: "data_first fs1 = data_first fs" "g_total_blocks fs1 = g_total_blocks fs" "g_generation fs1 = g_generation fs"
      using f1(2) live_data_first [OF f1(2)] by (auto simp: live_eq_iff)
    have "\<exists>k. data_first fs1 \<le> k \<and> k < g_total_blocks fs1 \<and> both_free fs1 k"
      unfolding eq using i j p ne by (cases "i = p") auto
    then obtain k where k: "data_first fs1 \<le> k" "k < g_total_blocks fs1" "both_free fs1 k" by blast
    have g1: "geom_ok fs1" using g geom_live [OF f1(2,3)] by simp
    show ?thesis by (rule runs_seq, rule runs_mono [OF runs_commit [OF f1(1) g1 k]], rule runs_ret) (use eq in simp)
  qed
  done

text \<open>The state after \<^verbatim>\<open>txn_begin\<close>: the working bitmap and the node map are the committed ones.\<close>

definition begun :: "'c gfs \<Rightarrow> 'c gfs \<Rightarrow> bool" where
  "begun fs fs' \<longleftrightarrow> (\<exists>c. fs' = fs\<lparr>g_working_bm := g_committed_bm fs, g_ctx := c,
       g_map := disk (g_ctx fs) (bp_phys (g_nodemap fs))\<rparr>
     \<and> dinv c \<and> disk c = disk (g_ctx fs) \<and> log c = log (g_ctx fs))"

lemma runs_txn_begin:
  assumes r: "ready fs" and on: "gfs_on_disk (disk (g_ctx fs)) fs"
  shows "runs fs txn_begin (\<lambda>_. begun fs)"
proof -
  have g: "geom_ok fs" by (rule on_disk_facts(1) [OF on])
  have len: "bsplice 0 (bslice 0 (g_bm_bytes fs) (g_committed_bm fs)) (g_working_bm fs) = g_committed_bm fs"
    using geom_facts(7,8) [OF g] by (simp add: slice_whole splice_all)
  let ?fs1 = "fs\<lparr>g_working_bm := g_committed_bm fs\<rparr>"
  have "runs ?fs1 (read_meta (g_nodemap fs) to_map) (\<lambda>_. begun fs)"
  proof (rule runs_read_meta)
    show "ready ?fs1" using r by (simp add: ready_def)
    show "bp_phys (g_nodemap fs) < g_total_blocks ?fs1" "unat (crc32c (disk (g_ctx ?fs1) (bp_phys (g_nodemap fs)))) = bp_crc (g_nodemap fs)"
      using on_disk_facts(8,9) [OF on] by simp_all
  qed (auto simp: begun_def)
  then show ?thesis
    unfolding txn_begin_def
    by (intro runs_get runs_seq runs_fail_if runs_mod runs_bind)
      (use on_disk_facts(2) [OF on] in \<open>auto simp: len elim!: runs_mono intro!: runs_ret\<close>)
qed

lemma begun_facts:
  assumes "begun fs fs'" "ready fs" "geom_ok fs"
  shows "ready fs'" "live fs' = live fs" "geom_ok fs'" "disk (g_ctx fs') = disk (g_ctx fs)"
    "g_map fs' = disk (g_ctx fs) (bp_phys (g_nodemap fs))" "both_free fs' i \<longleftrightarrow> \<not> bm_test (g_committed_bm fs) i"
proof -
  show 1: "ready fs'" "live fs' = live fs" "disk (g_ctx fs') = disk (g_ctx fs)"
    "g_map fs' = disk (g_ctx fs) (bp_phys (g_nodemap fs))" "both_free fs' i \<longleftrightarrow> \<not> bm_test (g_committed_bm fs) i"
    using assms(1,2) by (auto simp: begun_def ready_def both_free_def)
  have "length (g_working_bm fs') = length (g_working_bm fs)"
    using assms(1) geom_facts(7,8) [OF assms(3)] by (auto simp: begun_def)
  then show "geom_ok fs'" using assms(3) geom_live [OF 1(2)] by blast
qed

lemma same_but_tbl_facts:
  assumes "same_but_tbl fs fs'" "ready fs"
  shows "ready fs'" "live fs' = live fs" "disk (g_ctx fs') = disk (g_ctx fs)" "g_map fs' = g_map fs"
    "both_free fs' i = both_free fs i" "length (g_working_bm fs') = length (g_working_bm fs)"
  using assms by (auto simp: same_but_tbl_def ready_def both_free_def)

text \<open>With a free node, two free blocks and readable node tables, creating a node succeeds.\<close>

lemma gfs_node_create_ok:
  assumes r: "ready fs" and on: "gfs_on_disk (disk (g_ctx fs)) fs"
    and i: "i \<noteq> j" "cow_target fs i" "cow_target fs j"
    and t: "tables_ok (disk (g_ctx fs)) (g_total_blocks fs) (g_node_count fs) (disk (g_ctx fs) (bp_phys (g_nodemap fs)))"
    and free: "node_is_free (disk (g_ctx fs)) (g_node_count fs) (disk (g_ctx fs) (bp_phys (g_nodemap fs))) nid0"
    and ty: "typ = GFS_NODE_NAMESPACE \<or> typ = GFS_NODE_DATA"
  shows "runs fs (gfs_node_create typ mode) (\<lambda>nid fs'. g_generation fs' = u64 (g_generation fs + 1)
    \<and> node_is_free (disk (g_ctx fs)) (g_node_count fs) (disk (g_ctx fs) (bp_phys (g_nodemap fs))) nid)"
proof -
  let ?d = "disk (g_ctx fs)" and ?m = "disk (g_ctx fs) (bp_phys (g_nodemap fs))"
  have g: "geom_ok fs" by (rule on_disk_facts(1) [OF on])
  have step: "runs fs2 (gseq (node_write nid n) (gseq (txn_commit nd) (gret nid)))
      (\<lambda>nid' fs'. g_generation fs' = u64 (g_generation fs + 1) \<and> node_is_free ?d (g_node_count fs) ?m nid')"
    if b: "begun fs fs1" and s: "same_but_tbl fs1 fs2" and nid: "node_is_free ?d (g_node_count fs) ?m nid" for fs1 fs2 nid n nd
  proof -
    note f1 = begun_facts [OF b r g]
    note f2 = same_but_tbl_facts [OF s f1(1)]
    have l: "live fs2 = live fs" using f1(2) f2(2) by simp
    have eq: "data_first fs2 = data_first fs" "g_total_blocks fs2 = g_total_blocks fs" "g_generation fs2 = g_generation fs"
      using l live_data_first [OF l] by (auto simp: live_eq_iff)
    have g2: "geom_ok fs2" using f1(3) geom_live [OF f2(2,6)] by simp
    have "nid div 16 < (g_node_count fs + 15) div 16" using nid by (auto simp: node_is_free_def)
    then have tb: "let bp = map_get fs2 (nid div 16) in bp_phys bp = 0 \<or> bp_phys bp < g_total_blocks fs2
        \<and> unat (crc32c (disk (g_ctx fs2) (bp_phys bp))) = bp_crc bp"
      using t unfolding map_get_eq f2 f1 eq tables_ok_def by blast
    show ?thesis
      by (rule runs_mono [OF runs_write_commit [OF f2(1) g2 i(1) _ _ _ _ _ _ tb]])
        (use i nid f1(6) f2(5) eq in \<open>auto simp: cow_target_def\<close>)
  qed
  have find: "runs fs1 node_find_free (\<lambda>nid fs2. same_but_tbl fs1 fs2 \<and> node_is_free ?d (g_node_count fs) ?m nid)"
    if b: "begun fs fs1" for fs1
  proof -
    note f1 = begun_facts [OF b r g]
    have eq: "g_total_blocks fs1 = g_total_blocks fs" "g_node_count fs1 = g_node_count fs"
      using f1(2) by (auto simp: live_eq_iff)
    show ?thesis
      using runs_find_free [OF f1(1), of nid0] t free geom_facts(4) [OF g] unfolding f1(4,5) eq by blast
  qed
  show ?thesis
    unfolding gfs_node_create_def
    apply (rule runs_seq, rule runs_fail_if, use ty in blast)
    apply (rule runs_seq, rule runs_mono [OF runs_txn_begin [OF r on]])
    apply (rule runs_bind, rule runs_mono [OF find], assumption)
    by (rule step) auto
qed

end

end
