(* ===== verification/Gfs_Query.thy ===== *)
theory Gfs_Query
  imports Gfs_Crash
begin

text \<open>
  The reading operations of graphfs as calls, and that they write nothing: neither to the device
  nor to the live state of the mount.
\<close>

datatype gfs_query =
    Query_node_get nat
  | Query_lookup nat "byte list"
  | Query_resolve "byte list"
  | Query_edge_get nat nat
  | Query_read nat nat nat

datatype gfs_answer =
    Answer_node gfs_node
  | Answer_id nat
  | Answer_edge gfs_edge
  | Answer_data "byte list"

fun gfs_ask :: "gfs_query \<Rightarrow> ('c, gfs_answer) gfs_m" where
  "gfs_ask (Query_node_get nid) = gbind (gfs_node_get nid) (\<lambda>n. gret (Answer_node n))"
| "gfs_ask (Query_lookup dir name) = gbind (gfs_lookup dir name) (\<lambda>i. gret (Answer_id i))"
| "gfs_ask (Query_resolve path) = gbind (gfs_resolve path) (\<lambda>i. gret (Answer_id i))"
| "gfs_ask (Query_edge_get nid index) = gbind (gfs_edge_get nid index) (\<lambda>e. gret (Answer_edge e))"
| "gfs_ask (Query_read nid off len) = gbind (gfs_read nid off len) (\<lambda>d. gret (Answer_data d))"

context block_dev
begin

lemma keeps_map_load: "keeps T fs0 map_load"
  unfolding map_load_def by (intro keeps_intros keeps_blocks)

lemma keeps_if_known: "(c \<Longrightarrow> keeps T fs0 a) \<Longrightarrow> (\<not> c \<Longrightarrow> keeps T fs0 b) \<Longrightarrow> keeps T fs0 (if c then a else b)"
  by simp

lemma keeps_resolve_walk: "keeps T fs0 (gfs_resolve_walk p cur)"
proof (induction p cur rule: gfs_resolve_walk.induct)
  case (1 p0 cur)
  note IH = 1 [OF refl _ refl refl]
  show ?case
    by (subst gfs_resolve_walk.simps, unfold Let_def) (rule keeps_if_known keeps_intros IH | assumption)+
qed

lemma keeps_read_loop: "keeps T fs0 (gfs_read_loop n off len k dst)"
proof (induction "len - k" arbitrary: k dst rule: less_induct)
  case less
  let ?ch0 = "4096 - (off + k) mod 4096"
  let ?ch = "if ?ch0 > len - k then len - k else ?ch0"
  have IH: "keeps T fs0 (gfs_read_loop n off len (k + ?ch) dst')" if "k < len" for dst'
    by (rule less) (use that in auto)
  show ?case
    by (subst gfs_read_loop.simps, unfold Let_def) (rule keeps_if_known keeps_bind keeps_get keeps_bread keeps_blocks IH keeps_ret | assumption)+
qed

lemma keeps_edge_get_loop: "keeps T fs0 (edge_get_loop index running cur)"
proof (rule keepsI)
  let ?F = "frame T fs0"
  fix fs :: "'c gfs" and y assume "edge_get_loop index running cur fs = Some y"
  then show "?F fs \<longrightarrow> ?F (snd y)"
  proof (rule edge_get_loop.raw_induct [rotated, where P = "\<lambda>index running cur fs y. ?F fs \<longrightarrow> ?F (snd y)"])
    fix loop :: "nat \<Rightarrow> nat \<Rightarrow> gfs_bp \<Rightarrow> ('c, gfs_edge) gfs_m" and index running cur and fs :: "'c gfs" and y
    let ?rec = "\<lambda>fs1 :: 'c gfs. eb_rec (g_a fs1) (index - running)"
    let ?run' = "\<lambda>fs1 :: 'c gfs. u32 (running + rd32 (g_a fs1) EB_COUNT)"
    let ?edge = "\<lambda>fs1. \<lparr>ge_type = rd32 (?rec fs1) ER_TYPE, ge_target = rd64 (?rec fs1) ER_TARGET,
                     ge_name = bslice ER_NAME (rd32 (?rec fs1) ER_NAMELEN) (?rec fs1)\<rparr>"
    assume IH: "\<And>index running cur fs y. loop index running cur fs = Some y \<Longrightarrow> ?F fs \<longrightarrow> ?F (snd y)"
    assume run: "(if bp_phys cur = 0 then gfail GFS_ECORRUPT fs
      else gbind (read_meta cur to_a) (\<lambda>_ fs1.
        if index < ?run' fs1
        then (if rd32 (?rec fs1) ER_NAMELEN > GFS_NAME_MAX then gfail GFS_ECORRUPT fs1 else gret (?edge fs1) fs1)
        else loop index (?run' fs1) (eb_next (g_a fs1)) fs1) fs) = Some y"
    have "keeps T fs0 (loop index running cur)" for index running cur using IH by (auto intro: keepsI)
    then have C: "keeps T fs0 (if index < ?run' fs1
        then (if rd32 (?rec fs1) ER_NAMELEN > GFS_NAME_MAX then gfail GFS_ECORRUPT else gret (?edge fs1))
        else loop index (?run' fs1) (eb_next (g_a fs1)))" for fs1
      by (intro keeps_intros)
    have K: "keeps T fs0 (gbind (read_meta cur to_a) (\<lambda>_ fs1. (if index < ?run' fs1
        then (if rd32 (?rec fs1) ER_NAMELEN > GFS_NAME_MAX then gfail GFS_ECORRUPT else gret (?edge fs1))
        else loop index (?run' fs1) (eb_next (g_a fs1))) fs1))"
      by (rule keeps_bind_state [OF _ C]) (intro keeps_intros keeps_blocks)
    have e: "(if index < ?run' fs1
        then (if rd32 (?rec fs1) ER_NAMELEN > GFS_NAME_MAX then gfail GFS_ECORRUPT else gret (?edge fs1))
        else loop index (?run' fs1) (eb_next (g_a fs1))) fs1
      = (if index < ?run' fs1
        then (if rd32 (?rec fs1) ER_NAMELEN > GFS_NAME_MAX then gfail GFS_ECORRUPT fs1 else gret (?edge fs1) fs1)
        else loop index (?run' fs1) (eb_next (g_a fs1)) fs1)" for fs1
      by simp
    show "?F fs \<longrightarrow> ?F (snd y)"
      using run keepsD [OF K [unfolded e], of fs "fst y" "snd y"] by (auto simp: gfail_def split: if_splits)
  qed
qed

lemma keeps_query: "keeps T fs0 (gfs_ask q)"
  by (cases q; simp only: gfs_ask.simps gfs_node_get_def gfs_lookup_def gfs_resolve_def gfs_edge_get_def
      gfs_read_def Let_def)
    (intro keeps_intros keeps_map_load keeps_resolve_walk keeps_read_loop keeps_edge_get_loop)+

end

end
