(* ===== verification/Gfs_Theorems.thy ===== *)
theory Gfs_Theorems
  imports Gfs_Live Gfs_Query
begin

text \<open>
  The transaction properties of graphfs on the kernel's storage stack: graphfs over the block cache
  over a driver. The driver is a parameter; the hypotheses about it are the locales \<open>raw_disk\<close>
  and its extensions. The witnesses put the RAM disk of the host tests behind the cache, format it
  and mount it.
\<close>

section \<open>A freshly formatted RAM disk\<close>

lemma block_register_ok:
  assumes "bl_root s = None" "length (bl_cache s) = 64" "length frames = 64" "None \<notin> set frames"
    "0 < bd_nblocks bd" "\<not> bl_busy s" "\<not> bl_panic s" "rinv (bl_dev s)"
  shows "block_ok bd content rinv (block_register (Some bd) frames s)"
  using assms by (auto simp: block_register_def block_ok_def cache_coherent_def)

definition ram_block :: "nat \<Rightarrow> ramdisk block_layer" where
  "ram_block n = block_register (Some (ram_bdev n)) (replicate CACHE_ENTRIES (Some (zeros GFS_BLOCK_SIZE)))
     \<lparr>bl_root = None, bl_cache = replicate CACHE_ENTRIES \<lparr>ce_lba = 0, ce_stamp = 0, ce_data = []\<rparr>, bl_clock = 0,
      bl_busy = False, bl_panic = False, bl_dev = ramdisk_new n\<rparr>"

lemma ram_block_ok: "0 < n \<Longrightarrow> block_ok (ram_bdev n) ram_content (ram_ok n) (ram_block n)"
  unfolding ram_block_def by (rule block_register_ok) (simp_all add: ram_bdev_def)

lemma mkfs_node_map_entry:
  assumes "r < 2 ^ 64" "bi < 256"
  shows "map_entry (mkfs_node_map r) bi = (if bi = 0 then \<lparr>bp_phys = r, bp_crc = unat (crc32c mkfs_root_table)\<rparr>
     else \<lparr>bp_phys = 0, bp_crc = 0\<rparr>)"
proof (cases "bi = 0")
  case True
  have "unat (crc32c mkfs_root_table) < 2 ^ 32" using unsigned_less [of "crc32c mkfs_root_table"] by simp
  then show ?thesis using True assms(1) by (simp add: map_entry_def mkfs_node_map_def)
next
  case False
  have z: "rd32 (zeros 4096) off = 0" if "off + 4 \<le> 4096" for off using that by (simp add: rd32_def)
  have "rd64 (zeros 4096) (bi * 16) = 0" "rd32 (zeros 4096) (bi * 16 + 8) = 0"
    using z [of "bi * 16"] z [of "bi * 16 + 4"] z [of "bi * 16 + 8"] assms(2) by (simp_all add: rd64_def)
  then show ?thesis using False assms(2) by (simp add: map_entry_def mkfs_node_map_def)
qed

lemma mkfs_root_table_free: "1 < k \<Longrightarrow> k < 16 \<Longrightarrow> rd32 mkfs_root_table (k * 256) = 0"
proof -
  assume k: "1 < k" "k < 16"
  have "length (node_encode mkfs_root) = 256" by simp
  then have "mkfs_root_table ! i = 0" if "512 \<le> i" "i < 4096" for i
    using that by (simp add: mkfs_root_table_def nth_splice)
  then show ?thesis using k by (simp add: rd32_def)
qed

text \<open>The disk of 64 blocks with 64 nodes, formatted and mounted through the block cache.\<close>

definition fresh_fs :: "ramdisk block_layer gfs \<Rightarrow> bool" where
  "fresh_fs fs \<longleftrightarrow> (\<exists>tmp w. gfs_mkfs (GDEV_OPS (ram_bdev 64)) (ram_block 64) 64 64 = Some (Inr (), tmp)
     \<and> gfs_mount (GDEV_OPS (ram_bdev 64)) (g_ctx tmp) True (Some w) = Some (Inr (), fs))"

lemma fresh_blocks: "mkfs_bitmap_blocks 64 = 1"
  by (simp add: mkfs_bitmap_blocks_def)

lemma fresh_fs_ex:
  obtains fs where "fresh_fs fs" "block_ok (ram_bdev 64) ram_content (ram_ok 64) (g_ctx fs)"
    "g_ops fs = GDEV_OPS (ram_bdev 64)" "live fs = live (mkfs_view RAM_OPS (ramdisk_new 64) 64 64)"
    "gfs_on_disk (ram_content (bl_dev (g_ctx fs))) fs"
    "ram_content (bl_dev (g_ctx fs)) 4 = mkfs_node_map 5" "ram_content (bl_dev (g_ctx fs)) 5 = mkfs_root_table"
proof -
  let ?ops = "GDEV_OPS (ram_bdev 64)"
  have nb: "bd_nblocks (ram_bdev 64) = 64" by (simp add: ram_bdev_def)
  have ok: "block_ok (ram_bdev 64) ram_content (ram_ok 64) (ram_block 64)" by (rule ram_block_ok) simp
  obtain tmp where m: "gfs_mkfs ?ops (ram_block 64) 64 64 = Some (Inr (), tmp)"
    using ram_raw.cached.gfs_mkfs_ok [OF ok, of 64 64] by (auto simp: nb fresh_blocks)
  let ?v = "mkfs_view ?ops (g_ctx tmp) 64 64"
  have t: "block_ok (ram_bdev 64) ram_content (ram_ok 64) (g_ctx tmp)"
    "gfs_on_disk (ram_content (bl_dev (g_ctx tmp))) ?v"
    "ram_content (bl_dev (g_ctx tmp)) 4 = mkfs_node_map 5" "ram_content (bl_dev (g_ctx tmp)) 5 = mkfs_root_table"
    using ram_raw.cached.gfs_mkfs_run [OF ok _ m] by (auto simp: fresh_blocks)
  have vt: "g_total_blocks ?v = 64" by (rule mkfs_view_fields(3))
  obtain fs where "gfs_mount ?ops (g_ctx tmp) True (Some (zeros (gfs_mount_work_size 64))) = Some (Inr (), fs)"
    "live fs = live ?v" "g_ops fs = ?ops" "block_ok (ram_bdev 64) ram_content (ram_ok 64) (g_ctx fs)"
    "ram_content (bl_dev (g_ctx fs)) = ram_content (bl_dev (g_ctx tmp))" "gfs_on_disk (ram_content (bl_dev (g_ctx fs))) fs"
    using ram_raw.cached.gfs_mount_ok [OF t(1) _ t(2), of "zeros (gfs_mount_work_size 64)"] by (auto simp: nb vt)
  moreover have "live ?v = live (mkfs_view RAM_OPS (ramdisk_new 64) 64 64)"
    by (simp add: live_def mkfs_view_def Let_def gfs_blank_def)
  ultimately show thesis using that m t(3,4) unfolding fresh_fs_def by metis
qed

lemma fresh_fs_facts:
  assumes "live fs = live (mkfs_view RAM_OPS (ramdisk_new 64) 64 64)"
  shows "g_total_blocks fs = 64" "g_generation fs = 1" "g_node_count fs = 64" "bp_phys (g_nodemap fs) = 4"
    "6 \<le> i \<Longrightarrow> i < 64 \<Longrightarrow> cow_target fs i"
proof -
  let ?v = "mkfs_view RAM_OPS (ramdisk_new 64) 64 64"
  note v = mkfs_view_fields [of RAM_OPS "ramdisk_new 64" 64 64, unfolded fresh_blocks]
  have nc: "g_node_count ?v = 64" by (simp add: mkfs_view_def Let_def)
  show "g_total_blocks fs = 64" "g_generation fs = 1" "g_node_count fs = 64" "bp_phys (g_nodemap fs) = 4"
    using assms v nc by (auto simp: live_eq_iff)
  assume i: "6 \<le> i" "i < 64"
  have g: "geom_ok ?v" by (rule mkfs_view_geom) (simp_all add: fresh_blocks)
  have "\<not> bm_test (g_committed_bm ?v) i" using mkfs_bm_test [OF g, of i 6] i by (simp add: v)
  moreover have "data_first ?v = 4" using geom_bounds(1) [OF g] by (simp add: v)
  ultimately show "cow_target fs i"
    using assms i v live_data_first [OF assms] by (auto simp: cow_target_def live_eq_iff)
qed

lemma fresh_fs_tables:
  assumes "d 4 = mkfs_node_map 5" "d 5 = mkfs_root_table"
  shows "tables_ok d 64 64 (d 4)" "node_is_free d 64 (d 4) 2"
proof -
  have e: "map_entry (d 4) bi = (if bi = 0 then \<lparr>bp_phys = 5, bp_crc = unat (crc32c mkfs_root_table)\<rparr>
     else \<lparr>bp_phys = 0, bp_crc = 0\<rparr>)" if "bi < 256" for bi
    using mkfs_node_map_entry [of 5 bi] assms(1) that by simp
  show "tables_ok d 64 64 (d 4)" using e assms(2) by (auto simp: tables_ok_def Let_def)
  show "node_is_free d 64 (d 4) 2"
    using e [of 0] mkfs_root_table_free [of 2] assms(2) by (simp add: node_is_free_def)
qed

text \<open>A node is created on the fresh disk.\<close>

lemma fresh_node_create:
  obtains fs0 nid fs1 where "fresh_fs fs0" "block_ok (ram_bdev 64) ram_content (ram_ok 64) (g_ctx fs0)"
    "g_ops fs0 = GDEV_OPS (ram_bdev 64)" "g_total_blocks fs0 = 64" "g_generation fs0 = 1"
    "gfs_on_disk (ram_content (bl_dev (g_ctx fs0))) fs0"
    "gfs_exec (Call_node_create GFS_NODE_DATA 420) fs0 = Some (Inr nid, fs1)" "g_generation fs1 = 2"
proof -
  obtain fs where f: "fresh_fs fs" "block_ok (ram_bdev 64) ram_content (ram_ok 64) (g_ctx fs)"
    "g_ops fs = GDEV_OPS (ram_bdev 64)" "live fs = live (mkfs_view RAM_OPS (ramdisk_new 64) 64 64)"
    "gfs_on_disk (ram_content (bl_dev (g_ctx fs))) fs"
    "ram_content (bl_dev (g_ctx fs)) 4 = mkfs_node_map 5" "ram_content (bl_dev (g_ctx fs)) 5 = mkfs_root_table"
    using fresh_fs_ex by blast
  note v = fresh_fs_facts [OF f(4)]
  have r: "ram_raw.cached.ready 64 fs"
    unfolding ram_raw.cached.ready_def using f(2,3) v(1) by (simp add: ram_bdev_def)
  have "runs fs (gfs_node_create 2 420) (\<lambda>nid fs'. g_generation fs' = u64 (g_generation fs + 1)
      \<and> node_is_free (ram_content (bl_dev (g_ctx fs))) (g_node_count fs) (ram_content (bl_dev (g_ctx fs)) (bp_phys (g_nodemap fs))) nid)"
    by (rule ram_raw.cached.gfs_node_create_ok [OF r f(5), of 6 7 2 2 420])
      (use v fresh_fs_tables [OF f(6,7)] in simp_all)
  then obtain nid fs1 where "gfs_node_create 2 420 fs = Some (Inr nid, fs1)" "g_generation fs1 = 2"
    using v(2) by (auto elim!: runsE)
  then show thesis using that [of fs nid fs1] f v by simp
qed

section \<open>Crash consistency\<close>

context raw_disk_reads
begin

lemma cached_reliable: "reliable_dev (GDEV_OPS bd) (\<lambda>s. content (bl_dev s)) (\<lambda>s. history (bl_dev s))
    (block_ok bd content rinv) (bd_nblocks bd)"
  by unfold_locales

end

context raw_disk
begin

lemma cached_block_dev: "block_dev (GDEV_OPS bd) (\<lambda>s. content (bl_dev s)) (\<lambda>s. history (bl_dev s)) (block_ok bd content rinv)"
  by unfold_locales

end

text \<open>
  C1. Crash consistency of graphfs on the block cache. While a mutating call runs, it issues block
  writes \<open>ws\<close>. If the machine stops after any proper prefix of them, possibly with the next write
  torn, and the machine is rebooted on the disk that results (an arbitrary coherent block layer
  state with that content), then a writable mount succeeds and yields exactly the file system
  before the call. The driver's reads are assumed to succeed; its writes may fail.
\<close>

theorem gfs_crash_consistent:
  assumes "raw_disk_reads bd content history rinv"
    and "block_ok bd content rinv (g_ctx fs0)" "g_ops fs0 = GDEV_OPS bd" "g_total_blocks fs0 \<le> bd_nblocks bd"
    and "gfs_on_disk (content (bl_dev (g_ctx fs0))) fs0" "g_generation fs0 + 1 < 2 ^ 64"
    and "gfs_exec call fs0 = Some (r, fs1)"
    and "history (bl_dev (g_ctx fs1)) = history (bl_dev (g_ctx fs0)) @ ws"
    and "n < length ws" "torn_write fs0 (ws ! n) torn"
    and "block_ok bd content rinv c" "content (bl_dev c) = apply_writes (take n ws @ torn) (content (bl_dev (g_ctx fs0)))"
    and "gfs_mount_work_size (g_total_blocks fs0) \<le> length w"
  shows "mounts_as (GDEV_OPS bd) c w (live fs0)"
  by (rule reliable_dev.crash_before_publish [OF raw_disk_reads.cached_reliable [OF assms(1)] assms(2-13)])

text \<open>The block layer after a reboot on a disk with the given blocks.\<close>

definition ram_reboot :: "(nat \<Rightarrow> byte list) \<Rightarrow> ramdisk block_layer" where
  "ram_reboot d = (ram_block 64)\<lparr>bl_dev := \<lparr>rd_data = map d [0..<64], rd_nblk = 64, rd_log = []\<rparr>\<rparr>"

lemma ram_reboot_ok: "block_ok (ram_bdev 64) ram_content (ram_ok 64) (ram_reboot d)"
  unfolding ram_reboot_def ram_block_def
  by (auto simp: block_ok_def block_register_def cache_coherent_def ram_bdev_def ram_ok_def)

lemma ram_reboot_content: "(\<And>l. 64 \<le> l \<Longrightarrow> d l = []) \<Longrightarrow> ram_content (bl_dev (ram_reboot d)) = d"
  unfolding ram_reboot_def by (auto simp: fun_eq_iff ram_content_def not_less)

text \<open>What an operation writes, from the theory of the mutating operations.\<close>

context block_dev
begin

lemma gfs_exec_writes:
  assumes d: "dinv (g_ctx fs0)" "g_ops fs0 = ops" and on: "gfs_on_disk (disk (g_ctx fs0)) fs0"
    and gen: "g_generation fs0 + 1 < 2 ^ 64" and run: "gfs_exec call fs0 = Some (r, fs1)"
  obtains ws ws1 ws2 where "log (g_ctx fs1) = log (g_ctx fs0) @ ws" "ws = ws1 @ ws2"
    "disk (g_ctx fs1) = apply_writes ws (disk (g_ctx fs0))"
    "\<forall>w \<in> set ws1. quiet_target fs0 (fst w)" "ws2 = [] \<or> (\<exists>blk. ws2 = [((g_generation fs0 + 1) mod 2, blk)])"
    "ws2 = [] \<or> isl r \<Longrightarrow> live fs1 = live fs0"
    "ws2 \<noteq> [] \<Longrightarrow> \<not> isl r \<Longrightarrow> g_generation fs1 = g_generation fs0 + 1"
proof -
  have "outcome fs0 r fs1"
    using gfs_exec_ends [OF on gen] frame_refl [OF d(2,1)] run unfolding ends_def by blast
  then obtain ws where ws: "log (g_ctx fs1) = log (g_ctx fs0) @ ws" "disk (g_ctx fs1) = apply_writes ws (disk (g_ctx fs0))"
    and c: "(live fs1 = live fs0 \<and> (\<forall>w \<in> set ws. quiet_target fs0 (fst w)))
      \<or> (\<exists>ws1 blk. ws = ws1 @ [((g_generation fs0 + 1) mod 2, blk)] \<and> (\<forall>w \<in> set ws1. quiet_target fs0 (fst w))
         \<and> (isl r \<and> live fs1 = live fs0 \<or> \<not> isl r \<and> g_generation fs1 = g_generation fs0 + 1))"
    unfolding outcome_def by blast
  from c show thesis
  proof
    assume "live fs1 = live fs0 \<and> (\<forall>w \<in> set ws. quiet_target fs0 (fst w))"
    then show thesis using that [of ws ws "[]"] ws by simp
  next
    assume "\<exists>ws1 blk. ws = ws1 @ [((g_generation fs0 + 1) mod 2, blk)] \<and> (\<forall>w \<in> set ws1. quiet_target fs0 (fst w))
      \<and> (isl r \<and> live fs1 = live fs0 \<or> \<not> isl r \<and> g_generation fs1 = g_generation fs0 + 1)"
    then obtain ws1 blk where "ws = ws1 @ [((g_generation fs0 + 1) mod 2, blk)]" "\<forall>w \<in> set ws1. quiet_target fs0 (fst w)"
      "isl r \<and> live fs1 = live fs0 \<or> \<not> isl r \<and> g_generation fs1 = g_generation fs0 + 1" by blast
    then show thesis using that [of ws ws1 "[((g_generation fs0 + 1) mod 2, blk)]"] ws by auto
  qed
qed

end

lemma quiet_target_less: "geom_ok fs \<Longrightarrow> quiet_target fs lba \<Longrightarrow> lba < g_total_blocks fs"
  using bitmap_lba_less [of fs "(g_generation fs + 1) mod 2"] by (auto simp: quiet_target_def cow_target_def)

lemma fresh_writes:
  assumes ok: "block_ok (ram_bdev 64) ram_content (ram_ok 64) (g_ctx fs0)" "g_ops fs0 = GDEV_OPS (ram_bdev 64)"
    and on: "gfs_on_disk (ram_content (bl_dev (g_ctx fs0))) fs0" and t: "g_total_blocks fs0 = 64" "g_generation fs0 = 1"
    and run: "gfs_exec call fs0 = Some (Inr x, fs1)" and gen: "g_generation fs1 = 2"
  obtains ws where "rd_log (bl_dev (g_ctx fs1)) = rd_log (bl_dev (g_ctx fs0)) @ ws" "ws \<noteq> []" "\<forall>w \<in> set ws. fst w < 64"
proof -
  have g1: "g_generation fs0 + 1 < 2 ^ 64" using t by simp
  obtain ws ws1 ws2 where w: "rd_log (bl_dev (g_ctx fs1)) = rd_log (bl_dev (g_ctx fs0)) @ ws" "ws = ws1 @ ws2"
    "\<forall>w \<in> set ws1. quiet_target fs0 (fst w)" "ws2 = [] \<or> (\<exists>blk. ws2 = [((g_generation fs0 + 1) mod 2, blk)])"
    "ws2 = [] \<longrightarrow> live fs1 = live fs0"
    by (rule ram_raw.cached.gfs_exec_writes [OF ok on g1 run]) (rule that, assumption+, simp)
  have "ws2 \<noteq> []" using w(5) gen t(2) by (auto simp: live_eq_iff)
  moreover have "\<forall>w \<in> set ws. fst w < 64"
    using w(2-4) t quiet_target_less [OF on_disk_facts(1) [OF on]] by auto
  ultimately show thesis using that w(1,2) by simp
qed

lemma sb_valid_zeros: "sb_valid (zeros 4096) = None"
  by (simp add: sb_valid_def rd64_def rd32_def)

theorem gfs_crash_consistent_witness:
  "\<exists>fs0 nid fs1 ws. fresh_fs fs0 \<and> gfs_exec (Call_node_create GFS_NODE_DATA 420) fs0 = Some (Inr nid, fs1)
    \<and> rd_log (bl_dev (g_ctx fs1)) = rd_log (bl_dev (g_ctx fs0)) @ ws \<and> ws \<noteq> []
    \<and> mounts_as (GDEV_OPS (ram_bdev 64))
        (ram_reboot (apply_writes [(fst (ws ! 0), zeros 4096)] (ram_content (bl_dev (g_ctx fs0))))) (zeros 16) (live fs0)"
proof -
  obtain fs0 nid fs1 where f: "fresh_fs fs0" "block_ok (ram_bdev 64) ram_content (ram_ok 64) (g_ctx fs0)"
    "g_ops fs0 = GDEV_OPS (ram_bdev 64)" "g_total_blocks fs0 = 64" "g_generation fs0 = 1"
    "gfs_on_disk (ram_content (bl_dev (g_ctx fs0))) fs0"
    "gfs_exec (Call_node_create GFS_NODE_DATA 420) fs0 = Some (Inr nid, fs1)" "g_generation fs1 = 2"
    using fresh_node_create by blast
  obtain ws where ws: "rd_log (bl_dev (g_ctx fs1)) = rd_log (bl_dev (g_ctx fs0)) @ ws" "ws \<noteq> []" "\<forall>w \<in> set ws. fst w < 64"
    using fresh_writes [OF f(2,3,6,4,5,7,8)] by blast
  let ?d = "apply_writes [(fst (ws ! 0), zeros 4096)] (ram_content (bl_dev (g_ctx fs0)))"
  have nb: "bd_nblocks (ram_bdev 64) = 64" by (simp add: ram_bdev_def)
  have lt: "fst (ws ! 0) < 64" using ws(2,3) by simp
  have "rd_nblk (bl_dev (g_ctx fs0)) = 64" using f(2) by (simp add: block_ok_def ram_ok_def)
  then have c: "ram_content (bl_dev (ram_reboot ?d)) = ?d"
    using lt by (intro ram_reboot_content) (simp add: ram_content_def)
  have torn: "torn_write fs0 (ws ! 0) [(fst (ws ! 0), zeros 4096)]"
    unfolding torn_write_def using sb_valid_zeros by auto
  have "mounts_as (GDEV_OPS (ram_bdev 64)) (ram_reboot ?d) (zeros 16) (live fs0)"
    by (rule gfs_crash_consistent [OF ram_raw.raw_disk_reads_axioms f(2,3) _ f(6) _ f(7) ws(1) _ torn ram_reboot_ok])
      (use f(4,5) ws(2) c nb in \<open>simp_all add: gfs_mount_work_size_def bm_size_def\<close>)
  then show ?thesis using f(1,7) ws(1,2) by blast
qed

text \<open>
  C2. Durability. A mutating call that returns success leaves a well-formed file system on the disk,
  and a mount of any coherent block layer state with that disk content yields exactly the live state
  of the handle after the call.
\<close>

theorem gfs_commit_durable:
  assumes "raw_disk_reads bd content history rinv"
    and "block_ok bd content rinv (g_ctx fs0)" "g_ops fs0 = GDEV_OPS bd" "g_total_blocks fs0 \<le> bd_nblocks bd"
    and "gfs_on_disk (content (bl_dev (g_ctx fs0))) fs0" "g_generation fs0 + 1 < 2 ^ 64"
    and "gfs_exec call fs0 = Some (Inr x, fs1)"
    and "block_ok bd content rinv c" "content (bl_dev c) = content (bl_dev (g_ctx fs1))"
    and "gfs_mount_work_size (g_total_blocks fs0) \<le> length w"
  shows "gfs_on_disk (content (bl_dev (g_ctx fs1))) fs1 \<and> mounts_as (GDEV_OPS bd) c w (live fs1)"
  using reliable_dev.crash_after_publish [OF raw_disk_reads.cached_reliable [OF assms(1)] assms(2-10)] by blast

theorem gfs_commit_durable_witness:
  "\<exists>fs0 nid fs1. fresh_fs fs0 \<and> gfs_exec (Call_node_create GFS_NODE_DATA 420) fs0 = Some (Inr nid, fs1)
    \<and> live fs1 \<noteq> live fs0
    \<and> mounts_as (GDEV_OPS (ram_bdev 64)) (ram_reboot (ram_content (bl_dev (g_ctx fs1)))) (zeros 16) (live fs1)"
proof -
  obtain fs0 nid fs1 where f: "fresh_fs fs0" "block_ok (ram_bdev 64) ram_content (ram_ok 64) (g_ctx fs0)"
    "g_ops fs0 = GDEV_OPS (ram_bdev 64)" "g_total_blocks fs0 = 64" "g_generation fs0 = 1"
    "gfs_on_disk (ram_content (bl_dev (g_ctx fs0))) fs0"
    "gfs_exec (Call_node_create GFS_NODE_DATA 420) fs0 = Some (Inr nid, fs1)" "g_generation fs1 = 2"
    using fresh_node_create by blast
  have g1: "g_generation fs0 + 1 < 2 ^ 64" using f(5) by simp
  have "block_ok (ram_bdev 64) ram_content (ram_ok 64) (g_ctx fs1)"
    using ram_raw.cached.gfs_exec_ends [OF f(6) g1] ram_raw.cached.frame_refl [OF f(3,2)] f(7)
    unfolding ram_raw.cached.ends_def ram_raw.cached.outcome_def by blast
  then have "rd_nblk (bl_dev (g_ctx fs1)) = 64" by (simp add: block_ok_def ram_ok_def)
  then have c: "ram_content (bl_dev (ram_reboot (ram_content (bl_dev (g_ctx fs1))))) = ram_content (bl_dev (g_ctx fs1))"
    by (intro ram_reboot_content) (simp add: ram_content_def)
  have "mounts_as (GDEV_OPS (ram_bdev 64)) (ram_reboot (ram_content (bl_dev (g_ctx fs1)))) (zeros 16) (live fs1)"
    using gfs_commit_durable [OF ram_raw.raw_disk_reads_axioms f(2,3) _ f(6) g1 f(7) ram_reboot_ok c, of "zeros 16"] f(4)
    by (simp add: ram_bdev_def gfs_mount_work_size_def bm_size_def)
  moreover have "live fs1 \<noteq> live fs0" using f(5,8) by (auto simp: live_eq_iff)
  ultimately show ?thesis using f(1,7) by blast
qed

section \<open>Copy on write\<close>

text \<open>
  C3. Copy on write. Every block write of a mutating call, successful or not, on any block device,
  goes to a block that is free in the committed bitmap or to the inactive copy of the bitmap,
  except for one possible last write, which goes to the inactive superblock slot. No call ever
  writes the live superblock, the live bitmap or a block in use.
\<close>

theorem gfs_copy_on_write:
  assumes "block_dev ops disk log dinv" "dinv (g_ctx fs0)" "g_ops fs0 = ops"
    and "gfs_on_disk (disk (g_ctx fs0)) fs0" "g_generation fs0 + 1 < 2 ^ 64"
    and "gfs_exec call fs0 = Some (r, fs1)"
  shows "\<exists>ws1 ws2. log (g_ctx fs1) = log (g_ctx fs0) @ ws1 @ ws2
    \<and> (\<forall>(lba, blk) \<in> set ws1. cow_target fs0 lba
         \<or> (\<exists>j < g_bitmap_blocks fs0. lba = bitmap_lba fs0 ((g_generation fs0 + 1) mod 2) j))
    \<and> (ws2 = [] \<or> (\<exists>blk. ws2 = [((g_generation fs0 + 1) mod 2, blk)]))"
proof (rule block_dev.gfs_exec_writes [OF assms])
  fix ws ws1 ws2 assume "log (g_ctx fs1) = log (g_ctx fs0) @ ws" "ws = ws1 @ ws2"
    "\<forall>w \<in> set ws1. quiet_target fs0 (fst w)" "ws2 = [] \<or> (\<exists>blk. ws2 = [((g_generation fs0 + 1) mod 2, blk)])"
  then show ?thesis unfolding quiet_target_def by (intro exI [of _ ws1] exI [of _ ws2]) auto
qed

theorem gfs_copy_on_write_witness:
  "\<exists>fs0 nid fs1 ws1 blk. fresh_fs fs0 \<and> gfs_exec (Call_node_create GFS_NODE_DATA 420) fs0 = Some (Inr nid, fs1)
    \<and> rd_log (bl_dev (g_ctx fs1)) = rd_log (bl_dev (g_ctx fs0)) @ ws1 @ [(0, blk)]
    \<and> (\<forall>(lba, blk) \<in> set ws1. 4 \<le> lba \<and> lba < 64 \<or> lba = 2)"
proof -
  obtain fs0 nid fs1 where f: "fresh_fs fs0" "block_ok (ram_bdev 64) ram_content (ram_ok 64) (g_ctx fs0)"
    "g_ops fs0 = GDEV_OPS (ram_bdev 64)" "g_total_blocks fs0 = 64" "g_generation fs0 = 1"
    "gfs_on_disk (ram_content (bl_dev (g_ctx fs0))) fs0"
    "gfs_exec (Call_node_create GFS_NODE_DATA 420) fs0 = Some (Inr nid, fs1)" "g_generation fs1 = 2"
    using fresh_node_create by blast
  have g1: "g_generation fs0 + 1 < 2 ^ 64" using f(5) by simp
  have g: "geom_ok fs0" by (rule on_disk_facts(1) [OF f(6)])
  have bb: "g_bitmap_blocks fs0 = 1" using g f(4) by (simp add: geom_ok_def)
  have df: "data_first fs0 = 4" using geom_bounds(1) [OF g] bb by simp
  have lba: "bitmap_lba fs0 0 0 = 2" using bitmap_lba_eq [OF g, of 0 0] bb by simp
  obtain ws1 ws2 where w: "rd_log (bl_dev (g_ctx fs1)) = rd_log (bl_dev (g_ctx fs0)) @ ws1 @ ws2"
    "\<forall>(lba, blk) \<in> set ws1. cow_target fs0 lba
         \<or> (\<exists>j < g_bitmap_blocks fs0. lba = bitmap_lba fs0 ((g_generation fs0 + 1) mod 2) j)"
    "ws2 = [] \<or> (\<exists>blk. ws2 = [((g_generation fs0 + 1) mod 2, blk)])"
    using gfs_copy_on_write [OF ram_raw.cached_block_dev f(2,3,6) g1 f(7)] by blast
  have "ws2 \<noteq> []"
  proof (rule ram_raw.cached.gfs_exec_writes [OF f(2,3,6) g1 f(7)])
    fix vs vs1 vs2 assume v: "rd_log (bl_dev (g_ctx fs1)) = rd_log (bl_dev (g_ctx fs0)) @ vs" "vs = vs1 @ vs2"
      "vs2 = [] \<or> (\<exists>blk. vs2 = [((g_generation fs0 + 1) mod 2, blk)])"
      "vs2 = [] \<or> isl (Inr nid :: gfs_err + nat) \<Longrightarrow> live fs1 = live fs0"
    have "vs2 \<noteq> []" using v(4) f(5,8) by (auto simp: live_eq_iff)
    then obtain blk where "last vs = (0, blk)" "vs \<noteq> []" using v(2,3) f(5) by auto
    moreover have "vs = ws1 @ ws2" using v(1) w(1) by simp
    moreover have "fst x \<noteq> 0" if "x \<in> set ws1" for x
      using w(2) that df lba bb f(5) by (auto simp: cow_target_def)
    ultimately show "ws2 \<noteq> []" by (metis append_Nil2 fst_conv last_in_set)
  qed
  then obtain blk where "ws2 = [(0, blk)]" using w(3) f(5) by auto
  moreover have "\<forall>(lba, blk) \<in> set ws1. 4 \<le> lba \<and> lba < 64 \<or> lba = 2"
    using w(2) df lba bb f(4,5) by (auto simp: cow_target_def)
  ultimately show ?thesis using f(1,7) w(1) by blast
qed

section \<open>Errors\<close>

text \<open>
  C5. A mutating call that returns an error, whatever the error and wherever it occurred, leaves the
  live state of the mount as it was: generation, node map, free counts and committed bitmap.
\<close>

theorem gfs_error_keeps_live:
  assumes "block_dev ops disk log dinv" "dinv (g_ctx fs0)" "g_ops fs0 = ops"
    and "gfs_on_disk (disk (g_ctx fs0)) fs0" "g_generation fs0 + 1 < 2 ^ 64"
    and "gfs_exec call fs0 = Some (Inl e, fs1)"
  shows "live fs1 = live fs0"
  by (rule block_dev.gfs_exec_writes [OF assms]) simp

theorem gfs_error_keeps_live_witness:
  "\<exists>fs0 fs1. fresh_fs fs0 \<and> gfs_exec (Call_truncate 64 0) fs0 = Some (Inl GFS_EINVAL, fs1) \<and> live fs1 = live fs0"
proof -
  obtain fs0 where f: "fresh_fs fs0" "block_ok (ram_bdev 64) ram_content (ram_ok 64) (g_ctx fs0)"
    "g_ops fs0 = GDEV_OPS (ram_bdev 64)" "live fs0 = live (mkfs_view RAM_OPS (ramdisk_new 64) 64 64)"
    "gfs_on_disk (ram_content (bl_dev (g_ctx fs0))) fs0" using fresh_fs_ex by blast
  note v = fresh_fs_facts [OF f(4)]
  have r: "ram_raw.cached.ready 64 fs0"
    unfolding ram_raw.cached.ready_def using f(2,3) v(1) by (simp add: ram_bdev_def)
  obtain fs1 where b: "txn_begin fs0 = Some (Inr (), fs1)" "ram_raw.cached.begun 64 fs0 fs1"
    using ram_raw.cached.runs_txn_begin [OF r f(5)] by (auto elim!: runsE)
  have "g_node_count fs1 = 64"
    using ram_raw.cached.begun_facts(2) [OF b(2) r on_disk_facts(1) [OF f(5)]] v(3) by (simp add: live_eq_iff)
  then have nr: "node_read 64 fs1 = Some (Inl GFS_EINVAL, fs1)" by (simp add: node_read_def gget_def gfail_def)
  have ex: "gfs_exec (Call_truncate 64 0) fs0 = Some (Inl GFS_EINVAL, fs1)"
    by (simp add: gfs_truncate_def gseq_def gbind_def gfail_if_def gret_def b(1) nr)
  have "g_generation fs0 + 1 < 2 ^ 64" using v(2) by simp
  then have "live fs1 = live fs0" using ex by (rule gfs_error_keeps_live [OF ram_raw.cached_block_dev f(2,3,5)])
  with ex show ?thesis using f(1) by blast
qed

definition refused :: "'c gfs \<Rightarrow> ('c, 'a) gfs_m \<Rightarrow> bool" where
  "refused fs m \<longleftrightarrow> (\<exists>e \<in> {GFS_EROFS, GFS_EINVAL, GFS_ENAMETOOLONG, GFS_EFBIG}. m fs = Some (Inl e, fs))"

lemma refused_txn: "\<not> g_writable fs \<Longrightarrow> refused fs (gseq txn_begin k)"
  by (simp add: refused_def gseq_def gbind_def txn_begin_def gget_def gfail_if_def gfail_def)

lemma refused_guard:
  "e \<in> {GFS_EROFS, GFS_EINVAL, GFS_ENAMETOOLONG, GFS_EFBIG} \<Longrightarrow> refused fs k \<Longrightarrow> refused fs (gseq (gfail_if b e) k)"
  by (auto simp: refused_def gseq_def gbind_def gfail_if_def gfail_def gret_def)

lemma refused_name: "(\<And>n. refused fs (k n)) \<Longrightarrow> refused fs (gbind (name_len_ok nm) k)"
  by (auto simp: refused_def name_len_ok_def Let_def gfail_def gret_def gbind_def)

lemma refused_ret: "refused fs m \<Longrightarrow> refused fs (gseq m (gret x))"
  by (auto simp: refused_def gseq_def gbind_def)

text \<open>
  C11. A read-only mount refuses every mutating call: the call returns \<^verbatim>\<open>GFS_EROFS\<close>, or the argument
  error it detects before it looks at the mount, and changes nothing at all, in the handle or on
  the device. The one success is a write of no bytes.
\<close>

theorem gfs_readonly_refuses:
  assumes "\<not> g_writable fs"
  shows "\<exists>r. gfs_exec call fs = Some (r, fs)
    \<and> (r \<in> {Inl GFS_EROFS, Inl GFS_EINVAL, Inl GFS_ENAMETOOLONG, Inl GFS_EFBIG}
       \<or> (\<exists>nid off. call = Call_write nid off []) \<and> r = Inr 0)"
proof (cases "\<exists>nid off. call = Call_write nid off []")
  case True
  then show ?thesis by (auto simp: gfs_write_def gret_def)
next
  case False
  have e: "GFS_EINVAL \<in> {GFS_EROFS, GFS_EINVAL, GFS_ENAMETOOLONG, GFS_EFBIG}"
    "GFS_EFBIG \<in> {GFS_EROFS, GFS_EINVAL, GFS_ENAMETOOLONG, GFS_EFBIG}" by simp_all
  note steps = refused_ret refused_guard [OF e(1)] refused_guard [OF e(2)] refused_name refused_txn [OF assms]
  have "refused fs (gfs_exec call)"
  proof (cases call)
    case (Call_write nid off src)
    then have "length src \<noteq> 0" using False by auto
    then show ?thesis unfolding Call_write gfs_exec.simps gfs_write_def Let_def by (simp only: if_False) (rule steps)+
  qed (simp_all only: gfs_exec.simps gfs_node_create_def gfs_link_def gfs_unlink_def gfs_create_at_def gfs_rename_def
      gfs_truncate_def Let_def, (rule steps)+)
  then show ?thesis by (auto simp: refused_def)
qed

theorem gfs_readonly_refuses_witness:
  "\<exists>r. gfs_exec (Call_truncate 2 0) (gfs_blank RAM_OPS (ramdisk_new 8)) = Some (r, gfs_blank RAM_OPS (ramdisk_new 8))
    \<and> r \<in> {Inl GFS_EROFS, Inl GFS_EINVAL, Inl GFS_ENAMETOOLONG, Inl GFS_EFBIG}"
  using gfs_readonly_refuses [of "gfs_blank RAM_OPS (ramdisk_new 8)" "Call_truncate 2 0"] by (simp add: gfs_blank_def)

section \<open>Reading\<close>

text \<open>
  C12. The reading calls write nothing: on any block device and any mount, whatever they return,
  they leave the write log, the content of the disk and the live state of the mount as they were.
\<close>

theorem gfs_reading_writes_nothing:
  assumes "block_dev ops disk log dinv" "dinv (g_ctx fs0)" "g_ops fs0 = ops" "gfs_ask q fs0 = Some (r, fs1)"
  shows "log (g_ctx fs1) = log (g_ctx fs0) \<and> disk (g_ctx fs1) = disk (g_ctx fs0) \<and> live fs1 = live fs0"
proof -
  have "block_dev.frame ops disk log dinv (\<lambda>_. False) fs0 fs1"
    by (rule block_dev.keepsD [OF assms(1) block_dev.keeps_query [OF assms(1)]
          block_dev.frame_refl [OF assms(1,3,2)] assms(4)])
  then obtain ws where "live fs1 = live fs0" "log (g_ctx fs1) = log (g_ctx fs0) @ ws"
    "disk (g_ctx fs1) = apply_writes ws (disk (g_ctx fs0))" "\<forall>w \<in> set ws. False"
    unfolding block_dev.frame_def [OF assms(1)] by blast
  moreover from this(4) have "ws = []" by (cases ws) auto
  ultimately show ?thesis by simp
qed

text \<open>The path \<^verbatim>\<open>"/"\<close> names the root.\<close>

theorem gfs_reading_writes_nothing_witness:
  "\<exists>fs0 fs1. fresh_fs fs0 \<and> gfs_ask (Query_resolve [47]) fs0 = Some (Inr (Answer_id 1), fs1)
    \<and> rd_log (bl_dev (g_ctx fs1)) = rd_log (bl_dev (g_ctx fs0)) \<and> live fs1 = live fs0"
proof -
  obtain fs0 where f: "fresh_fs fs0" "block_ok (ram_bdev 64) ram_content (ram_ok 64) (g_ctx fs0)"
    "g_ops fs0 = GDEV_OPS (ram_bdev 64)" "live fs0 = live (mkfs_view RAM_OPS (ramdisk_new 64) 64 64)"
    "gfs_on_disk (ram_content (bl_dev (g_ctx fs0))) fs0" using fresh_fs_ex by blast
  note v = fresh_fs_facts [OF f(4)]
  have r: "ram_raw.cached.ready 64 fs0"
    unfolding ram_raw.cached.ready_def using f(2,3) v(1) by (simp add: ram_bdev_def)
  have "runs fs0 map_load (\<lambda>_ fs'. g_root_node fs' = g_root_node fs0)"
    unfolding map_load_def
    by (rule runs_get, rule runs_bind, rule ram_raw.cached.runs_read_meta [OF r on_disk_facts(8,9) [OF f(5)]], rule runs_ret) simp
  then obtain fs1 where l: "map_load fs0 = Some (Inr (), fs1)" "g_root_node fs1 = 1"
    using geom_facts(6) [OF on_disk_facts(1) [OF f(5)]] by (auto elim!: runsE)
  have "gfs_resolve_walk [47] cur fs1 = Some (Inr cur, fs1)" for cur
    by (subst gfs_resolve_walk.simps) (simp add: gret_def)
  then have q: "gfs_ask (Query_resolve [47]) fs0 = Some (Inr (Answer_id 1), fs1)"
    using l by (simp add: gfs_resolve_def gseq_def gbind_def gget_def gret_def)
  show ?thesis
    using gfs_reading_writes_nothing [OF ram_raw.cached_block_dev f(2,3) q] f(1) q by blast
qed

section \<open>Formatting and creating\<close>

text \<open>
  C7. Formatting a device that does not fail succeeds when the layout fits, and a writable mount of
  the result succeeds. The mounted file system has generation 1, an empty root namespace with node
  number 1, the free counts that \<^verbatim>\<open>gfs_mkfs\<close> wrote, and a bitmap in which exactly the superblocks, the two
  bitmap copies, the node map and the root table are in use.
\<close>

theorem gfs_mkfs_mounts:
  assumes "perfect_dev ops disk log dinv cap" "dinv c" "tot < 2 ^ 63" "tot \<le> cap"
    and "4 + 2 * mkfs_bitmap_blocks tot \<le> tot" "gfs_mount_work_size tot \<le> length w"
  shows "\<exists>tmp fs. gfs_mkfs ops c tot nodes = Some (Inr (), tmp)
    \<and> gfs_mount ops (g_ctx tmp) True (Some w) = Some (Inr (), fs)
    \<and> gfs_on_disk (disk (g_ctx fs)) fs \<and> g_generation fs = 1 \<and> g_root_node fs = GFS_ROOT_NODE
    \<and> g_total_blocks fs = tot \<and> g_free_blocks fs = tot - (4 + 2 * mkfs_bitmap_blocks tot)
    \<and> (\<forall>i < tot. bm_test (g_committed_bm fs) i \<longleftrightarrow> i < 4 + 2 * mkfs_bitmap_blocks tot)"
proof -
  let ?bb = "mkfs_bitmap_blocks tot"
  have dev: "reliable_dev ops disk log dinv cap" "block_dev ops disk log dinv"
    using assms(1) by (simp_all add: perfect_dev_def reliable_dev_def)
  have bb: "0 < ?bb" using assms(5) by (simp add: mkfs_bitmap_blocks_def)
  obtain tmp where m: "gfs_mkfs ops c tot nodes = Some (Inr (), tmp)"
    using perfect_dev.gfs_mkfs_ok [OF assms(1-5) bb] by blast
  let ?v = "mkfs_view ops (g_ctx tmp) tot nodes"
  note v = mkfs_view_fields [of ops "g_ctx tmp" tot nodes]
  have t: "dinv (g_ctx tmp)" "gfs_on_disk (disk (g_ctx tmp)) ?v"
    using block_dev.gfs_mkfs_run [OF dev(2) assms(2,3) m] by blast+
  have cap: "g_total_blocks ?v \<le> cap" "gfs_mount_work_size (g_total_blocks ?v) \<le> length w"
    using assms(4,6) by (simp_all add: v)
  obtain fs where f: "gfs_mount ops (g_ctx tmp) True (Some w) = Some (Inr (), fs)" "live fs = live ?v"
    "gfs_on_disk (disk (g_ctx fs)) fs"
    using reliable_dev.gfs_mount_ok [OF dev(1) t(1) cap(1) t(2) cap(2)] by blast
  have g: "geom_ok ?v" by (rule on_disk_facts(1) [OF t(2)])
  have "\<forall>i < tot. bm_test (g_committed_bm ?v) i \<longleftrightarrow> i < 4 + 2 * ?bb"
    using mkfs_bm_test [OF g, of _ "4 + 2 * ?bb"] by (simp add: v)
  moreover have "g_root_node ?v = GFS_ROOT_NODE" by (rule geom_facts(6) [OF g])
  ultimately show ?thesis
    using m f v(2,3,7) by (intro exI [of _ tmp] exI [of _ fs]) (simp add: live_eq_iff)
qed

theorem gfs_mkfs_mounts_witness:
  "\<exists>tmp fs. gfs_mkfs RAM_OPS (ramdisk_new 512) 512 64 = Some (Inr (), tmp)
    \<and> gfs_mount RAM_OPS (g_ctx tmp) True (Some (zeros 128)) = Some (Inr (), fs)
    \<and> g_free_blocks fs = 506 \<and> bm_test (g_committed_bm fs) 5 \<and> \<not> bm_test (g_committed_bm fs) 6"
proof -
  have bb: "mkfs_bitmap_blocks 512 = 1" by (simp add: mkfs_bitmap_blocks_def)
  show ?thesis
    using gfs_mkfs_mounts [OF ram.perfect_dev_axioms [of 512], of "ramdisk_new 512" 512 "zeros 128" 64]
    by (auto simp: bb gfs_mount_work_size_def bm_size_def)
qed

text \<open>
  C6. Creating a node makes progress: on a device that does not fail, if the node tables can be
  read, some node is free and two data blocks are free, then \<^verbatim>\<open>gfs_node_create\<close> with a valid type
  succeeds, returns the number of a node that was free, and the generation advances by one.
\<close>

theorem gfs_node_create_succeeds:
  assumes "perfect_dev ops disk log dinv cap" "dinv (g_ctx fs)" "g_ops fs = ops" "g_total_blocks fs \<le> cap"
    and "gfs_on_disk (disk (g_ctx fs)) fs" "i \<noteq> j" "cow_target fs i" "cow_target fs j"
    and "tables_ok (disk (g_ctx fs)) (g_total_blocks fs) (g_node_count fs) (disk (g_ctx fs) (bp_phys (g_nodemap fs)))"
    and "node_is_free (disk (g_ctx fs)) (g_node_count fs) (disk (g_ctx fs) (bp_phys (g_nodemap fs))) nid0"
    and "typ = GFS_NODE_NAMESPACE \<or> typ = GFS_NODE_DATA"
  shows "\<exists>nid fs'. gfs_node_create typ mode fs = Some (Inr nid, fs')
    \<and> g_generation fs' = u64 (g_generation fs + 1)
    \<and> node_is_free (disk (g_ctx fs)) (g_node_count fs) (disk (g_ctx fs) (bp_phys (g_nodemap fs))) nid"
proof -
  have "perfect_dev.ready ops dinv cap fs"
    unfolding perfect_dev.ready_def [OF assms(1)] using assms(2-4) by blast
  from perfect_dev.gfs_node_create_ok [OF assms(1) this assms(5-11)] show ?thesis unfolding runs_def by blast
qed

theorem gfs_node_create_succeeds_witness:
  "\<exists>fs nid fs'. fresh_fs fs \<and> gfs_node_create GFS_NODE_DATA 420 fs = Some (Inr nid, fs') \<and> g_generation fs' = 2"
proof -
  obtain fs where f: "fresh_fs fs" "block_ok (ram_bdev 64) ram_content (ram_ok 64) (g_ctx fs)"
    "g_ops fs = GDEV_OPS (ram_bdev 64)" "live fs = live (mkfs_view RAM_OPS (ramdisk_new 64) 64 64)"
    "gfs_on_disk (ram_content (bl_dev (g_ctx fs))) fs"
    "ram_content (bl_dev (g_ctx fs)) 4 = mkfs_node_map 5" "ram_content (bl_dev (g_ctx fs)) 5 = mkfs_root_table"
    using fresh_fs_ex by blast
  note v = fresh_fs_facts [OF f(4)]
  have "\<exists>nid fs'. gfs_node_create 2 420 fs = Some (Inr nid, fs') \<and> g_generation fs' = u64 (g_generation fs + 1)
    \<and> node_is_free (ram_content (bl_dev (g_ctx fs))) (g_node_count fs) (ram_content (bl_dev (g_ctx fs)) (bp_phys (g_nodemap fs))) nid"
    by (rule gfs_node_create_succeeds [OF ram_raw.cached.perfect_dev_axioms f(2,3) _ f(5), of 6 7 2 2 420])
      (use v fresh_fs_tables [OF f(6,7)] in \<open>simp_all add: ram_bdev_def\<close>)
  then show ?thesis using f(1) v(2) by auto
qed

section \<open>The block cache\<close>

text \<open>
  C4. The block cache is transparent. Over any driver that meets the interface, in any state between
  two calls, a read that succeeds returns the current content of the block on the medium whether
  the cache holds it or not, a read that fails leaves the caller's buffer alone, a write that
  succeeds is on the medium when the call returns, and both calls restore the invariant of the
  cache: every valid entry equals the medium, no block is cached twice, the layer is not busy.
\<close>

theorem block_cache_transparent:
  assumes "raw_disk bd content history rinv" "block_ok bd content rinv s"
  shows "(case block_read (Some bd) lba buf s of (rc, buf', s') \<Rightarrow>
      block_ok bd content rinv s' \<and> content (bl_dev s') = content (bl_dev s)
      \<and> (if rc = 0 then lba < bd_nblocks bd \<and> buf' = content (bl_dev s) lba else buf' = buf))
    \<and> (case block_write (Some bd) lba blk s of (rc, s') \<Rightarrow>
      block_ok bd content rinv s' \<and> (rc = 0 \<longrightarrow> content (bl_dev s') = (content (bl_dev s))(lba := blk)))"
proof
  obtain rc buf' s' where r: "block_read (Some bd) lba buf s = (rc, buf', s')" by (rule prod_cases3)
  show "case block_read (Some bd) lba buf s of (rc, buf', s') \<Rightarrow>
      block_ok bd content rinv s' \<and> content (bl_dev s') = content (bl_dev s)
      \<and> (if rc = 0 then lba < bd_nblocks bd \<and> buf' = content (bl_dev s) lba else buf' = buf)"
    using raw_disk.block_read_run [OF assms r] by (simp add: r)
next
  obtain rc s' where r: "block_write (Some bd) lba blk s = (rc, s')" by (rule prod.exhaust)
  show "case block_write (Some bd) lba blk s of (rc, s') \<Rightarrow>
      block_ok bd content rinv s' \<and> (rc = 0 \<longrightarrow> content (bl_dev s') = (content (bl_dev s))(lba := blk))"
    using raw_disk.block_write_run [OF assms r] by (simp add: r del: fun_upd_apply)
qed

theorem block_cache_transparent_witness:
  "\<exists>s'. block_write (Some (ram_bdev 8)) 3 [1, 2, 3] (ram_block 8) = (0, s') \<and> ram_content (bl_dev s') 3 = [1, 2, 3]"
proof -
  have ok: "block_ok (ram_bdev 8) ram_content (ram_ok 8) (ram_block 8)" by (rule ram_block_ok) simp
  obtain rc s' where w: "block_write (Some (ram_bdev 8)) 3 [1, 2, 3] (ram_block 8) = (rc, s')" by fastforce
  have "rc = 0" using block_write_ok [OF ok _ ram_raw.raw_write_ok, of 3 "[1, 2, 3]"] w by (simp add: ram_bdev_def)
  moreover have "rc = 0 \<longrightarrow> ram_content (bl_dev s') = (ram_content (bl_dev (ram_block 8)))(3 := [1, 2, 3])"
    using block_cache_transparent [OF ram_raw.raw_disk_axioms ok, of 3 "[]" "[1, 2, 3]"] w by (simp split: prod.splits)
  ultimately show ?thesis using w by auto
qed


end
