(* ===== verification/Gfs_Codec.thy ===== *)
theory Gfs_Codec
  imports Gfs_Stack
begin

text \<open>
  The on-disk format of graphfs (\<^verbatim>\<open>kernel/fs/graphfs_core.c\<close>): round trips of the node record and of the
  superblock, and a gap in the check of the superblock's geometry. The encoders and the helper lemmas are
  in \<open>Gfs_Format\<close>, \<open>Gfs_State\<close> and \<open>Gfs_Mount\<close>.
\<close>

text \<open>
  C10. Node records round trip: encoding a node whose fields fit their widths and decoding the 256
  bytes gives the node back, and whatever bytes are decoded, the result fits the widths, so that
  decoding, encoding and decoding again is stable.
\<close>

theorem node_record_roundtrip:
  "(node_ok n \<longrightarrow> node_decode (node_encode n) = n) \<and> length (node_encode n) = GFS_NODE_SIZE
    \<and> node_decode (node_encode (node_decode r)) = node_decode r"
  using node_codec [of n] node_codec [OF node_decode_ok [of r]] by simp

lemma sample_node_ok: "node_ok (mkfs_root\<lparr>dn_edge_count := 7, dn_edge_head := \<lparr>bp_phys = 99, bp_crc = 12345\<rparr>\<rparr>)"
  by (simp add: node_ok_def mkfs_root_def zero_node_def zero_extent_def ext_ok_def bp_ok_def list_all_length)

theorem node_record_roundtrip_witness:
  "node_decode (node_encode (mkfs_root\<lparr>dn_edge_count := 7, dn_edge_head := \<lparr>bp_phys = 99, bp_crc = 12345\<rparr>\<rparr>))
    = mkfs_root\<lparr>dn_edge_count := 7, dn_edge_head := \<lparr>bp_phys = 99, bp_crc = 12345\<rparr>\<rparr>"
  using node_record_roundtrip [of "mkfs_root\<lparr>dn_edge_count := 7, dn_edge_head := \<lparr>bp_phys = 99, bp_crc = 12345\<rparr>\<rparr>" "[]"]
    sample_node_ok by blast

text \<open>
  C9. Superblocks round trip: the block that \<^verbatim>\<open>sb_encode\<close> builds passes \<^verbatim>\<open>sb_valid\<close> with its
  generation, and \<^verbatim>\<open>sb_decode\<close> reads back the geometry of the handle that encoded it and the
  published values.
\<close>

theorem superblock_roundtrip:
  assumes "g_total_blocks fs < 2 ^ 64" "g_node_count fs < 2 ^ 64" "g_root_node fs < 2 ^ 64" "g_bitmap_start fs < 2 ^ 64"
    "g_bitmap_blocks fs < 2 ^ 64" "gen < 2 ^ 64" "bp_ok nm" "crc < 2 ^ 32" "fb < 2 ^ 64" "fn < 2 ^ 64"
  shows "sb_valid (g_sb (sb_encode gen nm crc fb fn fs)) = Some gen
    \<and> rd32 (g_sb (sb_encode gen nm crc fb fn fs)) SB_BM_CRC = crc
    \<and> sb_decode (g_sb (sb_encode gen nm crc fb fn fs)) fs'
      = fs'\<lparr>g_generation := gen, g_total_blocks := g_total_blocks fs, g_node_count := g_node_count fs,
          g_root_node := g_root_node fs, g_bitmap_start := g_bitmap_start fs, g_bitmap_blocks := g_bitmap_blocks fs,
          g_nodemap := nm, g_free_blocks := fb, g_free_nodes := fn\<rparr>"
  using sb_image_decode [OF assms] sb_image_valid [OF assms(6)] by (simp add: sb_encode_def sb_decode_def)

theorem superblock_roundtrip_witness:
  "sb_valid (g_sb (sb_encode 41 \<lparr>bp_phys = 7, bp_crc = 9\<rparr> 5 6 7 (gfs_blank RAM_OPS (ramdisk_new 8)))) = Some 41"
  using superblock_roundtrip [of "gfs_blank RAM_OPS (ramdisk_new 8)" 41 "\<lparr>bp_phys = 7, bp_crc = 9\<rparr>" 5 6 7
      "gfs_blank RAM_OPS (ramdisk_new 8)"]
  by (simp add: gfs_blank_def bp_ok_def)


end
