(* ===== verification/Proc_Core.thy ===== *)
theory Proc_Core
  imports Kernel_Prelude
begin

text \<open>
  The process table (\<^verbatim>\<open>kernel/proc/proc_core.c\<close>): pids, parents and zombies in an array of
  \<^verbatim>\<open>PROC_MAX\<close> slots. C's \<^verbatim>\<open>int\<close> is \<open>int\<close>; the one counter that only grows, \<^verbatim>\<open>next_pid\<close>, wraps
  with \<open>s32\<close>. A pointer to an entry is the index of its slot, \<^verbatim>\<open>NULL\<close> is \<open>None\<close>.

  The lemmas give the table invariant, that every operation keeps it, and the meaning of the slot
  searches. The theorems about whole histories are in \<open>Process\<close>.
\<close>

section \<open>Data\<close>

abbreviation (input) PROC_MAX :: nat where "PROC_MAX \<equiv> 64"
abbreviation (input) PROC_INIT_PID :: int where "PROC_INIT_PID \<equiv> 1"
abbreviation (input) PROC_WAIT_BLOCK :: int where "PROC_WAIT_BLOCK \<equiv> 0"
abbreviation (input) PROC_WAIT_NOCHILD :: int where "PROC_WAIT_NOCHILD \<equiv> - 1"

datatype proc_state = PROC_UNUSED | PROC_LIVE | PROC_ZOMBIE

record proc_entry =
  pe_pid :: int
  pe_ppid :: int
  pe_state :: proc_state
  pe_exit_status :: int

record proc_table =
  pt_procs :: "proc_entry list"
  pt_next_pid :: int
  pt_nprocs :: int

text \<open>Two's complement wrap of a 32-bit \<^verbatim>\<open>int\<close>.\<close>

definition s32 :: "int \<Rightarrow> int" where
  "s32 n = (n + 2 ^ 31) mod 2 ^ 32 - 2 ^ 31"

lemma s32_id [simp]: "- (2 ^ 31) \<le> n \<Longrightarrow> n < 2 ^ 31 \<Longrightarrow> s32 n = n"
  by (simp add: s32_def)

section \<open>Operations\<close>

definition proc_entry_unused :: proc_entry where
  "proc_entry_unused = \<lparr>pe_pid = 0, pe_ppid = 0, pe_state = PROC_UNUSED, pe_exit_status = 0\<rparr>"

definition proc_table_init :: proc_table where
  "proc_table_init = \<lparr>pt_procs = replicate PROC_MAX proc_entry_unused, pt_next_pid = PROC_INIT_PID, pt_nprocs = 0\<rparr>"

text \<open>The \<^verbatim>\<open>for\<close> loops that stop at the first slot of a kind.\<close>

definition first_slot :: "(proc_entry \<Rightarrow> bool) \<Rightarrow> proc_table \<Rightarrow> nat option" where
  "first_slot P pt = List.find (\<lambda>i. P (pt_procs pt ! i)) [0..<PROC_MAX]"

definition proc_alloc :: "int \<Rightarrow> proc_table \<Rightarrow> int \<times> proc_table" where
  "proc_alloc ppid pt =
     (case first_slot (\<lambda>p. pe_state p = PROC_UNUSED) pt of
        Some i \<Rightarrow>
          (pt_next_pid pt,
           pt\<lparr>pt_procs := (pt_procs pt)[i := \<lparr>pe_pid = pt_next_pid pt, pe_ppid = ppid, pe_state = PROC_LIVE, pe_exit_status = 0\<rparr>],
              pt_next_pid := s32 (pt_next_pid pt + 1), pt_nprocs := s32 (pt_nprocs pt + 1)\<rparr>)
      | None \<Rightarrow> (0, pt))"

definition proc_find :: "int \<Rightarrow> proc_table \<Rightarrow> nat option" where
  "proc_find pid pt =
     (if pid \<le> 0 then None else first_slot (\<lambda>p. pe_state p \<noteq> PROC_UNUSED \<and> pe_pid p = pid) pt)"

text \<open>The loop of \<^verbatim>\<open>proc_exit\<close> that gives the children of \<open>pid\<close> to init.\<close>

definition reparent :: "int \<Rightarrow> proc_entry \<Rightarrow> proc_entry" where
  "reparent pid p = (if pe_state p \<noteq> PROC_UNUSED \<and> pe_ppid p = pid then p\<lparr>pe_ppid := PROC_INIT_PID\<rparr> else p)"

definition proc_exit :: "int \<Rightarrow> int \<Rightarrow> proc_table \<Rightarrow> int \<times> proc_table" where
  "proc_exit pid status pt =
     (case proc_find pid pt of
        None \<Rightarrow> (0, pt)
      | Some i \<Rightarrow>
          if pe_state (pt_procs pt ! i) \<noteq> PROC_LIVE then (0, pt)
          else let procs = (pt_procs pt)[i := (pt_procs pt ! i)\<lparr>pe_state := PROC_ZOMBIE, pe_exit_status := status\<rparr>];
                   procs = map (reparent pid) procs
               in (pe_ppid (procs ! i), pt\<lparr>pt_procs := procs\<rparr>))"

text \<open>The second result is what \<^verbatim>\<open>*status_out\<close> receives, if it is written.\<close>

fun proc_wait_loop :: "int \<Rightarrow> int \<Rightarrow> bool \<Rightarrow> proc_entry list \<Rightarrow> int \<times> int option" where
  "proc_wait_loop ppid pid_arg have_child [] = (if have_child then PROC_WAIT_BLOCK else PROC_WAIT_NOCHILD, None)"
| "proc_wait_loop ppid pid_arg have_child (p # ps) =
     (if pe_state p = PROC_UNUSED \<or> pe_ppid p \<noteq> ppid then proc_wait_loop ppid pid_arg have_child ps
      else if pid_arg > 0 \<and> pe_pid p \<noteq> pid_arg then proc_wait_loop ppid pid_arg have_child ps
      else if pe_state p = PROC_ZOMBIE then (pe_pid p, Some (pe_exit_status p))
      else proc_wait_loop ppid pid_arg True ps)"

definition proc_wait_find :: "int \<Rightarrow> int \<Rightarrow> proc_table \<Rightarrow> int \<times> int option" where
  "proc_wait_find ppid pid_arg pt = proc_wait_loop ppid pid_arg False (pt_procs pt)"

definition proc_reap :: "int \<Rightarrow> proc_table \<Rightarrow> proc_table" where
  "proc_reap pid pt =
     (case proc_find pid pt of
        None \<Rightarrow> pt
      | Some i \<Rightarrow>
          if pe_state (pt_procs pt ! i) \<noteq> PROC_ZOMBIE then pt
          else pt\<lparr>pt_procs := (pt_procs pt)[i := proc_entry_unused], pt_nprocs := s32 (pt_nprocs pt - 1)\<rparr>)"

definition proc_count :: "proc_table \<Rightarrow> int" where
  "proc_count pt = pt_nprocs pt"

section \<open>The slot searches\<close>

abbreviation slot :: "proc_table \<Rightarrow> nat \<Rightarrow> proc_entry" where
  "slot pt i \<equiv> pt_procs pt ! i"

abbreviation used :: "proc_table \<Rightarrow> nat \<Rightarrow> bool" where
  "used pt i \<equiv> i < PROC_MAX \<and> pe_state (slot pt i) \<noteq> PROC_UNUSED"

lemma find_upt_Some:
  "List.find P [a..<b] = Some i \<longleftrightarrow> a \<le> i \<and> i < b \<and> P i \<and> (\<forall>j. a \<le> j \<and> j < i \<longrightarrow> \<not> P j)"
proof -
  have "List.find P [a..<b] = Some i \<longleftrightarrow>
      (\<exists>k < b - a. P (a + k) \<and> i = a + k \<and> (\<forall>j < k. \<not> P (a + j)))"
    by (auto simp: find_Some_iff)
  also have "\<dots> \<longleftrightarrow> a \<le> i \<and> i < b \<and> P i \<and> (\<forall>j. a \<le> j \<and> j < i \<longrightarrow> \<not> P j)"
  proof
    assume "\<exists>k < b - a. P (a + k) \<and> i = a + k \<and> (\<forall>j < k. \<not> P (a + j))"
    then show "a \<le> i \<and> i < b \<and> P i \<and> (\<forall>j. a \<le> j \<and> j < i \<longrightarrow> \<not> P j)"
      by (metis add_less_cancel_left le_Suc_ex le_add1 less_diff_conv2 add.commute nat_le_linear less_imp_le
          less_diff_conv)
  next
    assume "a \<le> i \<and> i < b \<and> P i \<and> (\<forall>j. a \<le> j \<and> j < i \<longrightarrow> \<not> P j)"
    then show "\<exists>k < b - a. P (a + k) \<and> i = a + k \<and> (\<forall>j < k. \<not> P (a + j))"
      by (intro exI [of _ "i - a"]) auto
  qed
  finally show ?thesis .
qed

lemma first_slot_Some:
  "first_slot P pt = Some i \<longleftrightarrow> i < PROC_MAX \<and> P (slot pt i) \<and> (\<forall>j < i. \<not> P (slot pt j))"
  by (simp add: first_slot_def find_upt_Some)

lemma first_slot_None: "first_slot P pt = None \<longleftrightarrow> (\<forall>i < PROC_MAX. \<not> P (slot pt i))"
  by (auto simp: first_slot_def find_None_iff)

lemma proc_find_Some: "proc_find pid pt = Some i \<Longrightarrow> 0 < pid \<and> used pt i \<and> pe_pid (slot pt i) = pid"
  by (auto simp: proc_find_def first_slot_Some split: if_splits)

lemma proc_find_None: "proc_find pid pt = None \<Longrightarrow> 0 < pid \<Longrightarrow> used pt i \<Longrightarrow> pe_pid (slot pt i) \<noteq> pid"
  by (auto simp: proc_find_def first_slot_None)

section \<open>Invariant\<close>

definition used_slots :: "proc_table \<Rightarrow> nat set" where
  "used_slots pt = {i. used pt i}"

definition proc_inv :: "proc_table \<Rightarrow> bool" where
  "proc_inv pt \<longleftrightarrow> length (pt_procs pt) = PROC_MAX
     \<and> (\<forall>i. used pt i \<longrightarrow> 0 < pe_pid (slot pt i) \<and> pe_pid (slot pt i) < pt_next_pid pt)
     \<and> inj_on (\<lambda>i. pe_pid (slot pt i)) (used_slots pt)
     \<and> pt_nprocs pt = int (card (used_slots pt)) \<and> 0 < pt_next_pid pt"

lemma finite_used [simp]: "finite (used_slots pt)"
  by (rule finite_subset [of _ "{..<PROC_MAX}"]) (auto simp: used_slots_def)

lemma card_used_le: "card (used_slots pt) \<le> PROC_MAX"
  using card_mono [of "{..<PROC_MAX}" "used_slots pt"] by (auto simp: used_slots_def)

lemma proc_inv_length [simp]: "proc_inv pt \<Longrightarrow> length (pt_procs pt) = PROC_MAX"
  by (simp add: proc_inv_def)

lemma proc_inv_pid: "proc_inv pt \<Longrightarrow> used pt i \<Longrightarrow> 0 < pe_pid (slot pt i) \<and> pe_pid (slot pt i) < pt_next_pid pt"
  by (simp add: proc_inv_def)

lemma proc_inv_inj: "proc_inv pt \<Longrightarrow> used pt i \<Longrightarrow> used pt j \<Longrightarrow> pe_pid (slot pt i) = pe_pid (slot pt j) \<Longrightarrow> i = j"
  unfolding proc_inv_def used_slots_def inj_on_def by blast

lemma proc_find_used:
  assumes "proc_inv pt" "used pt i"
  shows "proc_find (pe_pid (slot pt i)) pt = Some i"
proof -
  have "0 < pe_pid (slot pt i)" using proc_inv_pid [OF assms] by simp
  then obtain j where j: "proc_find (pe_pid (slot pt i)) pt = Some j"
    using proc_find_None assms(2) by (cases "proc_find (pe_pid (slot pt i)) pt") blast+
  then show ?thesis using proc_find_Some [OF j] proc_inv_inj [OF assms(1)] assms(2) by metis
qed

lemma used_slots_init: "used_slots proc_table_init = {}"
  by (auto simp: proc_table_init_def used_slots_def proc_entry_unused_def)

lemma proc_inv_init: "proc_inv proc_table_init"
  unfolding proc_inv_def used_slots_init by (simp add: proc_table_init_def proc_entry_unused_def)

lemma proc_alloc_Some:
  assumes "proc_inv pt" "pt_next_pid pt < 2 ^ 31 - 1" "proc_alloc ppid pt = (pid, pt')" "pid \<noteq> 0"
  obtains i where "i < PROC_MAX" "\<not> used pt i" "pid = pt_next_pid pt" "pt_next_pid pt' = pid + 1"
    "pt_procs pt' = (pt_procs pt)[i := \<lparr>pe_pid = pid, pe_ppid = ppid, pe_state = PROC_LIVE, pe_exit_status = 0\<rparr>]"
    "proc_inv pt'"
proof (cases "first_slot (\<lambda>p. pe_state p = PROC_UNUSED) pt")
  case None
  then show ?thesis using assms(3,4) by (simp add: proc_alloc_def)
next
  case (Some i)
  then have i: "i < PROC_MAX" "\<not> used pt i" by (simp_all add: first_slot_Some)
  let ?e = "\<lparr>pe_pid = pt_next_pid pt, pe_ppid = ppid, pe_state = PROC_LIVE, pe_exit_status = 0\<rparr>"
  have len: "length (pt_procs pt) = PROC_MAX" and np: "0 < pt_next_pid pt" using assms(1) by (simp_all add: proc_inv_def)
  have pt': "pt_procs pt' = (pt_procs pt)[i := ?e]" "pid = pt_next_pid pt" "pt_next_pid pt' = pid + 1"
    "pt_nprocs pt' = s32 (pt_nprocs pt + 1)"
    using assms(3) np assms(2) by (auto simp: proc_alloc_def Some)
  have u: "used_slots pt' = insert i (used_slots pt)" using i len by (auto simp: used_slots_def pt'(1) nth_list_update)
  have c: "card (used_slots pt') = Suc (card (used_slots pt))"
    unfolding u by (rule card_insert_disjoint) (use i in \<open>simp_all add: used_slots_def\<close>)
  have n: "pt_nprocs pt' = int (card (used_slots pt'))"
    using c card_used_le [of pt'] assms(1) by (simp add: pt'(4) proc_inv_def)
  have inj: "inj_on (\<lambda>j. pe_pid (slot pt' j)) (used_slots pt')"
  proof (rule inj_onI)
    fix j k assume jk: "j \<in> used_slots pt'" "k \<in> used_slots pt'" "pe_pid (slot pt' j) = pe_pid (slot pt' k)"
    have o: "slot pt' j = (if j = i then ?e else slot pt j)" if "j < PROC_MAX" for j
      using that len by (simp add: pt'(1) nth_list_update)
    have m: "j < PROC_MAX" "k < PROC_MAX" using jk(1,2) by (simp_all add: used_slots_def)
    have lt: "pe_pid (slot pt j) < pt_next_pid pt" if "j \<in> used_slots pt'" "j \<noteq> i" for j
    proof -
      have "used pt j" using that unfolding u by (simp add: used_slots_def)
      then show ?thesis using proc_inv_pid [OF assms(1)] by blast
    qed
    show "j = k" using jk m lt [of j] lt [of k] proc_inv_inj [OF assms(1), of j k]
      by (simp add: o u used_slots_def split: if_splits)
  qed
  have "proc_inv pt'"
    unfolding proc_inv_def using inj n np pt' len proc_inv_pid [OF assms(1)] i
    by (fastforce simp: nth_list_update split: if_splits)
  then show ?thesis using that [OF i pt'(2,3)] pt'(1,2) by simp
qed

lemma proc_alloc_full: "proc_inv pt \<Longrightarrow> proc_alloc ppid pt = (0, pt') \<Longrightarrow> pt' = pt \<and> used_slots pt = {..<PROC_MAX}"
  by (auto simp: proc_alloc_def first_slot_None used_slots_def proc_inv_def split: option.splits)

text \<open>Exit changes one state and some parents; pids and the set of used slots stay.\<close>

lemma proc_exit_live:
  assumes "proc_inv pt" "used pt i" "pe_state (slot pt i) = PROC_LIVE"
  shows "proc_exit (pe_pid (slot pt i)) status pt =
     (pe_ppid (reparent (pe_pid (slot pt i)) (slot pt i)),
      pt\<lparr>pt_procs := map (reparent (pe_pid (slot pt i)))
          ((pt_procs pt)[i := (slot pt i)\<lparr>pe_state := PROC_ZOMBIE, pe_exit_status := status\<rparr>])\<rparr>)"
  using assms by (simp add: proc_exit_def proc_find_used reparent_def)

lemma proc_exit_dead: "(\<forall>i. used pt i \<and> pe_pid (slot pt i) = pid \<longrightarrow> pe_state (slot pt i) \<noteq> PROC_LIVE) \<Longrightarrow> proc_exit pid status pt = (0, pt)"
  using proc_find_Some [of pid pt] by (auto simp: proc_exit_def split: option.splits)

lemma reparent_simps [simp]:
  "pe_pid (reparent pid p) = pe_pid p" "pe_state (reparent pid p) = pe_state p"
  "pe_exit_status (reparent pid p) = pe_exit_status p"
  by (simp_all add: reparent_def)

lemma proc_inv_same_pids:
  assumes "proc_inv pt" "length (pt_procs pt') = PROC_MAX" "pt_next_pid pt' = pt_next_pid pt" "pt_nprocs pt' = pt_nprocs pt"
    "\<And>i. i < PROC_MAX \<Longrightarrow> pe_pid (slot pt' i) = pe_pid (slot pt i)"
    "\<And>i. i < PROC_MAX \<Longrightarrow> (pe_state (slot pt' i) = PROC_UNUSED) = (pe_state (slot pt i) = PROC_UNUSED)"
  shows "proc_inv pt'"
proof -
  have u: "used_slots pt' = used_slots pt" using assms(6) by (auto simp: used_slots_def)
  moreover have "inj_on (\<lambda>i. pe_pid (slot pt' i)) (used_slots pt) = inj_on (\<lambda>i. pe_pid (slot pt i)) (used_slots pt)"
    by (rule inj_on_cong) (simp add: used_slots_def assms(5))
  ultimately show ?thesis using assms unfolding proc_inv_def by auto
qed

lemma proc_inv_exit: "proc_inv pt \<Longrightarrow> proc_inv (snd (proc_exit pid status pt))"
proof (cases "\<exists>i. used pt i \<and> pe_pid (slot pt i) = pid \<and> pe_state (slot pt i) = PROC_LIVE")
  case True
  assume inv: "proc_inv pt"
  from True obtain i where i: "used pt i" "pe_pid (slot pt i) = pid" "pe_state (slot pt i) = PROC_LIVE" by blast
  show ?thesis unfolding i(2) [symmetric] proc_exit_live [OF inv i(1,3)] snd_conv
    by (rule proc_inv_same_pids [OF inv]) (use inv i in \<open>auto simp: nth_list_update\<close>)
next
  case False
  assume "proc_inv pt"
  moreover have "proc_exit pid status pt = (0, pt)" by (rule proc_exit_dead) (use False in blast)
  ultimately show ?thesis by simp
qed

lemma proc_reap_zombie:
  assumes "proc_inv pt" "used pt i" "pe_state (slot pt i) = PROC_ZOMBIE"
  shows "proc_reap (pe_pid (slot pt i)) pt
    = pt\<lparr>pt_procs := (pt_procs pt)[i := proc_entry_unused], pt_nprocs := pt_nprocs pt - 1\<rparr>"
proof -
  have "1 \<le> card (used_slots pt)" using assms(2) by (simp add: Suc_le_eq card_gt_0_iff used_slots_def) blast
  then have "s32 (pt_nprocs pt - 1) = pt_nprocs pt - 1"
    using card_used_le [of pt] assms(1) by (simp add: proc_inv_def)
  then show ?thesis using assms by (simp add: proc_reap_def proc_find_used)
qed

lemma proc_reap_other: "(\<forall>i. used pt i \<and> pe_pid (slot pt i) = pid \<longrightarrow> pe_state (slot pt i) \<noteq> PROC_ZOMBIE) \<Longrightarrow> proc_reap pid pt = pt"
  using proc_find_Some [of pid pt] by (auto simp: proc_reap_def split: option.splits)

lemma proc_inv_reap: "proc_inv pt \<Longrightarrow> proc_inv (proc_reap pid pt)"
proof (cases "\<exists>i. used pt i \<and> pe_pid (slot pt i) = pid \<and> pe_state (slot pt i) = PROC_ZOMBIE")
  case True
  assume inv: "proc_inv pt"
  from True obtain i where i: "used pt i" "pe_pid (slot pt i) = pid" "pe_state (slot pt i) = PROC_ZOMBIE" by blast
  let ?pt = "pt\<lparr>pt_procs := (pt_procs pt)[i := proc_entry_unused], pt_nprocs := pt_nprocs pt - 1\<rparr>"
  have o: "slot ?pt j = (if j = i then proc_entry_unused else slot pt j)" if "j < PROC_MAX" for j
    using that inv by (simp add: nth_list_update)
  have u: "used_slots ?pt = used_slots pt - {i}"
    using i inv by (auto simp: used_slots_def nth_list_update proc_entry_unused_def split: if_splits)
  have "i \<in> used_slots pt" using i by (simp add: used_slots_def)
  then have "int (card (used_slots ?pt)) = int (card (used_slots pt)) - 1"
    unfolding u using card_Suc_Diff1 [OF finite_used, of i pt] by linarith
  moreover have "inj_on (\<lambda>j. pe_pid (slot ?pt j)) (used_slots ?pt)"
  proof (rule inj_onI)
    fix j k assume "j \<in> used_slots ?pt" "k \<in> used_slots ?pt" "pe_pid (slot ?pt j) = pe_pid (slot ?pt k)"
    then show "j = k" using o [of j] o [of k] proc_inv_inj [OF inv, of j k] unfolding u by (auto simp: used_slots_def)
  qed
  moreover have "0 < pe_pid (slot ?pt j) \<and> pe_pid (slot ?pt j) < pt_next_pid pt" if "used ?pt j" for j
    using that o [of j] proc_inv_pid [OF inv, of j] by (auto simp: proc_entry_unused_def split: if_splits)
  ultimately have "proc_inv ?pt" using inv unfolding proc_inv_def by simp
  then show ?thesis unfolding i(2) [symmetric] proc_reap_zombie [OF inv i(1,3)] .
next
  case False
  assume "proc_inv pt"
  moreover have "proc_reap pid pt = pt" by (rule proc_reap_other) (use False in blast)
  ultimately show ?thesis by simp
qed

section \<open>Waiting\<close>

text \<open>The children of \<open>ppid\<close> that a wait with argument \<open>pid_arg\<close> is about.\<close>

definition waits_for :: "int \<Rightarrow> int \<Rightarrow> proc_entry \<Rightarrow> bool" where
  "waits_for ppid pid_arg p \<longleftrightarrow> pe_state p \<noteq> PROC_UNUSED \<and> pe_ppid p = ppid \<and> (0 < pid_arg \<longrightarrow> pe_pid p = pid_arg)"

lemma proc_wait_loop_eq:
  "proc_wait_loop ppid pid_arg have_child ps =
     (case List.find (\<lambda>p. waits_for ppid pid_arg p \<and> pe_state p = PROC_ZOMBIE) ps of
        Some p \<Rightarrow> (pe_pid p, Some (pe_exit_status p))
      | None \<Rightarrow> (if have_child \<or> (\<exists>p \<in> set ps. waits_for ppid pid_arg p) then PROC_WAIT_BLOCK else PROC_WAIT_NOCHILD, None))"
  by (induction ps arbitrary: have_child) (auto simp: waits_for_def split: option.split)

lemma waits_for_state: "waits_for ppid pid_arg p \<Longrightarrow> pe_state p \<noteq> PROC_ZOMBIE \<Longrightarrow> pe_state p = PROC_LIVE"
  by (cases "pe_state p") (auto simp: waits_for_def)

lemma proc_wait_find_cases [consumes 1, case_names zombie block nochild]:
  assumes "proc_inv pt"
  obtains (zombie) i where "used pt i" "waits_for ppid pid_arg (slot pt i)" "pe_state (slot pt i) = PROC_ZOMBIE"
      "proc_wait_find ppid pid_arg pt = (pe_pid (slot pt i), Some (pe_exit_status (slot pt i)))" "0 < pe_pid (slot pt i)"
  | (block) "proc_wait_find ppid pid_arg pt = (PROC_WAIT_BLOCK, None)" "\<exists>p \<in> set (pt_procs pt). waits_for ppid pid_arg p"
      "\<forall>p \<in> set (pt_procs pt). waits_for ppid pid_arg p \<longrightarrow> pe_state p = PROC_LIVE"
  | (nochild) "proc_wait_find ppid pid_arg pt = (PROC_WAIT_NOCHILD, None)" "\<forall>p \<in> set (pt_procs pt). \<not> waits_for ppid pid_arg p"
proof (cases "List.find (\<lambda>p. waits_for ppid pid_arg p \<and> pe_state p = PROC_ZOMBIE) (pt_procs pt)")
  case None
  then have n: "\<forall>p \<in> set (pt_procs pt). waits_for ppid pid_arg p \<longrightarrow> pe_state p = PROC_LIVE"
    using waits_for_state by (auto simp: find_None_iff)
  show ?thesis
  proof (cases "\<exists>p \<in> set (pt_procs pt). waits_for ppid pid_arg p")
    case True
    then show ?thesis using block n by (simp add: proc_wait_find_def proc_wait_loop_eq None)
  next
    case False
    then show ?thesis using nochild by (simp add: proc_wait_find_def proc_wait_loop_eq None)
  qed
next
  case (Some p)
  then have p: "p \<in> set (pt_procs pt)" "waits_for ppid pid_arg p" "pe_state p = PROC_ZOMBIE"
    by (auto simp: find_Some_iff)
  then obtain i where i: "i < PROC_MAX" "slot pt i = p" using assms by (auto simp: in_set_conv_nth)
  then have "0 < pe_pid p" using proc_inv_pid [OF assms, of i] p(3) by auto
  then show ?thesis using zombie [of i] i p by (simp add: proc_wait_find_def proc_wait_loop_eq Some)
qed

text \<open>
  C29. Waiting finds exactly the children that can be reaped. With the argument of \<^verbatim>\<open>wait4\<close>,
  \<^verbatim>\<open>proc_wait_find\<close> returns the pid and the exit status of a zombie child that matches, if there is
  one; it answers \<^verbatim>\<open>PROC_WAIT_BLOCK\<close> exactly when matching children exist and all of them are alive,
  and \<^verbatim>\<open>PROC_WAIT_NOCHILD\<close> exactly when no child matches. The three answers exclude each other.
\<close>

theorem proc_wait_find_correct:
  assumes "proc_inv pt"
  shows "(case proc_wait_find ppid pid_arg pt of (r, st) \<Rightarrow>
      (0 < r \<longleftrightarrow> (\<exists>p \<in> set (pt_procs pt). waits_for ppid pid_arg p \<and> pe_state p = PROC_ZOMBIE))
    \<and> (0 < r \<longrightarrow> (\<exists>p \<in> set (pt_procs pt). waits_for ppid pid_arg p \<and> pe_state p = PROC_ZOMBIE
                   \<and> pe_pid p = r \<and> st = Some (pe_exit_status p)))
    \<and> (r = PROC_WAIT_BLOCK \<longleftrightarrow> (\<exists>p \<in> set (pt_procs pt). waits_for ppid pid_arg p)
         \<and> (\<forall>p \<in> set (pt_procs pt). waits_for ppid pid_arg p \<longrightarrow> pe_state p = PROC_LIVE))
    \<and> (r = PROC_WAIT_NOCHILD \<longleftrightarrow> (\<forall>p \<in> set (pt_procs pt). \<not> waits_for ppid pid_arg p)))"
  using assms
proof (cases rule: proc_wait_find_cases [where ppid = ppid and pid_arg = pid_arg])
  case (zombie i)
  then have "slot pt i \<in> set (pt_procs pt)" using assms by (auto simp: in_set_conv_nth)
  then show ?thesis using zombie by auto
qed auto

theorem proc_wait_find_correct_witness:
  "let pt = snd (proc_exit 2 7 (snd (proc_alloc 1 (snd (proc_alloc 0 proc_table_init)))))
   in proc_wait_find 1 (- 1) pt = (2, Some 7) \<and> (\<exists>p \<in> set (pt_procs pt). waits_for 1 (- 1) p \<and> pe_state p = PROC_ZOMBIE)"
proof -
  let ?a = "snd (proc_alloc 0 proc_table_init)"
  let ?b = "snd (proc_alloc 1 ?a)"
  let ?pt = "snd (proc_exit 2 7 ?b)"
  have a: "proc_alloc 0 proc_table_init = (1, ?a)" "pt_next_pid ?a = 2" by code_simp+
  have b: "proc_alloc 1 ?a = (2, ?b)" by code_simp
  have "proc_inv ?a" by (rule proc_alloc_Some [OF proc_inv_init _ a(1)]) (simp_all add: proc_table_init_def)
  then have "proc_inv ?b" by (rule proc_alloc_Some [OF _ _ b]) (simp_all add: a(2))
  then have "proc_inv ?pt" by (rule proc_inv_exit)
  moreover have r: "proc_wait_find 1 (- 1) ?pt = (2, Some 7)" by code_simp
  ultimately show ?thesis
    unfolding Let_def using proc_wait_find_correct [of ?pt 1 "- 1", unfolded r] by simp
qed

end
