(* ===== verification/Vfs_File.thy ===== *)
theory Vfs_File
  imports Kernel_Prelude Kernel_Errno
begin

text \<open>
  Open file descriptions (the first part of \<^verbatim>\<open>kernel/fs/vfs.c\<close>): allocation, reference counting
  and the count of open descriptions per graphfs node. A \<^verbatim>\<open>struct file *\<close> is an address; the
  store \<open>vf_file\<close> maps the addresses of the live descriptions to their contents. The allocator is a
  parameter: \<^verbatim>\<open>file_alloc\<close> takes the address \<^verbatim>\<open>kzalloc\<close> returned, \<open>None\<close> when memory is out. A
  failed \<^verbatim>\<open>KASSERT\<close> and a use of a freed description set \<open>vf_panic\<close>. The \<^verbatim>\<open>release\<close> callback of the
  other file types is recorded in \<open>vf_released\<close>.
\<close>

section \<open>Data\<close>

text \<open>
  The vtable a description points to: the two of graphfs, those of the console and of the directory
  \<^verbatim>\<open>/dev\<close>, or one of another file type. Only those of the last kind have a \<^verbatim>\<open>release\<close> callback.
\<close>

datatype file_ops = GFS_FILE_OPS | GFS_DIR_OPS | CON_OPS | DIR_OPS | OTHER_OPS nat

fun has_release :: "file_ops \<Rightarrow> bool" where
  "has_release (OTHER_OPS _) = True"
| "has_release _ = False"

record file_desc =
  f_ops :: file_ops
  f_node :: nat
  f_off :: nat
  f_flags :: nat
  f_refs :: nat

record vfs_files =
  vf_file :: "nat \<Rightarrow> file_desc option"
  vf_opens :: "nat \<Rightarrow> nat"
  vf_released :: "nat list"
  vf_panic :: bool

section \<open>Operations\<close>

definition file_alloc :: "nat option \<Rightarrow> file_ops \<Rightarrow> nat \<Rightarrow> nat \<Rightarrow> vfs_files \<Rightarrow> nat option \<times> vfs_files" where
  "file_alloc mem ops node flags vf =
     (case mem of None \<Rightarrow> (None, vf)
      | Some a \<Rightarrow> (Some a, vf\<lparr>vf_file := (vf_file vf)(a := Some \<lparr>f_ops = ops, f_node = node, f_off = 0,
                                                 f_flags = flags, f_refs = 1\<rparr>)\<rparr>))"

definition file_is_gfs :: "file_desc \<Rightarrow> bool" where
  "file_is_gfs f \<longleftrightarrow> f_ops f = GFS_FILE_OPS \<or> f_ops f = GFS_DIR_OPS"

definition vfs_file_ref :: "nat \<Rightarrow> vfs_files \<Rightarrow> vfs_files" where
  "vfs_file_ref a vf =
     (case vf_file vf a of None \<Rightarrow> vf\<lparr>vf_panic := True\<rparr>
      | Some f \<Rightarrow> if f_refs f = 0 then vf\<lparr>vf_panic := True\<rparr>
                 else vf\<lparr>vf_file := (vf_file vf)(a := Some (f\<lparr>f_refs := f_refs f + 1\<rparr>))\<rparr>)"

text \<open>The last reference to a graphfs description closes its node.\<close>

definition node_close :: "nat \<Rightarrow> vfs_files \<Rightarrow> vfs_files" where
  "node_close node vf =
     (if vf_opens vf node = 0 then vf\<lparr>vf_panic := True\<rparr>
      else vf\<lparr>vf_opens := (vf_opens vf)(node := vf_opens vf node - 1)\<rparr>)"

definition vfs_file_put :: "nat \<Rightarrow> vfs_files \<Rightarrow> vfs_files" where
  "vfs_file_put a vf =
     (case vf_file vf a of None \<Rightarrow> vf\<lparr>vf_panic := True\<rparr>
      | Some f \<Rightarrow>
          if f_refs f = 0 then vf\<lparr>vf_panic := True\<rparr>
          else if f_refs f - 1 = 0 then
            let vf = (if file_is_gfs f then node_close (f_node f) vf else vf);
                vf = (if has_release (f_ops f) then vf\<lparr>vf_released := vf_released vf @ [a]\<rparr> else vf)
            in vf\<lparr>vf_file := (vf_file vf)(a := None)\<rparr>
          else vf\<lparr>vf_file := (vf_file vf)(a := Some (f\<lparr>f_refs := f_refs f - 1\<rparr>))\<rparr>)"

text \<open>The end of \<^verbatim>\<open>gfs_open\<close>: a fresh description, and the node counted as open.\<close>

definition gfs_open_file :: "nat option \<Rightarrow> file_ops \<Rightarrow> nat \<Rightarrow> nat \<Rightarrow> vfs_files \<Rightarrow> (int + nat) \<times> vfs_files" where
  "gfs_open_file mem ops node flags vf =
     (case file_alloc mem ops node flags vf of
        (None, vf) \<Rightarrow> (Inl (- ENOMEM), vf)
      | (Some a, vf) \<Rightarrow> (Inr a, vf\<lparr>vf_opens := (vf_opens vf)(node := u32 (vf_opens vf node + 1))\<rparr>))"

section \<open>Invariant\<close>

text \<open>The live graphfs descriptions of a node.\<close>

definition open_files :: "vfs_files \<Rightarrow> nat \<Rightarrow> nat set" where
  "open_files vf node = {a. \<exists>f. vf_file vf a = Some f \<and> file_is_gfs f \<and> f_node f = node}"

definition files_ok :: "vfs_files \<Rightarrow> bool" where
  "files_ok vf \<longleftrightarrow> \<not> vf_panic vf \<and> finite (dom (vf_file vf))
     \<and> (\<forall>a f. vf_file vf a = Some f \<longrightarrow> 0 < f_refs f)
     \<and> (\<forall>node. vf_opens vf node = card (open_files vf node))"

definition refs_of :: "vfs_files \<Rightarrow> nat \<Rightarrow> nat" where
  "refs_of vf a = (case vf_file vf a of None \<Rightarrow> 0 | Some f \<Rightarrow> f_refs f)"

lemma open_files_dom: "open_files vf node \<subseteq> dom (vf_file vf)"
  by (auto simp: open_files_def)

lemma finite_open_files: "files_ok vf \<Longrightarrow> finite (open_files vf node)"
  using finite_subset [OF open_files_dom] by (auto simp: files_ok_def)

lemma refs_of_pos: "files_ok vf \<Longrightarrow> 0 < refs_of vf a \<longleftrightarrow> vf_file vf a \<noteq> None"
  by (auto simp: files_ok_def refs_of_def split: option.splits)

lemma files_okD:
  assumes "files_ok vf"
  shows "\<not> vf_panic vf" "finite (dom (vf_file vf))" "vf_opens vf node = card (open_files vf node)"
    "vf_file vf a = Some f \<Longrightarrow> 0 < f_refs f"
  using assms by (auto simp: files_ok_def)

lemma vfs_file_ref_ok:
  assumes ok: "files_ok vf" and a: "0 < refs_of vf a"
  shows "files_ok (vfs_file_ref a vf)" "refs_of (vfs_file_ref a vf) = (refs_of vf)(a := refs_of vf a + 1)"
proof -
  obtain f where f: "vf_file vf a = Some f" "0 < f_refs f"
    using a by (auto simp: refs_of_def split: option.splits)
  have "open_files (vfs_file_ref a vf) node = open_files vf node" for node
    using f by (auto simp: open_files_def vfs_file_ref_def file_is_gfs_def)
  then show "files_ok (vfs_file_ref a vf)"
    using ok f by (auto simp: files_ok_def vfs_file_ref_def)
  show "refs_of (vfs_file_ref a vf) = (refs_of vf)(a := refs_of vf a + 1)"
    using f by (auto simp: refs_of_def vfs_file_ref_def)
qed

lemma open_files_remove:
  "vf_file vf' = (vf_file vf)(a := None) \<Longrightarrow> open_files vf' node = open_files vf node - {a}"
  by (auto simp: open_files_def)

lemma vfs_file_put_ok:
  assumes ok: "files_ok vf" and a: "0 < refs_of vf a"
  shows "files_ok (vfs_file_put a vf)" "refs_of (vfs_file_put a vf) = (refs_of vf)(a := refs_of vf a - 1)"
proof -
  obtain f where f: "vf_file vf a = Some f" "0 < f_refs f"
    using a by (auto simp: refs_of_def split: option.splits)
  have "files_ok (vfs_file_put a vf) \<and> refs_of (vfs_file_put a vf) = (refs_of vf)(a := refs_of vf a - 1)"
  proof (cases "f_refs f = 1")
    case False
    then have put: "vfs_file_put a vf = vf\<lparr>vf_file := (vf_file vf)(a := Some (f\<lparr>f_refs := f_refs f - 1\<rparr>))\<rparr>"
      using f by (simp add: vfs_file_put_def)
    have "open_files (vfs_file_put a vf) node = open_files vf node" for node
      using f by (auto simp: open_files_def put file_is_gfs_def)
    moreover have "1 < f_refs f" using f(2) False by linarith
    ultimately show ?thesis using ok f by (auto simp: files_ok_def put refs_of_def)
  next
    case True
    have opens: "vf_opens vf (f_node f) = card (open_files vf (f_node f))" using ok by (simp add: files_ok_def)
    let ?vf = "vfs_file_put a vf"
    have fil: "vf_file ?vf = (vf_file vf)(a := None)"
      using f True by (auto simp: vfs_file_put_def node_close_def Let_def)
    note rem = open_files_remove [OF fil]
    have mem: "a \<in> open_files vf node \<longleftrightarrow> file_is_gfs f \<and> f_node f = node" for node
      using f by (auto simp: open_files_def)
    have pos: "file_is_gfs f \<Longrightarrow> vf_opens vf (f_node f) \<noteq> 0"
      using mem [of "f_node f"] finite_open_files [OF ok, of "f_node f"] opens by auto
    have "vf_opens ?vf node = card (open_files ?vf node)" for node
    proof (cases "file_is_gfs f \<and> f_node f = node")
      case False
      then have "vf_opens ?vf node = vf_opens vf node"
        using f True by (auto simp: vfs_file_put_def node_close_def Let_def)
      moreover have "open_files ?vf node = open_files vf node" using mem False by (simp add: rem)
      ultimately show ?thesis using ok by (simp add: files_ok_def)
    next
      case t: True
      then have "vf_opens ?vf node = vf_opens vf node - 1"
        using f True pos by (auto simp: vfs_file_put_def node_close_def Let_def)
      then show ?thesis using mem [of node] t opens finite_open_files [OF ok] by (simp add: rem card_Diff_singleton)
    qed
    moreover have "\<not> vf_panic ?vf"
      using f True ok pos by (auto simp: vfs_file_put_def node_close_def Let_def files_ok_def)
    ultimately have "files_ok ?vf" using ok by (auto simp: files_ok_def fil split: if_splits)
    moreover have "refs_of ?vf = (refs_of vf)(a := refs_of vf a - 1)"
      using f True by (auto simp: refs_of_def fil)
    ultimately show ?thesis by blast
  qed
  then show "files_ok (vfs_file_put a vf)" "refs_of (vfs_file_put a vf) = (refs_of vf)(a := refs_of vf a - 1)"
    by blast+
qed

text \<open>A fresh description; the counter of its node cannot wrap while fewer than \<open>2 ^ 32\<close> are open.\<close>

lemma gfs_open_file_ok:
  assumes ok: "files_ok vf" and fresh: "vf_file vf a = None" and room: "card (dom (vf_file vf)) + 1 < 2 ^ 32"
    and gfs: "ops = GFS_FILE_OPS \<or> ops = GFS_DIR_OPS"
    and run: "gfs_open_file (Some a) ops node flags vf = (r, vf')"
  shows "r = Inr a" "files_ok vf'" "refs_of vf' = (refs_of vf)(a := 1)"
proof -
  have vf': "vf_file vf' = (vf_file vf)(a := Some \<lparr>f_ops = ops, f_node = node, f_off = 0, f_flags = flags, f_refs = 1\<rparr>)"
    "vf_opens vf' = (vf_opens vf)(node := u32 (vf_opens vf node + 1))" "vf_panic vf' = vf_panic vf" and "r = Inr a"
    using run by (auto simp: gfs_open_file_def file_alloc_def)
  show "r = Inr a" by fact
  have op: "open_files vf' n = (if n = node then insert a (open_files vf n) else open_files vf n)" for n
    using fresh gfs by (auto simp: open_files_def vf' file_is_gfs_def)
  have na: "a \<notin> open_files vf node" using fresh by (simp add: open_files_def)
  have "card (open_files vf node) \<le> card (dom (vf_file vf))"
    by (rule card_mono [OF _ open_files_dom]) (use ok in \<open>simp add: files_ok_def\<close>)
  then have "u32 (vf_opens vf node + 1) = card (open_files vf' node)"
    using room na finite_open_files [OF ok] ok by (simp add: op files_ok_def)
  then show "files_ok vf'" using ok by (auto simp: files_ok_def vf' op)
  show "refs_of vf' = (refs_of vf)(a := 1)" by (auto simp: refs_of_def vf')
qed

lemma file_alloc_other_ok:
  assumes ok: "files_ok vf" and fresh: "vf_file vf a = None"
    and run: "file_alloc (Some a) ops node flags vf = (r, vf')" and ops: "ops \<noteq> GFS_FILE_OPS" "ops \<noteq> GFS_DIR_OPS"
  shows "r = Some a" "files_ok vf'" "refs_of vf' = (refs_of vf)(a := 1)"
proof -
  have vf': "vf_file vf' = (vf_file vf)(a := Some \<lparr>f_ops = ops, f_node = node, f_off = 0, f_flags = flags, f_refs = 1\<rparr>)"
    "vf_opens vf' = vf_opens vf" "vf_panic vf' = vf_panic vf" and "r = Some a" using run by (auto simp: file_alloc_def)
  show "r = Some a" by fact
  have op: "open_files vf' n = open_files vf n" for n
    using fresh ops by (auto simp: open_files_def vf' file_is_gfs_def)
  then show "files_ok vf'" using ok by (auto simp: files_ok_def vf' op)
  show "refs_of vf' = (refs_of vf)(a := 1)" by (auto simp: refs_of_def vf')
qed

end
