(* ===== verification/Process.thy ===== *)
theory Process
  imports Proc_Core Vfs_File "HOL-Library.Multiset"
begin

text \<open>
  The process model (\<^verbatim>\<open>kernel/proc/process.c\<close>): fork, exit, wait4 and the per-process fd tables, on
  top of the process table and of the open file descriptions. The state is the table, the parallel
  array \<^verbatim>\<open>pstate[]\<close> and the file store; the hosting thread of a process is reduced to where it stands:
  in user code, at the top of the loop of \<^verbatim>\<open>process_wait4\<close>, or blocked in it. Every definition is one
  section that runs without interleaving, as it does on the single CPU of the kernel: a whole system
  call, or one pass of the wait loop up to \<^verbatim>\<open>sched_block\<close>.

  Address spaces are a parameter of \<^verbatim>\<open>process_fork\<close>: whether \<^verbatim>\<open>vmm_addrspace_create_user\<close> and
  \<^verbatim>\<open>paging_user_clone\<close> succeeded. Process names and the register frame are not modelled.
\<close>

section \<open>State\<close>

abbreviation (input) FD_MAX :: nat where "FD_MAX \<equiv> 16"

record process =
  ps_waiter :: "int option"
  ps_fd :: "nat option list"

datatype host = Host_none | Host_user | Host_wait int | Host_blocked int

record kproc =
  kp_tab :: proc_table
  kp_ps :: "process list"
  kp_vf :: vfs_files
  kp_host :: "int \<Rightarrow> host"
  kp_panic :: bool

definition kassert_fail :: "kproc \<Rightarrow> kproc" where
  "kassert_fail s = s\<lparr>kp_panic := True\<rparr>"

definition pstate_of :: "int \<Rightarrow> kproc \<Rightarrow> nat option" where
  "pstate_of pid s = proc_find pid (kp_tab s)"

abbreviation fd_table :: "kproc \<Rightarrow> nat \<Rightarrow> nat option list" where
  "fd_table s i \<equiv> ps_fd (kp_ps s ! i)"

definition set_fd :: "nat \<Rightarrow> nat \<Rightarrow> nat option \<Rightarrow> kproc \<Rightarrow> kproc" where
  "set_fd i k v s = s\<lparr>kp_ps := (kp_ps s)[i := (kp_ps s ! i)\<lparr>ps_fd := (fd_table s i)[k := v]\<rparr>]\<rparr>"

definition set_waiter :: "nat \<Rightarrow> int option \<Rightarrow> kproc \<Rightarrow> kproc" where
  "set_waiter i w s = s\<lparr>kp_ps := (kp_ps s)[i := (kp_ps s ! i)\<lparr>ps_waiter := w\<rparr>]\<rparr>"

section \<open>The fd table\<close>

definition process_file_get :: "int \<Rightarrow> int \<Rightarrow> kproc \<Rightarrow> nat option" where
  "process_file_get pid fd s =
     (if pid = 0 \<or> fd < 0 \<or> fd \<ge> int FD_MAX then None
      else case pstate_of pid s of None \<Rightarrow> None | Some i \<Rightarrow> fd_table s i ! nat fd)"

definition process_fd_install :: "int \<Rightarrow> nat \<Rightarrow> kproc \<Rightarrow> int \<times> kproc" where
  "process_fd_install pid f s =
     (case pstate_of pid s of None \<Rightarrow> (0, kassert_fail s)
      | Some i \<Rightarrow>
          case List.find (\<lambda>k. fd_table s i ! k = None) [0..<FD_MAX] of
            Some k \<Rightarrow> (int k, set_fd i k (Some f) s)
          | None \<Rightarrow> (- EMFILE, s))"

definition file_put :: "nat \<Rightarrow> kproc \<Rightarrow> kproc" where
  "file_put f s = s\<lparr>kp_vf := vfs_file_put f (kp_vf s)\<rparr>"

definition process_fd_close :: "int \<Rightarrow> int \<Rightarrow> kproc \<Rightarrow> int \<times> kproc" where
  "process_fd_close pid fd s =
     (case process_file_get pid fd s of
        None \<Rightarrow> (- EBADF, s)
      | Some f \<Rightarrow>
          case pstate_of pid s of None \<Rightarrow> (0, kassert_fail s)
          | Some i \<Rightarrow> (0, file_put f (set_fd i (nat fd) None s)))"

definition fd_close_slot :: "nat \<Rightarrow> nat \<Rightarrow> kproc \<Rightarrow> kproc" where
  "fd_close_slot i k s =
     (case fd_table s i ! k of None \<Rightarrow> s | Some f \<Rightarrow> set_fd i k None (file_put f s))"

definition fd_table_close_all :: "nat \<Rightarrow> kproc \<Rightarrow> kproc" where
  "fd_table_close_all i s = fold (fd_close_slot i) [0..<FD_MAX] s"

text \<open>
  The end of \<^verbatim>\<open>sys_open\<close>: the description is built, installed, and dropped again when the table is full.
\<close>

definition sys_open_install :: "int \<Rightarrow> nat option \<Rightarrow> file_ops \<Rightarrow> nat \<Rightarrow> nat \<Rightarrow> kproc \<Rightarrow> int \<times> kproc" where
  "sys_open_install pid mem ops node flags s =
     (case gfs_open_file mem ops node flags (kp_vf s) of
        (Inl rc, vf) \<Rightarrow> (rc, s\<lparr>kp_vf := vf\<rparr>)
      | (Inr f, vf) \<Rightarrow>
          case process_fd_install pid f (s\<lparr>kp_vf := vf\<rparr>) of (rc, s) \<Rightarrow>
            if rc < 0 then (rc, file_put f s) else (rc, s))"

section \<open>Exit\<close>

definition sched_wake_host :: "int \<Rightarrow> kproc \<Rightarrow> kproc" where
  "sched_wake_host pid s =
     (case kp_host s pid of
        Host_blocked arg \<Rightarrow> s\<lparr>kp_host := (kp_host s)(pid := Host_wait arg)\<rparr>
      | _ \<Rightarrow> kassert_fail s)"

definition proc_die :: "int \<Rightarrow> int \<Rightarrow> kproc \<Rightarrow> kproc" where
  "proc_die pid wstatus s =
     (case pstate_of pid s of None \<Rightarrow> kassert_fail s
      | Some i \<Rightarrow>
          let s = fd_table_close_all i s;
              (ppid, tab) = proc_exit pid wstatus (kp_tab s);
              s = s\<lparr>kp_tab := tab\<rparr>;
              s = (if ppid > 0 then
                     case proc_find ppid tab of None \<Rightarrow> s
                     | Some j \<Rightarrow>
                         if pe_state (slot tab j) = PROC_LIVE then
                           case ps_waiter (kp_ps s ! j) of None \<Rightarrow> s
                           | Some w \<Rightarrow> sched_wake_host w (set_waiter j None s)
                         else s
                   else s)
          in s\<lparr>kp_host := (kp_host s)(pid := Host_none)\<rparr>)"

text \<open>The encodings of the wait status: \<^verbatim>\<open>(status & 0xFF) << 8\<close> and \<^verbatim>\<open>sig & 0x7F\<close>.\<close>

definition process_exit :: "int \<Rightarrow> int \<Rightarrow> kproc \<Rightarrow> kproc" where
  "process_exit pid status s = proc_die pid ((status mod 256) * 256) s"

definition process_kill :: "int \<Rightarrow> int \<Rightarrow> kproc \<Rightarrow> kproc" where
  "process_kill pid sig s = proc_die pid (sig mod 128) s"

section \<open>Fork\<close>

definition fd_share :: "nat \<Rightarrow> nat \<Rightarrow> nat \<Rightarrow> kproc \<Rightarrow> kproc" where
  "fd_share pi ci k s =
     (let v = fd_table s pi ! k; s = set_fd ci k v s
      in case v of None \<Rightarrow> s | Some f \<Rightarrow> s\<lparr>kp_vf := vfs_file_ref f (kp_vf s)\<rparr>)"

definition process_fork :: "int \<Rightarrow> bool \<Rightarrow> kproc \<Rightarrow> int \<times> kproc" where
  "process_fork me as_ok s =
     (case proc_alloc me (kp_tab s) of (pid, tab) \<Rightarrow>
        if pid = 0 then (- EAGAIN, s\<lparr>kp_tab := tab\<rparr>)
        else case (proc_find pid tab, proc_find me tab) of
          (Some ci, Some pi) \<Rightarrow>
            let s = set_waiter ci None (s\<lparr>kp_tab := tab\<rparr>) in
            if \<not> as_ok then (- ENOMEM, s\<lparr>kp_tab := proc_reap pid (snd (proc_exit pid 0 tab))\<rparr>)
            else let s = fold (fd_share pi ci) [0..<FD_MAX] s
                 in (pid, s\<lparr>kp_host := (kp_host s)(pid := Host_user)\<rparr>)
        | _ \<Rightarrow> (0, kassert_fail s))"

section \<open>Wait\<close>

text \<open>The checks at the entry; the loop that follows is in \<open>process_wait4_pass\<close>.\<close>

definition process_wait4 :: "int \<Rightarrow> int \<Rightarrow> int \<Rightarrow> nat \<Rightarrow> kproc \<Rightarrow> int option \<times> kproc" where
  "process_wait4 me pid_arg options urusage s =
     (if options \<noteq> 0 \<or> urusage \<noteq> 0 then (Some (- EINVAL), s)
      else if pid_arg = 0 \<or> pid_arg < - 1 then (Some (- EINVAL), s)
      else (None, s\<lparr>kp_host := (kp_host s)(me := Host_wait pid_arg)\<rparr>))"

text \<open>
  One pass of the loop: a result (the pid and the status), or \<open>None\<close> when the thread blocked. \<open>uw\<close> is
  whether the user pointer is null, and if it is not, whether \<^verbatim>\<open>user_copy_to\<close> succeeds.
\<close>

definition process_wait4_pass :: "int \<Rightarrow> int \<Rightarrow> bool option \<Rightarrow> kproc \<Rightarrow> (int \<times> int option) option \<times> kproc" where
  "process_wait4_pass me pid_arg uw s =
     (case proc_wait_find me pid_arg (kp_tab s) of (r, status) \<Rightarrow>
        if r = PROC_WAIT_NOCHILD then (Some (- ECHILD, None), s\<lparr>kp_host := (kp_host s)(me := Host_user)\<rparr>)
        else if r > 0 then
          let s = s\<lparr>kp_tab := proc_reap r (kp_tab s), kp_host := (kp_host s)(me := Host_user)\<rparr>
          in if uw = Some False then (Some (- EFAULT, None), s) else (Some (r, status), s)
        else case pstate_of me s of
            None \<Rightarrow> (None, kassert_fail s)
          | Some i \<Rightarrow>
              if ps_waiter (kp_ps s ! i) \<noteq> None then (None, kassert_fail s)
              else let s = set_waiter i (Some me) s
                   in (None, s\<lparr>kp_host := (kp_host s)(me := Host_blocked pid_arg)\<rparr>))"

section \<open>The system\<close>

text \<open>
  The state in which \<^verbatim>\<open>process_run_init\<close> starts init: pid 1, with one description of the console on
  the descriptors 0, 1 and 2.
\<close>

definition init_state :: "nat \<Rightarrow> kproc" where
  "init_state con =
     (let tab = snd (proc_alloc 0 proc_table_init);
          vf = snd (file_alloc (Some con) CON_OPS 2 2
                 \<lparr>vf_file = (\<lambda>_. None), vf_opens = (\<lambda>_. 0), vf_released = [], vf_panic = False\<rparr>);
          vf = vfs_file_ref con (vfs_file_ref con vf);
          s = \<lparr>kp_tab = tab, kp_ps = replicate PROC_MAX \<lparr>ps_waiter = None, ps_fd = replicate FD_MAX None\<rparr>,
               kp_vf = vf, kp_host = (\<lambda>_. Host_none)(1 := Host_user), kp_panic = False\<rparr>
      in set_fd 0 2 (Some con) (set_fd 0 1 (Some con) (set_fd 0 0 (Some con) s)))"

definition pid_live :: "proc_table \<Rightarrow> int \<Rightarrow> bool" where
  "pid_live pt pid \<longleftrightarrow> list_ex (\<lambda>e. pe_state e = PROC_LIVE \<and> pe_pid e = pid) (pt_procs pt)"

text \<open>
  What a running process can do. A new description has an address that no live one has; \<^verbatim>\<open>next_pid\<close> is
  below \<^verbatim>\<open>INT_MAX\<close> when a process is created.
\<close>

inductive kstep :: "kproc \<Rightarrow> kproc \<Rightarrow> bool" where
  kstep_open: "pid_live (kp_tab s) p \<Longrightarrow> kp_host s p = Host_user \<Longrightarrow> vf_file (kp_vf s) a = None
    \<Longrightarrow> ops = GFS_FILE_OPS \<or> ops = GFS_DIR_OPS
    \<Longrightarrow> kstep s (snd (sys_open_install p (Some a) ops node flags s))"
| kstep_close: "pid_live (kp_tab s) p \<Longrightarrow> kp_host s p = Host_user \<Longrightarrow> kstep s (snd (process_fd_close p fd s))"
| kstep_fork: "pid_live (kp_tab s) p \<Longrightarrow> kp_host s p = Host_user \<Longrightarrow> pt_next_pid (kp_tab s) < 2 ^ 31 - 1
    \<Longrightarrow> kstep s (snd (process_fork p as_ok s))"
| kstep_exit: "pid_live (kp_tab s) p \<Longrightarrow> kp_host s p = Host_user \<Longrightarrow> kstep s (process_exit p status s)"
| kstep_kill: "pid_live (kp_tab s) p \<Longrightarrow> kp_host s p = Host_user \<Longrightarrow> kstep s (process_kill p sig s)"
| kstep_wait: "pid_live (kp_tab s) p \<Longrightarrow> kp_host s p = Host_user \<Longrightarrow> kstep s (snd (process_wait4 p arg opts ru s))"
| kstep_wait_pass: "pid_live (kp_tab s) p \<Longrightarrow> kp_host s p = Host_wait arg \<Longrightarrow> kstep s (snd (process_wait4_pass p arg uw s))"

abbreviation kreach :: "kproc \<Rightarrow> kproc \<Rightarrow> bool" where
  "kreach \<equiv> kstep\<^sup>*\<^sup>*"

section \<open>Descriptors and references\<close>

lemma set_fd_simps [simp]:
  "kp_tab (set_fd i k v s) = kp_tab s" "kp_vf (set_fd i k v s) = kp_vf s" "kp_host (set_fd i k v s) = kp_host s"
  "kp_panic (set_fd i k v s) = kp_panic s" "length (kp_ps (set_fd i k v s)) = length (kp_ps s)"
  "i < length (kp_ps s) \<Longrightarrow> fd_table (set_fd i k v s) j = (if j = i then (fd_table s i)[k := v] else fd_table s j)"
  "i < length (kp_ps s) \<Longrightarrow> ps_waiter (kp_ps (set_fd i k v s) ! j) = ps_waiter (kp_ps s ! j)"
  by (auto simp: set_fd_def nth_list_update)

lemma set_waiter_simps [simp]:
  "kp_tab (set_waiter i w s) = kp_tab s" "kp_vf (set_waiter i w s) = kp_vf s" "kp_host (set_waiter i w s) = kp_host s"
  "kp_panic (set_waiter i w s) = kp_panic s" "length (kp_ps (set_waiter i w s)) = length (kp_ps s)"
  "i < length (kp_ps s) \<Longrightarrow> fd_table (set_waiter i w s) j = fd_table s j"
  "i < length (kp_ps s) \<Longrightarrow> ps_waiter (kp_ps (set_waiter i w s) ! j) = (if j = i then w else ps_waiter (kp_ps s ! j))"
  by (auto simp: set_waiter_def nth_list_update)

lemma file_put_simps [simp]:
  "kp_tab (file_put f s) = kp_tab s" "kp_ps (file_put f s) = kp_ps s" "kp_host (file_put f s) = kp_host s"
  "kp_panic (file_put f s) = kp_panic s" "kp_vf (file_put f s) = vfs_file_put f (kp_vf s)"
  by (simp_all add: file_put_def)

text \<open>How many descriptors, over all processes, hold a description.\<close>

definition holders :: "kproc \<Rightarrow> nat \<Rightarrow> nat" where
  "holders s a = (\<Sum>i<PROC_MAX. count (mset (fd_table s i)) (Some a))"

definition shape_ok :: "kproc \<Rightarrow> bool" where
  "shape_ok s \<longleftrightarrow> length (kp_ps s) = PROC_MAX \<and> (\<forall>i < PROC_MAX. length (fd_table s i) = FD_MAX)"

definition refs_exact :: "kproc \<Rightarrow> bool" where
  "refs_exact s \<longleftrightarrow> shape_ok s \<and> files_ok (kp_vf s) \<and> refs_of (kp_vf s) = holders s"

lemma shape_set_fd: "shape_ok s \<Longrightarrow> shape_ok (set_fd i k v s)"
  by (cases "i < length (kp_ps s)") (auto simp: shape_ok_def set_fd_def nth_list_update)

lemma holders_cong: "(\<And>i. i < PROC_MAX \<Longrightarrow> fd_table s i = fd_table s' i) \<Longrightarrow> holders s = holders s'"
  unfolding holders_def by (intro ext sum.cong) simp_all

lemma holders_set_fd:
  assumes "shape_ok s" "i < PROC_MAX" "k < FD_MAX"
  shows "holders (set_fd i k v s) a + (if fd_table s i ! k = Some a then 1 else 0) = holders s a + (if v = Some a then 1 else 0)"
proof -
  have len: "i < length (kp_ps s)" "k < length (fd_table s i)" using assms by (simp_all add: shape_ok_def)
  have pos: "0 < count (mset (fd_table s i)) (fd_table s i ! k)" using len(2) by simp
  let ?c = "\<lambda>s i. count (mset (fd_table s i)) (Some a)"
  have one: "?c (set_fd i k v s) i + (if fd_table s i ! k = Some a then 1 else 0) = ?c s i + (if v = Some a then 1 else 0)"
    using len pos by (cases "fd_table s i ! k = Some a") (auto simp: mset_update)
  have "holders t a = ?c t i + (\<Sum>j \<in> {..<PROC_MAX} - {i}. ?c t j)" for t
    unfolding holders_def by (rule sum.remove) (use assms(2) in simp_all)
  moreover have "(\<Sum>j \<in> {..<PROC_MAX} - {i}. ?c (set_fd i k v s) j) = (\<Sum>j \<in> {..<PROC_MAX} - {i}. ?c s j)"
    by (rule sum.cong) (use len in simp_all)
  ultimately show ?thesis using one by simp
qed

lemma holders_pos: "shape_ok s \<Longrightarrow> i < PROC_MAX \<Longrightarrow> k < FD_MAX \<Longrightarrow> fd_table s i ! k = Some a \<Longrightarrow> 0 < holders s a"
  using holders_set_fd [of s i k None a] by simp

text \<open>There are at most 1024 descriptors, so at most 1024 live descriptions.\<close>

lemma sum_holders_le:
  assumes "shape_ok s" "finite A"
  shows "(\<Sum>a\<in>A. holders s a) \<le> PROC_MAX * FD_MAX"
proof -
  have "(\<Sum>a\<in>A. count (mset (fd_table s i)) (Some a)) \<le> FD_MAX" if "i < PROC_MAX" for i
  proof -
    have "(\<Sum>a\<in>A. count (mset (fd_table s i)) (Some a)) = (\<Sum>v \<in> Some ` A. count (mset (fd_table s i)) v)"
      by (simp add: sum.reindex)
    also have "\<dots> \<le> (\<Sum>v \<in> Some ` A \<union> set (fd_table s i). count (mset (fd_table s i)) v)"
      by (rule sum_mono2) (use assms(2) in auto)
    also have "\<dots> = (\<Sum>v \<in> set (fd_table s i). count (mset (fd_table s i)) v)"
      by (rule sum.mono_neutral_right) (use assms(2) in \<open>auto simp: count_eq_zero_iff\<close>)
    also have "\<dots> = length (fd_table s i)" using size_multiset_overloaded_eq [of "mset (fd_table s i)"] by simp
    finally show ?thesis using assms(1) that by (simp add: shape_ok_def)
  qed
  then have "(\<Sum>i<PROC_MAX. \<Sum>a\<in>A. count (mset (fd_table s i)) (Some a)) \<le> (\<Sum>i<PROC_MAX. FD_MAX)"
    by (intro sum_mono) simp
  then show ?thesis unfolding holders_def by (subst sum.swap) simp
qed

lemma live_files_le:
  assumes "refs_exact s"
  shows "card (dom (vf_file (kp_vf s))) \<le> PROC_MAX * FD_MAX"
proof -
  let ?A = "dom (vf_file (kp_vf s))"
  have f: "finite ?A" and sh: "shape_ok s" and ok: "files_ok (kp_vf s)" and r: "refs_of (kp_vf s) = holders s"
    using assms by (simp_all add: refs_exact_def files_ok_def)
  have "card ?A = (\<Sum>a\<in>?A. 1)" by simp
  also have "\<dots> \<le> (\<Sum>a\<in>?A. holders s a)"
    by (rule sum_mono) (use refs_of_pos [OF ok] r in \<open>auto simp: Suc_le_eq dom_def\<close>)
  also have "\<dots> \<le> PROC_MAX * FD_MAX" by (rule sum_holders_le [OF sh f])
  finally show ?thesis .
qed

text \<open>Emptying a descriptor and dropping its reference, in either order.\<close>

lemma refs_close:
  assumes "refs_exact s" "i < PROC_MAX" "k < FD_MAX" "fd_table s i ! k = Some f"
  shows "refs_exact (set_fd i k None (file_put f s))"
proof -
  have sh: "shape_ok s" and ok: "files_ok (kp_vf s)" and r: "refs_of (kp_vf s) = holders s"
    using assms(1) by (simp_all add: refs_exact_def)
  have pos: "0 < refs_of (kp_vf s) f" using holders_pos [OF sh assms(2-4)] r by simp
  let ?s = "set_fd i k None s"
  have "holders ?s = (holders s)(f := holders s f - 1)"
  proof
    fix a show "holders ?s a = ((holders s)(f := holders s f - 1)) a"
      using holders_set_fd [OF sh assms(2,3), of None a] assms(4) by (cases "a = f") auto
  qed
  moreover have "holders (set_fd i k None (file_put f s)) = holders ?s"
    by (rule holders_cong) (use sh assms(2) in \<open>simp add: shape_ok_def\<close>)
  ultimately show ?thesis
    using vfs_file_put_ok [OF ok pos] r sh shape_set_fd [of "file_put f s"]
    by (simp add: refs_exact_def shape_ok_def)
qed

lemma close_commute: "file_put f (set_fd i k None s) = set_fd i k None (file_put f s)"
  by (simp add: file_put_def set_fd_def)

lemma refs_host [simp]:
  "refs_exact (s\<lparr>kp_host := h\<rparr>) = refs_exact s" "refs_exact (s\<lparr>kp_tab := t\<rparr>) = refs_exact s"
  "refs_exact (s\<lparr>kp_tab := t, kp_host := h\<rparr>) = refs_exact s"
  by (simp_all add: refs_exact_def shape_ok_def holders_def fun_eq_iff)

lemma refs_set_waiter: "refs_exact s \<Longrightarrow> i < PROC_MAX \<Longrightarrow> refs_exact (set_waiter i w s)"
  by (simp add: refs_exact_def shape_ok_def holders_def fun_eq_iff)

end
