(* ===== verification/Process_Inv.thy ===== *)
theory Process_Inv
  imports Process
begin

text \<open>
  The invariant of the process model and the theorems that rest on it: parents and zombies, reference
  counts of open descriptions, and the absence of lost wakeups in \<^verbatim>\<open>wait4\<close>, with the one exception
  that the code has.
\<close>

section \<open>The loops over descriptors\<close>

text \<open>Two states that differ in descriptors only.\<close>

definition same_procs :: "kproc \<Rightarrow> kproc \<Rightarrow> bool" where
  "same_procs s t \<longleftrightarrow> kp_tab t = kp_tab s \<and> kp_host t = kp_host s \<and> kp_panic t = kp_panic s
     \<and> (\<forall>i < PROC_MAX. ps_waiter (kp_ps t ! i) = ps_waiter (kp_ps s ! i))"

lemma same_procs_refl [simp]: "same_procs s s"
  by (simp add: same_procs_def)

lemma same_procs_trans: "same_procs s t \<Longrightarrow> same_procs t u \<Longrightarrow> same_procs s u"
  by (simp add: same_procs_def)

lemma same_procs_set_fd: "shape_ok s \<Longrightarrow> i < PROC_MAX \<Longrightarrow> same_procs s (set_fd i k v s)"
  by (simp add: same_procs_def shape_ok_def)

lemma refs_shape: "refs_exact s \<Longrightarrow> shape_ok s"
  by (simp add: refs_exact_def)

lemma shape_lens: "shape_ok s \<Longrightarrow> length (kp_ps s) = PROC_MAX" "shape_ok s \<Longrightarrow> i < PROC_MAX \<Longrightarrow> length (fd_table s i) = FD_MAX"
  by (simp_all add: shape_ok_def)

lemma fd_close_slot_run:
  assumes "refs_exact s" "i < PROC_MAX" "k < FD_MAX"
  shows "refs_exact (fd_close_slot i k s)" "same_procs s (fd_close_slot i k s)"
    "fd_table (fd_close_slot i k s) j = (if j = i then (fd_table s i)[k := None] else fd_table s j)"
proof -
  note sh = refs_shape [OF assms(1)]
  show "refs_exact (fd_close_slot i k s)"
    using refs_close [OF assms] assms(1) by (simp add: fd_close_slot_def split: option.split)
  show "same_procs s (fd_close_slot i k s)"
    using shape_lens [OF sh] assms(2) by (auto simp: fd_close_slot_def same_procs_def split: option.split)
  show "fd_table (fd_close_slot i k s) j = (if j = i then (fd_table s i)[k := None] else fd_table s j)"
    using shape_lens(1) [OF sh] assms(2)
    by (auto simp: fd_close_slot_def list_update_same_conv split: option.split) (metis list_update_id)
qed

lemma fd_close_loop:
  assumes "refs_exact s" "i < PROC_MAX" "m \<le> FD_MAX"
  shows "refs_exact (fold (fd_close_slot i) [0..<m] s) \<and> same_procs s (fold (fd_close_slot i) [0..<m] s)
    \<and> (\<forall>k < m. fd_table (fold (fd_close_slot i) [0..<m] s) i ! k = None)
    \<and> (\<forall>j. j \<noteq> i \<longrightarrow> fd_table (fold (fd_close_slot i) [0..<m] s) j = fd_table s j)"
  using assms(3)
proof (induction m)
  case (Suc m)
  let ?t = "fold (fd_close_slot i) [0..<m] s"
  have t: "refs_exact ?t" "same_procs s ?t" "\<forall>k < m. fd_table ?t i ! k = None" "\<forall>j. j \<noteq> i \<longrightarrow> fd_table ?t j = fd_table s j"
    using Suc by simp_all
  have m: "m < FD_MAX" using Suc.prems by simp
  note c = fd_close_slot_run [OF t(1) assms(2) m]
  have "\<forall>k < Suc m. fd_table (fd_close_slot i m ?t) i ! k = None"
    using t(3) c(3) [of i] shape_lens(2) [OF refs_shape [OF t(1)] assms(2)] m by (simp add: less_Suc_eq nth_list_update)
  then show ?case using c(1) c(3) same_procs_trans [OF t(2) c(2)] t(4) by simp
qed (use assms(1) in simp)

lemma fd_table_close_all_run:
  assumes "refs_exact s" "i < PROC_MAX"
  shows "refs_exact (fd_table_close_all i s)" "same_procs s (fd_table_close_all i s)"
    "k < FD_MAX \<Longrightarrow> fd_table (fd_table_close_all i s) i ! k = None"
    "j \<noteq> i \<Longrightarrow> fd_table (fd_table_close_all i s) j = fd_table s j"
  using fd_close_loop [OF assms order_refl] unfolding fd_table_close_all_def by blast+

lemma refs_share:
  assumes "refs_exact s" "i < PROC_MAX" "k < FD_MAX" "fd_table s i ! k = None" "0 < refs_of (kp_vf s) f"
  shows "refs_exact ((set_fd i k (Some f) s)\<lparr>kp_vf := vfs_file_ref f (kp_vf s)\<rparr>)"
proof -
  note sh = refs_shape [OF assms(1)]
  have ok: "files_ok (kp_vf s)" and r: "refs_of (kp_vf s) = holders s" using assms(1) by (simp_all add: refs_exact_def)
  have "holders (set_fd i k (Some f) s) = (holders s)(f := holders s f + 1)"
  proof
    fix a show "holders (set_fd i k (Some f) s) a = ((holders s)(f := holders s f + 1)) a"
      using holders_set_fd [OF sh assms(2,3), of "Some f" a] assms(4) by (cases "a = f") auto
  qed
  then show ?thesis
    using vfs_file_ref_ok [OF ok assms(5)] r shape_set_fd [OF sh]
      holders_cong [of "(set_fd i k (Some f) s)\<lparr>kp_vf := vfs_file_ref f (kp_vf s)\<rparr>" "set_fd i k (Some f) s"]
    by (simp add: refs_exact_def shape_ok_def)
qed

lemma fd_share_run:
  assumes "refs_exact s" "pi < PROC_MAX" "ci < PROC_MAX" "pi \<noteq> ci" "k < FD_MAX" "fd_table s ci ! k = None"
  shows "refs_exact (fd_share pi ci k s)" "same_procs s (fd_share pi ci k s)"
    "fd_table (fd_share pi ci k s) j = (if j = ci then (fd_table s ci)[k := fd_table s pi ! k] else fd_table s j)"
proof -
  note sh = refs_shape [OF assms(1)]
  have "0 < refs_of (kp_vf s) f" if "fd_table s pi ! k = Some f" for f
    using holders_pos [OF sh assms(2,5) that] assms(1) by (simp add: refs_exact_def)
  moreover have "set_fd ci k None s = s" using assms(6) list_update_id [of "fd_table s ci" k]
    by (simp add: set_fd_def)
  ultimately show "refs_exact (fd_share pi ci k s)"
    using refs_share [OF assms(1,3,5,6)] assms(1) by (cases "fd_table s pi ! k") (simp_all add: fd_share_def)
  show "same_procs s (fd_share pi ci k s)"
    using shape_lens(1) [OF sh] assms(3) by (auto simp: fd_share_def same_procs_def Let_def split: option.split)
  show "fd_table (fd_share pi ci k s) j = (if j = ci then (fd_table s ci)[k := fd_table s pi ! k] else fd_table s j)"
    using shape_lens(1) [OF sh] assms(3) by (auto simp: fd_share_def Let_def split: option.split)
qed

lemma fd_share_loop:
  assumes "refs_exact s" "pi < PROC_MAX" "ci < PROC_MAX" "pi \<noteq> ci" "\<forall>k < FD_MAX. fd_table s ci ! k = None" "m \<le> FD_MAX"
  shows "refs_exact (fold (fd_share pi ci) [0..<m] s) \<and> same_procs s (fold (fd_share pi ci) [0..<m] s)
    \<and> (\<forall>k < FD_MAX. fd_table (fold (fd_share pi ci) [0..<m] s) ci ! k = (if k < m then fd_table s pi ! k else None))
    \<and> (\<forall>j. j \<noteq> ci \<longrightarrow> fd_table (fold (fd_share pi ci) [0..<m] s) j = fd_table s j)"
  using assms(6)
proof (induction m)
  case (Suc m)
  let ?t = "fold (fd_share pi ci) [0..<m] s"
  have t: "refs_exact ?t" "same_procs s ?t" "\<forall>k < FD_MAX. fd_table ?t ci ! k = (if k < m then fd_table s pi ! k else None)"
    "\<forall>j. j \<noteq> ci \<longrightarrow> fd_table ?t j = fd_table s j"
    using Suc by simp_all
  have m: "m < FD_MAX" using Suc.prems by simp
  have "fd_table ?t ci ! m = None" using t(3) m by simp
  note c = fd_share_run [OF t(1) assms(2-4) m this]
  have "\<forall>k < FD_MAX. fd_table (fd_share pi ci m ?t) ci ! k = (if k < Suc m then fd_table s pi ! k else None)"
    using t(3,4) assms(4) c(3) [of ci] shape_lens(2) [OF refs_shape [OF t(1)] assms(3)]
    by (simp add: less_Suc_eq nth_list_update)
  then show ?case using c(1) c(3) same_procs_trans [OF t(2) c(2)] t(4) by simp
qed (use assms in simp)

section \<open>Parents\<close>

text \<open>
  Every process is younger than its parent, and its parent is alive or is init: a zombie always has
  someone who can reap it.
\<close>

definition parents_ok :: "proc_table \<Rightarrow> bool" where
  "parents_ok pt \<longleftrightarrow> 2 \<le> pt_next_pid pt
     \<and> (\<forall>i. used pt i \<longrightarrow> 0 \<le> pe_ppid (slot pt i) \<and> pe_ppid (slot pt i) < pe_pid (slot pt i)
          \<and> (pe_pid (slot pt i) = PROC_INIT_PID \<or> pe_ppid (slot pt i) = PROC_INIT_PID
              \<or> pid_live pt (pe_ppid (slot pt i))))"

lemma pid_live_iff:
  "proc_inv pt \<Longrightarrow> pid_live pt p \<longleftrightarrow> (\<exists>i < PROC_MAX. pe_pid (slot pt i) = p \<and> pe_state (slot pt i) = PROC_LIVE)"
  by (auto simp: pid_live_def list_ex_length)

lemma pid_liveI: "proc_inv pt \<Longrightarrow> i < PROC_MAX \<Longrightarrow> pe_state (slot pt i) = PROC_LIVE \<Longrightarrow> pid_live pt (pe_pid (slot pt i))"
  unfolding pid_live_iff by blast

lemma pid_liveE:
  assumes "pid_live pt p" "proc_inv pt"
  obtains i where "i < PROC_MAX" "pe_pid (slot pt i) = p" "pe_state (slot pt i) = PROC_LIVE"
  using assms(1) unfolding pid_live_iff [OF assms(2)] by blast

text \<open>The table after each operation, slot by slot.\<close>

definition exit_slots :: "nat \<Rightarrow> int \<Rightarrow> proc_table \<Rightarrow> proc_table \<Rightarrow> bool" where
  "exit_slots i status pt pt' \<longleftrightarrow> pt_next_pid pt' = pt_next_pid pt
     \<and> (\<forall>j < PROC_MAX. slot pt' j = reparent (pe_pid (slot pt i))
          (if j = i then (slot pt i)\<lparr>pe_state := PROC_ZOMBIE, pe_exit_status := status\<rparr> else slot pt j))"

lemma proc_exit_slots:
  assumes "proc_inv pt" "parents_ok pt" "used pt i" "pe_state (slot pt i) = PROC_LIVE"
    "proc_exit (pe_pid (slot pt i)) status pt = (ppid, pt')"
  shows "ppid = pe_ppid (slot pt i)" "exit_slots i status pt pt'" "proc_inv pt'"
proof -
  have "pe_ppid (slot pt i) < pe_pid (slot pt i)" using assms(2,3) by (simp add: parents_ok_def)
  then show "ppid = pe_ppid (slot pt i)" "exit_slots i status pt pt'"
    using assms(1,5) proc_exit_live [OF assms(1,3,4), of status]
    by (auto simp: exit_slots_def reparent_def nth_list_update)
  show "proc_inv pt'" using proc_inv_exit [OF assms(1), of "pe_pid (slot pt i)" status] assms(5) by simp
qed

lemma exit_slotsD:
  assumes "exit_slots i status pt pt'" "j < PROC_MAX"
  shows "pe_pid (slot pt' j) = pe_pid (slot pt j)"
    "pe_state (slot pt' j) = (if j = i then PROC_ZOMBIE else pe_state (slot pt j))"
    "pe_state (slot pt j) \<noteq> PROC_UNUSED \<Longrightarrow> pe_ppid (slot pt' j)
       = (if pe_ppid (slot pt j) = pe_pid (slot pt i) then PROC_INIT_PID else pe_ppid (slot pt j))"
  using assms by (auto simp: exit_slots_def reparent_def)

lemma parents_exit:
  assumes inv: "proc_inv pt" "proc_inv pt'" and par: "parents_ok pt" and i: "used pt i" "pe_state (slot pt i) = PROC_LIVE"
    and ex: "exit_slots i status pt pt'"
  shows "parents_ok pt'"
proof -
  note d = exit_slotsD [OF ex]
  have live: "pid_live pt' p" if "pid_live pt p" "p \<noteq> pe_pid (slot pt i)" for p
    using that d(1,2) unfolding pid_live_iff [OF inv(1)] pid_live_iff [OF inv(2)] by metis
  have pos: "0 < pe_pid (slot pt i)" using proc_inv_pid [OF inv(1) i(1)] by simp
  have "0 \<le> pe_ppid (slot pt' j) \<and> pe_ppid (slot pt' j) < pe_pid (slot pt' j)
      \<and> (pe_pid (slot pt' j) = PROC_INIT_PID \<or> pe_ppid (slot pt' j) = PROC_INIT_PID \<or> pid_live pt' (pe_ppid (slot pt' j)))"
    if j: "used pt' j" for j
  proof -
    have u: "used pt j" using j d(2) [of j] i by (auto split: if_splits)
    then show ?thesis using par live [of "pe_ppid (slot pt j)"] d(1,3) [of j] pos unfolding parents_ok_def by auto
  qed
  moreover have "pt_next_pid pt' = pt_next_pid pt" using ex by (simp add: exit_slots_def)
  ultimately show ?thesis using par unfolding parents_ok_def by simp
qed

definition reap_slots :: "nat \<Rightarrow> proc_table \<Rightarrow> proc_table \<Rightarrow> bool" where
  "reap_slots i pt pt' \<longleftrightarrow> pt_next_pid pt' = pt_next_pid pt
     \<and> (\<forall>j < PROC_MAX. slot pt' j = (if j = i then proc_entry_unused else slot pt j))"

lemma proc_reap_slots:
  assumes "proc_inv pt" "used pt i" "pe_state (slot pt i) = PROC_ZOMBIE"
  shows "reap_slots i pt (proc_reap (pe_pid (slot pt i)) pt)" "proc_inv (proc_reap (pe_pid (slot pt i)) pt)"
proof -
  show "proc_inv (proc_reap (pe_pid (slot pt i)) pt)" by (rule proc_inv_reap [OF assms(1)])
  show "reap_slots i pt (proc_reap (pe_pid (slot pt i)) pt)"
    using assms(1) by (simp add: proc_reap_zombie [OF assms] reap_slots_def nth_list_update)
qed

lemma reap_slotsD:
  assumes "reap_slots i pt pt'" "j < PROC_MAX"
  shows "slot pt' j = (if j = i then proc_entry_unused else slot pt j)"
  using assms by (simp add: reap_slots_def)

lemma live_reap:
  assumes "proc_inv pt" "proc_inv pt'" "pe_state (slot pt i) \<noteq> PROC_LIVE" "reap_slots i pt pt'"
  shows "pid_live pt' p = pid_live pt p"
proof
  assume "pid_live pt' p"
  then obtain j where j: "j < PROC_MAX" "pe_pid (slot pt' j) = p" "pe_state (slot pt' j) = PROC_LIVE"
    by (rule pid_liveE [OF _ assms(2)])
  then have "j \<noteq> i" using reap_slotsD [OF assms(4), of j] by (auto simp: proc_entry_unused_def)
  then show "pid_live pt p" using j reap_slotsD [OF assms(4), of j] pid_liveI [OF assms(1), of j] by auto
next
  assume "pid_live pt p"
  then obtain j where j: "j < PROC_MAX" "pe_pid (slot pt j) = p" "pe_state (slot pt j) = PROC_LIVE"
    by (rule pid_liveE [OF _ assms(1)])
  then have "j \<noteq> i" using assms(3) by auto
  then show "pid_live pt' p" using j reap_slotsD [OF assms(4), of j] pid_liveI [OF assms(2), of j] by auto
qed

lemma parents_reap:
  assumes inv: "proc_inv pt" "proc_inv pt'" and par: "parents_ok pt" and i: "used pt i" "pe_state (slot pt i) = PROC_ZOMBIE"
    and rp: "reap_slots i pt pt'"
  shows "parents_ok pt'"
proof -
  have live: "pid_live pt' p = pid_live pt p" for p by (rule live_reap [OF inv _ rp]) (simp add: i(2))
  have "pt_next_pid pt' = pt_next_pid pt" using rp by (simp add: reap_slots_def)
  moreover have "used pt' j \<Longrightarrow> used pt j \<and> slot pt' j = slot pt j" for j
    using reap_slotsD [OF rp, of j] by (cases "j = i") (auto simp: proc_entry_unused_def)
  ultimately show ?thesis using par unfolding parents_ok_def live by metis
qed

definition alloc_slots :: "nat \<Rightarrow> int \<Rightarrow> proc_table \<Rightarrow> proc_table \<Rightarrow> bool" where
  "alloc_slots i ppid pt pt' \<longleftrightarrow> \<not> used pt i \<and> i < PROC_MAX \<and> pt_next_pid pt' = pt_next_pid pt + 1
     \<and> (\<forall>j < PROC_MAX. slot pt' j = (if j = i then \<lparr>pe_pid = pt_next_pid pt, pe_ppid = ppid, pe_state = PROC_LIVE, pe_exit_status = 0\<rparr>
          else slot pt j))"

lemma proc_alloc_slots:
  assumes "proc_inv pt" "pt_next_pid pt < 2 ^ 31 - 1" "proc_alloc ppid pt = (pid, pt')" "pid \<noteq> 0"
  shows "\<exists>i. alloc_slots i ppid pt pt' \<and> proc_inv pt' \<and> pid = pt_next_pid pt"
  by (rule proc_alloc_Some [OF assms])
    (auto simp: alloc_slots_def nth_list_update proc_inv_length [OF assms(1)] intro!: exI)

lemma alloc_slotsD:
  assumes "alloc_slots i ppid pt pt'" "j < PROC_MAX"
  shows "slot pt' j = (if j = i then \<lparr>pe_pid = pt_next_pid pt, pe_ppid = ppid, pe_state = PROC_LIVE, pe_exit_status = 0\<rparr>
      else slot pt j)"
  using assms by (simp add: alloc_slots_def)

lemma live_alloc:
  assumes "proc_inv pt" "proc_inv pt'" "alloc_slots i ppid pt pt'"
  shows "pid_live pt' p \<longleftrightarrow> pid_live pt p \<or> p = pt_next_pid pt"
proof -
  have i: "i < PROC_MAX" "pe_state (slot pt i) = PROC_UNUSED" using assms(3) by (simp_all add: alloc_slots_def)
  show ?thesis
  proof
    assume "pid_live pt' p"
    then obtain j where j: "j < PROC_MAX" "pe_pid (slot pt' j) = p" "pe_state (slot pt' j) = PROC_LIVE"
      by (rule pid_liveE [OF _ assms(2)])
    then show "pid_live pt p \<or> p = pt_next_pid pt"
      using alloc_slotsD [OF assms(3), of j] pid_liveI [OF assms(1), of j] by (cases "j = i") auto
  next
    assume "pid_live pt p \<or> p = pt_next_pid pt"
    then show "pid_live pt' p"
    proof
      assume "pid_live pt p"
      then obtain j where j: "j < PROC_MAX" "pe_pid (slot pt j) = p" "pe_state (slot pt j) = PROC_LIVE"
        by (rule pid_liveE [OF _ assms(1)])
      then have "j \<noteq> i" using i by auto
      then show ?thesis using j alloc_slotsD [OF assms(3), of j] pid_liveI [OF assms(2), of j] by auto
    next
      assume "p = pt_next_pid pt"
      then show ?thesis using alloc_slotsD [OF assms(3) i(1)] pid_liveI [OF assms(2) i(1)] by auto
    qed
  qed
qed

lemma parents_alloc:
  assumes inv: "proc_inv pt" "proc_inv pt'" and par: "parents_ok pt" and al: "alloc_slots i ppid pt pt'" and p: "pid_live pt ppid"
  shows "parents_ok pt'"
proof -
  note live = live_alloc [OF inv al]
  have kk: "0 < ppid" "ppid < pt_next_pid pt"
    using p proc_inv_pid [OF inv(1)] unfolding pid_live_iff [OF inv(1)] by auto
  have np: "pt_next_pid pt' = pt_next_pid pt + 1" using al by (simp add: alloc_slots_def)
  have "0 \<le> pe_ppid (slot pt' j) \<and> pe_ppid (slot pt' j) < pe_pid (slot pt' j)
      \<and> (pe_pid (slot pt' j) = PROC_INIT_PID \<or> pe_ppid (slot pt' j) = PROC_INIT_PID \<or> pid_live pt' (pe_ppid (slot pt' j)))"
    if j: "used pt' j" for j
  proof (cases "j = i")
    case True
    then show ?thesis using j alloc_slotsD [OF al, of j] kk p by (simp add: live)
  next
    case False
    then have "used pt j" "slot pt' j = slot pt j" using j alloc_slotsD [OF al, of j] by auto
    then show ?thesis using par unfolding parents_ok_def live by auto
  qed
  then show ?thesis using par np unfolding parents_ok_def by simp
qed

section \<open>Waiters\<close>

definition child_in :: "proc_table \<Rightarrow> int \<Rightarrow> int \<Rightarrow> proc_state \<Rightarrow> bool" where
  "child_in pt p arg st \<longleftrightarrow> (\<exists>i < PROC_MAX. waits_for p arg (slot pt i) \<and> pe_state (slot pt i) = st)"

text \<open>
  A published waiter is the host of its own, living process, and it is blocked; a blocked host is
  published and waits for a living child. Unless it is init, it has no zombie to collect.
\<close>

definition waiters_ok :: "proc_table \<Rightarrow> (nat \<Rightarrow> int option) \<Rightarrow> (int \<Rightarrow> host) \<Rightarrow> bool" where
  "waiters_ok pt wt host \<longleftrightarrow>
     (\<forall>i < PROC_MAX. \<forall>w. wt i = Some w \<longrightarrow>
        pe_state (slot pt i) = PROC_LIVE \<and> pe_pid (slot pt i) = w \<and> (\<exists>arg. host w = Host_blocked arg))
   \<and> (\<forall>p arg. host p = Host_blocked arg \<longrightarrow>
        (\<exists>i < PROC_MAX. pe_state (slot pt i) = PROC_LIVE \<and> pe_pid (slot pt i) = p \<and> wt i = Some p)
        \<and> child_in pt p arg PROC_LIVE \<and> (p \<noteq> PROC_INIT_PID \<longrightarrow> \<not> child_in pt p arg PROC_ZOMBIE))"

lemma waiters_published:
  assumes "waiters_ok pt wt host" "i < PROC_MAX" "wt i = Some w"
  shows "pe_state (slot pt i) = PROC_LIVE" "pe_pid (slot pt i) = w" "\<exists>arg. host w = Host_blocked arg"
  using assms unfolding waiters_ok_def by blast+

lemma waiters_blocked:
  assumes "waiters_ok pt wt host" "host p = Host_blocked arg"
  shows "\<exists>i < PROC_MAX. pe_state (slot pt i) = PROC_LIVE \<and> pe_pid (slot pt i) = p \<and> wt i = Some p"
    "child_in pt p arg PROC_LIVE" "p \<noteq> PROC_INIT_PID \<Longrightarrow> \<not> child_in pt p arg PROC_ZOMBIE"
  using assms unfolding waiters_ok_def by blast+

text \<open>A host that is not blocked is not published.\<close>

lemma not_published:
  "waiters_ok pt wt host \<Longrightarrow> i < PROC_MAX \<Longrightarrow> (\<forall>arg. host (pe_pid (slot pt i)) \<noteq> Host_blocked arg) \<Longrightarrow> wt i = None"
  using waiters_published [of pt wt host i] by (cases "wt i") auto

lemma waiters_host:
  assumes "waiters_ok pt wt host" "\<forall>arg. host p \<noteq> Host_blocked arg" "\<forall>arg. h \<noteq> Host_blocked arg"
  shows "waiters_ok pt wt (host(p := h))"
  unfolding waiters_ok_def
proof (intro conjI allI impI)
  fix i w assume i: "i < PROC_MAX" "wt i = Some w"
  note a = waiters_published [OF assms(1) i]
  show "pe_state (slot pt i) = PROC_LIVE" "pe_pid (slot pt i) = w" using a by simp_all
  show "\<exists>arg. (host(p := h)) w = Host_blocked arg" using a(3) assms(2) by auto
next
  fix q arg assume "(host(p := h)) q = Host_blocked arg"
  then have "host q = Host_blocked arg" using assms(3) by (cases "q = p") auto
  note a = waiters_blocked [OF assms(1) this]
  show "\<exists>i < PROC_MAX. pe_state (slot pt i) = PROC_LIVE \<and> pe_pid (slot pt i) = q \<and> wt i = Some q"
    "child_in pt q arg PROC_LIVE" by (fact a)+
  assume "q \<noteq> PROC_INIT_PID"
  then show "\<not> child_in pt q arg PROC_ZOMBIE" by (rule a(3))
qed

text \<open>A change of the table that keeps the living slots and their waiting relations.\<close>

lemma waiters_table:
  assumes "waiters_ok pt wt host"
    and live: "\<And>i. i < PROC_MAX \<Longrightarrow> pe_state (slot pt i) = PROC_LIVE \<Longrightarrow> slot pt' i = slot pt i"
    and zombie: "\<And>i. i < PROC_MAX \<Longrightarrow> pe_state (slot pt' i) = PROC_ZOMBIE \<Longrightarrow> slot pt' i = slot pt i"
  shows "waiters_ok pt' wt host"
  unfolding waiters_ok_def
proof (intro conjI allI impI)
  fix i w assume i: "i < PROC_MAX" "wt i = Some w"
  note a = waiters_published [OF assms(1) i]
  show "pe_state (slot pt' i) = PROC_LIVE" "pe_pid (slot pt' i) = w" "\<exists>arg. host w = Host_blocked arg"
    using a live [OF i(1)] by simp_all
next
  fix q arg assume "host q = Host_blocked arg"
  note a = waiters_blocked [OF assms(1) this]
  show "\<exists>i < PROC_MAX. pe_state (slot pt' i) = PROC_LIVE \<and> pe_pid (slot pt' i) = q \<and> wt i = Some q"
    using a(1) live by metis
  show "child_in pt' q arg PROC_LIVE" using a(2) live unfolding child_in_def by metis
  assume "q \<noteq> PROC_INIT_PID"
  then show "\<not> child_in pt' q arg PROC_ZOMBIE" using a(3) zombie unfolding child_in_def by metis
qed

lemma waiters_alloc: "waiters_ok pt wt host \<Longrightarrow> alloc_slots i ppid pt pt' \<Longrightarrow> waiters_ok pt' wt host"
  by (rule waiters_table, assumption) (auto simp: alloc_slots_def split: if_splits)

lemma waiters_reap:
  "waiters_ok pt wt host \<Longrightarrow> pe_state (slot pt i) = PROC_ZOMBIE \<Longrightarrow> reap_slots i pt pt' \<Longrightarrow> waiters_ok pt' wt host"
  by (rule waiters_table, assumption) (auto simp: reap_slots_def proc_entry_unused_def split: if_splits)

text \<open>
  Exit: the slot \<open>i\<close> of a process that is not blocked becomes a zombie, its children go to init, and the
  parent \<open>q\<close> is no longer blocked afterwards.
\<close>

lemma waiters_exit:
  assumes ok: "waiters_ok pt wt host" and par: "parents_ok pt" and inv: "proc_inv pt"
    and i: "used pt i" "pe_state (slot pt i) = PROC_LIVE"
    and ex: "exit_slots i status pt pt'"
    and nb: "\<forall>arg. host (pe_pid (slot pt i)) \<noteq> Host_blocked arg"
    and host': "\<And>r arg. host' r = Host_blocked arg \<longleftrightarrow> host r = Host_blocked arg \<and> r \<noteq> pe_ppid (slot pt i)"
    and wt': "\<And>k. k < PROC_MAX \<Longrightarrow> wt' k = (if wt k = Some (pe_ppid (slot pt i)) then None else wt k)"
  shows "waiters_ok pt' wt' host'"
  unfolding waiters_ok_def
proof (intro conjI allI impI)
  note d = exit_slotsD [OF ex]
  fix k w assume k: "k < PROC_MAX" "wt' k = Some w"
  then have wk: "wt k = Some w" "w \<noteq> pe_ppid (slot pt i)" using wt' by (auto split: if_splits)
  note a = waiters_published [OF ok k(1) wk(1)]
  have "k \<noteq> i" using a(2,3) nb by auto
  then show "pe_state (slot pt' k) = PROC_LIVE" "pe_pid (slot pt' k) = w" using d(1,2) [OF k(1)] a by simp_all
  show "\<exists>arg. host' w = Host_blocked arg" using a(3) host' wk(2) by simp
next
  note d = exit_slotsD [OF ex]
  fix q arg assume "host' q = Host_blocked arg"
  then have hq: "host q = Host_blocked arg" "q \<noteq> pe_ppid (slot pt i)" using host' by blast+
  note a = waiters_blocked [OF ok hq(1)]
  have qi: "q \<noteq> pe_pid (slot pt i)" using hq(1) nb by auto
  obtain k where k: "k < PROC_MAX" "pe_state (slot pt k) = PROC_LIVE" "pe_pid (slot pt k) = q" "wt k = Some q"
    using a(1) by blast
  moreover have "k \<noteq> i" using k(3) qi by auto
  ultimately show "\<exists>i < PROC_MAX. pe_state (slot pt' i) = PROC_LIVE \<and> pe_pid (slot pt' i) = q \<and> wt' i = Some q"
    using d(1,2) [OF k(1)] wt' [OF k(1)] hq(2) by (intro exI [of _ k]) simp
  obtain c where c: "c < PROC_MAX" "waits_for q arg (slot pt c)" "pe_state (slot pt c) = PROC_LIVE"
    using a(2) unfolding child_in_def by blast
  have "c \<noteq> i" using c(2) hq(2) by (auto simp: waits_for_def)
  then show "child_in pt' q arg PROC_LIVE"
    unfolding child_in_def using c d [OF c(1)] qi by (intro exI [of _ c]) (simp add: waits_for_def)
  assume q1: "q \<noteq> PROC_INIT_PID"
  show "\<not> child_in pt' q arg PROC_ZOMBIE"
  proof
    assume "child_in pt' q arg PROC_ZOMBIE"
    then obtain z where z: "z < PROC_MAX" "waits_for q arg (slot pt' z)" "pe_state (slot pt' z) = PROC_ZOMBIE"
      unfolding child_in_def by blast
    have u: "pe_state (slot pt z) \<noteq> PROC_UNUSED" using d(2) [OF z(1)] z(3) i by (auto split: if_splits)
    have pp: "pe_ppid (slot pt z) = q" "z \<noteq> i"
      using d(3) [OF z(1) u] z(2) q1 hq(2) by (auto simp: waits_for_def split: if_splits)
    have "child_in pt q arg PROC_ZOMBIE"
      unfolding child_in_def using z d(1,2) [OF z(1)] pp u by (intro exI [of _ z]) (simp add: waits_for_def)
    then show False using a(3) q1 by blast
  qed
qed

section \<open>The invariant\<close>

definition closed :: "kproc \<Rightarrow> bool" where
  "closed s \<longleftrightarrow> (\<forall>i < PROC_MAX. pe_state (slot (kp_tab s) i) \<noteq> PROC_LIVE \<longrightarrow> (\<forall>k < FD_MAX. fd_table s i ! k = None))"

definition waiter_of :: "kproc \<Rightarrow> nat \<Rightarrow> int option" where
  "waiter_of s i = ps_waiter (kp_ps s ! i)"

definition kinv :: "kproc \<Rightarrow> bool" where
  "kinv s \<longleftrightarrow> proc_inv (kp_tab s) \<and> parents_ok (kp_tab s) \<and> refs_exact s \<and> closed s
     \<and> waiters_ok (kp_tab s) (waiter_of s) (kp_host s) \<and> \<not> kp_panic s"

lemma kinvD:
  assumes "kinv s"
  shows "proc_inv (kp_tab s)" "parents_ok (kp_tab s)" "refs_exact s" "closed s"
    "waiters_ok (kp_tab s) (waiter_of s) (kp_host s)" "\<not> kp_panic s"
  using assms by (simp_all add: kinv_def)

lemma waiters_cong:
  "(\<And>i. i < PROC_MAX \<Longrightarrow> wt i = wt' i) \<Longrightarrow> waiters_ok pt wt host = waiters_ok pt wt' host"
  by (simp add: waiters_ok_def cong: conj_cong)

text \<open>Descriptors of living processes may change freely, as long as the counts are right.\<close>

lemma kinv_descriptors:
  assumes "kinv s" "same_procs s t" "refs_exact t" "closed t"
  shows "kinv t"
proof -
  have "waiters_ok (kp_tab t) (waiter_of t) (kp_host t) = waiters_ok (kp_tab s) (waiter_of s) (kp_host s)"
    using assms(2) waiters_cong [of "waiter_of t" "waiter_of s"] by (simp add: same_procs_def waiter_of_def)
  then show ?thesis using assms by (simp add: kinv_def same_procs_def)
qed

lemma kinv_host:
  assumes "kinv s" "\<forall>arg. kp_host s p \<noteq> Host_blocked arg" "\<forall>arg. h \<noteq> Host_blocked arg"
  shows "kinv (s\<lparr>kp_host := (kp_host s)(p := h)\<rparr>)"
  using kinvD [OF assms(1)] waiters_host [OF kinvD(5) [OF assms(1)] assms(2,3)]
  by (simp add: kinv_def closed_def waiter_of_def [abs_def])

lemma live_slot:
  assumes "kinv s" "pid_live (kp_tab s) p"
  obtains i where "i < PROC_MAX" "pstate_of p s = Some i" "pe_pid (slot (kp_tab s) i) = p" "pe_state (slot (kp_tab s) i) = PROC_LIVE"
proof -
  note inv = kinvD(1) [OF assms(1)]
  obtain i where i: "i < PROC_MAX" "pe_pid (slot (kp_tab s) i) = p" "pe_state (slot (kp_tab s) i) = PROC_LIVE"
    by (rule pid_liveE [OF assms(2) inv])
  then have "pstate_of p s = Some i" using proc_find_used [OF inv, of i] by (simp add: pstate_of_def)
  then show ?thesis using that i by blast
qed

lemma closed_set_fd:
  assumes "closed s" "shape_ok s" "i < PROC_MAX" "pe_state (slot (kp_tab s) i) = PROC_LIVE"
  shows "closed (set_fd i k v s)"
  using assms by (auto simp: closed_def shape_ok_def)

lemma kinv_close:
  assumes "kinv s" "pid_live (kp_tab s) p"
  shows "kinv (snd (process_fd_close p fd s))"
proof -
  obtain i where i: "i < PROC_MAX" "pstate_of p s = Some i" "pe_state (slot (kp_tab s) i) = PROC_LIVE"
    by (rule live_slot [OF assms]) (rule that)
  note sh = refs_shape [OF kinvD(3) [OF assms(1)]]
  show ?thesis
  proof (cases "process_file_get p fd s")
    case None
    then show ?thesis using assms(1) by (simp add: process_fd_close_def)
  next
    case (Some f)
    then have k: "nat fd < FD_MAX" "fd_table s i ! nat fd = Some f"
      using i by (auto simp: process_file_get_def split: if_splits)
    let ?t = "set_fd i (nat fd) None (file_put f s)"
    have t: "snd (process_fd_close p fd s) = ?t" using Some i by (simp add: process_fd_close_def close_commute)
    have "same_procs s ?t" using shape_lens(1) [OF sh] i(1) by (simp add: same_procs_def)
    moreover have "refs_exact ?t" by (rule refs_close [OF kinvD(3) [OF assms(1)] i(1) k])
    moreover have "closed ?t"
      by (rule closed_set_fd) (use kinvD(4) [OF assms(1)] sh i in \<open>simp_all add: closed_def shape_ok_def\<close>)
    ultimately show ?thesis unfolding t by (rule kinv_descriptors [OF assms(1)])
  qed
qed

lemma kinv_open:
  assumes "kinv s" "pid_live (kp_tab s) p" "vf_file (kp_vf s) a = None" "ops = GFS_FILE_OPS \<or> ops = GFS_DIR_OPS"
  shows "kinv (snd (sys_open_install p (Some a) ops node flags s))"
proof -
  obtain i where i: "i < PROC_MAX" "pstate_of p s = Some i" "pe_state (slot (kp_tab s) i) = PROC_LIVE"
    by (rule live_slot [OF assms(1,2)]) (rule that)
  note rx = kinvD(3) [OF assms(1)]
  note sh = refs_shape [OF rx]
  have vf: "files_ok (kp_vf s)" "refs_of (kp_vf s) = holders s" using rx by (simp_all add: refs_exact_def)
  obtain r vf' where run: "gfs_open_file (Some a) ops node flags (kp_vf s) = (r, vf')" by fastforce
  have room: "card (dom (vf_file (kp_vf s))) + 1 < 2 ^ 32" using live_files_le [OF rx] by simp
  note o = gfs_open_file_ok [OF vf(1) assms(3) room assms(4) run]
  have a0: "holders s a = 0" using vf assms(3) by (metis refs_of_pos not_gr_zero)
  let ?s = "s\<lparr>kp_vf := vf'\<rparr>"
  have ps: "pstate_of p ?s = Some i" using i by (simp add: pstate_of_def)
  show ?thesis
  proof (cases "List.find (\<lambda>k. fd_table s i ! k = None) [0..<FD_MAX]")
    case None
    have put: "files_ok (vfs_file_put a vf')" "refs_of (vfs_file_put a vf') = holders s"
      using vfs_file_put_ok [OF o(2), of a] o(3) vf(2) a0 by auto
    have t: "snd (sys_open_install p (Some a) ops node flags s) = s\<lparr>kp_vf := vfs_file_put a vf'\<rparr>"
      using None run o(1) ps by (simp add: sys_open_install_def process_fd_install_def file_put_def)
    show ?thesis unfolding t
      by (rule kinv_descriptors [OF assms(1)])
        (use put sh kinvD(4) [OF assms(1)] holders_cong [of "s\<lparr>kp_vf := vfs_file_put a vf'\<rparr>" s] in
          \<open>simp_all add: same_procs_def refs_exact_def shape_ok_def closed_def\<close>)
  next
    case (Some k)
    then have k: "k < FD_MAX" "fd_table s i ! k = None" by (auto simp: find_Some_iff)
    let ?t = "set_fd i k (Some a) ?s"
    have t: "snd (sys_open_install p (Some a) ops node flags s) = ?t"
      using Some run o(1) ps by (simp add: sys_open_install_def process_fd_install_def)
    have sh': "shape_ok ?s" using sh by (simp add: shape_ok_def)
    have "holders ?t = (holders s)(a := 1)"
    proof
      fix b show "holders ?t b = ((holders s)(a := 1)) b"
        using holders_set_fd [OF sh' i(1) k(1), of "Some a" b] k(2) a0 holders_cong [of ?s s] by (cases "b = a") auto
    qed
    then have "refs_exact ?t" using o vf(2) shape_set_fd [OF sh'] by (simp add: refs_exact_def)
    moreover have "same_procs s ?t" using shape_lens(1) [OF sh] i(1) by (simp add: same_procs_def)
    moreover have "closed ?t" by (rule closed_set_fd) (use kinvD(4) [OF assms(1)] sh' i in \<open>simp_all add: closed_def\<close>)
    ultimately show ?thesis unfolding t by (intro kinv_descriptors [OF assms(1)])
  qed
qed

lemma kinv_wait:
  assumes "kinv s" "kp_host s p = Host_user"
  shows "kinv (snd (process_wait4 p arg opts ru s))"
  using assms kinv_host [OF assms(1), of p "Host_wait arg"] by (simp add: process_wait4_def)

lemma kinv_table:
  assumes "kinv s" "proc_inv pt'" "parents_ok pt'" "waiters_ok pt' (waiter_of s) (kp_host s)"
    "\<And>i. i < PROC_MAX \<Longrightarrow> pe_state (slot pt' i) \<noteq> PROC_LIVE \<Longrightarrow> pe_state (slot (kp_tab s) i) \<noteq> PROC_LIVE"
  shows "kinv (s\<lparr>kp_tab := pt'\<rparr>)"
  using assms by (simp add: kinv_def closed_def waiter_of_def [abs_def])

lemma kinv_reap:
  assumes "kinv s" "used (kp_tab s) i" "pe_state (slot (kp_tab s) i) = PROC_ZOMBIE"
  shows "kinv (s\<lparr>kp_tab := proc_reap (pe_pid (slot (kp_tab s) i)) (kp_tab s)\<rparr>)"
proof -
  note k = kinvD [OF assms(1)]
  note r = proc_reap_slots [OF k(1) assms(2,3)]
  show ?thesis
    by (rule kinv_table [OF assms(1) r(2)])
      (use parents_reap [OF k(1) r(2) k(2) assms(2,3) r(1)] waiters_reap [OF k(5) assms(3) r(1)] reap_slotsD [OF r(1)] assms(3)
        in \<open>auto split: if_splits\<close>)
qed

lemma kinv_wait_pass:
  assumes "kinv s" "pid_live (kp_tab s) p" "kp_host s p = Host_wait arg"
  shows "kinv (snd (process_wait4_pass p arg uw s))"
proof -
  note k = kinvD [OF assms(1)]
  have nb: "\<forall>a. kp_host s p \<noteq> Host_blocked a" using assms(3) by simp
  from k(1) show ?thesis
  proof (cases rule: proc_wait_find_cases [where ppid = p and pid_arg = arg])
    case nochild
    then show ?thesis using kinv_host [OF assms(1) nb, of Host_user] by (simp add: process_wait4_pass_def)
  next
    case (zombie i)
    have "kinv (s\<lparr>kp_tab := proc_reap (pe_pid (slot (kp_tab s) i)) (kp_tab s)\<rparr>)"
      by (rule kinv_reap [OF assms(1) zombie(1,3)])
    from kinv_host [OF this, of p Host_user] show ?thesis
      using zombie(4,5) nb by (simp add: process_wait4_pass_def Let_def)
  next
    case block
    obtain i where i: "i < PROC_MAX" "pstate_of p s = Some i" "pe_pid (slot (kp_tab s) i) = p"
      "pe_state (slot (kp_tab s) i) = PROC_LIVE" by (rule live_slot [OF assms(1,2)]) (rule that)
    have w: "waiter_of s i = None" by (rule not_published [OF k(5) i(1)]) (use nb i(3) in simp)
    let ?t = "(set_waiter i (Some p) s)\<lparr>kp_host := (kp_host s)(p := Host_blocked arg)\<rparr>"
    have t: "snd (process_wait4_pass p arg uw s) = ?t"
      using block(1) i(2) w by (simp add: process_wait4_pass_def waiter_of_def)
    have len: "length (kp_ps s) = PROC_MAX" using shape_lens(1) [OF refs_shape [OF k(3)]] .
    have wt: "waiter_of ?t j = (if j = i then Some p else waiter_of s j)" for j using len i(1) by (simp add: waiter_of_def)
    have kids: "child_in (kp_tab s) p arg PROC_LIVE" "\<not> child_in (kp_tab s) p arg PROC_ZOMBIE"
    proof -
      have all: "pe_state (slot (kp_tab s) j) = PROC_LIVE" if "j < PROC_MAX" "waits_for p arg (slot (kp_tab s) j)" for j
        using block(3) nth_mem [of j "pt_procs (kp_tab s)"] proc_inv_length [OF k(1)] that by auto
      obtain e where "e \<in> set (pt_procs (kp_tab s))" "waits_for p arg e" using block(2) by blast
      then obtain j where "j < PROC_MAX" "waits_for p arg (slot (kp_tab s) j)"
        using proc_inv_length [OF k(1)] by (auto simp: in_set_conv_nth)
      then show "child_in (kp_tab s) p arg PROC_LIVE" using all unfolding child_in_def by blast
      show "\<not> child_in (kp_tab s) p arg PROC_ZOMBIE" using all unfolding child_in_def by fastforce
    qed
    have "waiters_ok (kp_tab s) (waiter_of ?t) (kp_host ?t)"
      unfolding waiters_ok_def
    proof (intro conjI allI impI)
      fix j w assume j: "j < PROC_MAX" "waiter_of ?t j = Some w"
      have "j \<noteq> i \<Longrightarrow> waiter_of s j = Some w" using j(2) wt by (simp split: if_splits)
      note a = waiters_published [OF k(5) j(1) this]
      show "pe_state (slot (kp_tab s) j) = PROC_LIVE" "pe_pid (slot (kp_tab s) j) = w" "\<exists>a. kp_host ?t w = Host_blocked a"
        using a i j(2) wt by (cases "j = i"; simp)+
    next
      fix q a assume q: "kp_host ?t q = Host_blocked a"
      have o: "q \<noteq> p \<Longrightarrow> kp_host s q = Host_blocked a" using q by simp
      note b = waiters_blocked [OF k(5) o]
      show "\<exists>j < PROC_MAX. pe_state (slot (kp_tab s) j) = PROC_LIVE \<and> pe_pid (slot (kp_tab s) j) = q \<and> waiter_of ?t j = Some q"
      proof (cases "q = p")
        case True
        then show ?thesis using i wt by (intro exI [of _ i]) simp
      next
        case False
        then show ?thesis using b(1) wt i(3) by metis
      qed
      show "child_in (kp_tab s) q a PROC_LIVE" using b(2) kids q by (cases "q = p") auto
      assume "q \<noteq> PROC_INIT_PID"
      then show "\<not> child_in (kp_tab s) q a PROC_ZOMBIE" using b(3) kids q by (cases "q = p") auto
    qed
    then show ?thesis
      unfolding t using k refs_set_waiter [OF k(3) i(1), of "Some p"] len i(1)
      by (simp add: kinv_def closed_def)
  qed
qed

lemma kinv_die:
  assumes "kinv s" "pid_live (kp_tab s) p" "kp_host s p = Host_user"
  shows "kinv (proc_die p wstatus s)"
proof -
  obtain i where i: "i < PROC_MAX" "pstate_of p s = Some i" "pe_pid (slot (kp_tab s) i) = p"
    "pe_state (slot (kp_tab s) i) = PROC_LIVE" by (rule live_slot [OF assms(1,2)]) (rule that)
  note k = kinvD [OF assms(1)]
  let ?c = "fd_table_close_all i s"
  note c = fd_table_close_all_run [OF k(3) i(1)]
  have same: "kp_tab ?c = kp_tab s" "kp_host ?c = kp_host s" "kp_panic ?c = kp_panic s"
    "\<And>j. j < PROC_MAX \<Longrightarrow> waiter_of ?c j = waiter_of s j"
    using c(2) by (simp_all add: same_procs_def waiter_of_def)
  have u: "used (kp_tab s) i" using i by simp
  obtain q pt where ex: "proc_exit p wstatus (kp_tab s) = (q, pt)" by fastforce
  note e = proc_exit_slots [OF k(1,2) u i(4), unfolded i(3), OF ex]
  note d = exit_slotsD [OF e(2)]
  have par: "parents_ok pt" by (rule parents_exit [OF k(1) e(3) k(2) u i(4) e(2)])
  let ?s = "?c\<lparr>kp_tab := pt\<rparr>"
  have len: "length (kp_ps ?s) = PROC_MAX" using shape_lens(1) [OF refs_shape [OF c(1)]] by simp
  have cl: "closed ?s"
    unfolding closed_def
  proof (intro allI impI)
    fix j l assume j: "j < PROC_MAX" "pe_state (slot (kp_tab ?s) j) \<noteq> PROC_LIVE" "l < FD_MAX"
    show "fd_table ?s j ! l = None"
      using c(3,4) j d(2) [OF j(1)] k(4) by (cases "j = i") (auto simp: closed_def)
  qed
  have q: "q = pe_ppid (slot (kp_tab s) i)" by (rule e(1))
  have qp: "q < p" using k(2) u i(3) q unfolding parents_ok_def by metis
  have goal: "kinv (t\<lparr>kp_host := (kp_host t)(p := Host_none)\<rparr>)"
    if t: "kp_tab t = pt" "refs_exact t" "closed t" "\<not> kp_panic t"
      "\<And>r a. r \<noteq> p \<Longrightarrow> kp_host t r = Host_blocked a \<longleftrightarrow> kp_host s r = Host_blocked a \<and> r \<noteq> q"
      "\<And>j. j < PROC_MAX \<Longrightarrow> waiter_of t j = (if waiter_of s j = Some q then None else waiter_of s j)" for t
  proof -
    have "waiters_ok pt (waiter_of t) ((kp_host t)(p := Host_none))"
      by (rule waiters_exit [OF k(5,2,1) u i(4) e(2)]) (use t(5,6) assms(3) i(3) q in auto)
    then show ?thesis using t e(3) par by (simp add: kinv_def closed_def waiter_of_def [abs_def])
  qed
  have nq: "kp_host s q \<noteq> Host_blocked a \<and> (\<forall>j < PROC_MAX. waiter_of s j \<noteq> Some q)"
    if "\<not> (\<exists>j < PROC_MAX. pe_state (slot pt j) = PROC_LIVE \<and> pe_pid (slot pt j) = q \<and> waiter_of s j = Some q)" for a
  proof -
    have "\<not> (\<exists>j < PROC_MAX. pe_state (slot (kp_tab s) j) = PROC_LIVE \<and> pe_pid (slot (kp_tab s) j) = q \<and> waiter_of s j = Some q)"
      using that d(1,2) i(3) qp by (metis less_irrefl)
    then show ?thesis using waiters_blocked(1) [OF k(5), of q a] waiters_published [OF k(5), of _ q] by metis
  qed
  show ?thesis
  proof (cases "\<exists>j < PROC_MAX. pe_state (slot pt j) = PROC_LIVE \<and> pe_pid (slot pt j) = q \<and> waiter_of s j = Some q")
    case True
    then obtain j where j: "j < PROC_MAX" "pe_state (slot pt j) = PROC_LIVE" "pe_pid (slot pt j) = q" "waiter_of s j = Some q" by blast
    obtain a where a: "kp_host s q = Host_blocked a" using waiters_published(3) [OF k(5) j(1,4)] by blast
    have pf: "proc_find q pt = Some j" "0 < q" using proc_find_used [OF e(3), of j] proc_inv_pid [OF e(3), of j] j by auto
    have one: "waiter_of s l = Some q \<longleftrightarrow> l = j" if "l < PROC_MAX" for l
      using waiters_published(1,2) [OF k(5) that] waiters_published(1,2) [OF k(5) j(1,4)] j(1,4) that
        proc_inv_inj [OF k(1), of l j] by auto
    let ?t = "(set_waiter j None ?s)\<lparr>kp_host := (kp_host s)(q := Host_wait a)\<rparr>"
    have "proc_die p wstatus s = ?t\<lparr>kp_host := (kp_host ?t)(p := Host_none)\<rparr>"
      using i(2) same ex pf j(1,2,4) a by (simp add: proc_die_def sched_wake_host_def waiter_of_def)
    moreover have "kinv (?t\<lparr>kp_host := (kp_host ?t)(p := Host_none)\<rparr>)"
      by (rule goal) (use refs_set_waiter [of ?s j None] c(1) cl len j(1) k(6) same one in
        \<open>simp_all add: closed_def waiter_of_def [of ?t] waiter_of_def [of ?c]\<close>)
    ultimately show ?thesis by simp
  next
    case False
    note n = nq [OF False]
    have "proc_die p wstatus s = ?s\<lparr>kp_host := (kp_host ?s)(p := Host_none)\<rparr>"
    proof (cases "proc_find q pt")
      case None
      then show ?thesis using i(2) same ex by (simp add: proc_die_def Let_def)
    next
      case (Some j)
      then have j: "j < PROC_MAX" "pe_pid (slot pt j) = q" using proc_find_Some [OF Some] by auto
      have "pe_state (slot pt j) = PROC_LIVE \<Longrightarrow> waiter_of s j = None"
        using waiters_published(2) [OF k(5) j(1)] d(1) [OF j(1)] j False by (cases "waiter_of s j") auto
      then show ?thesis using i(2) same ex Some j(1) by (simp add: proc_die_def waiter_of_def Let_def)
    qed
    moreover have "kinv (?s\<lparr>kp_host := (kp_host ?s)(p := Host_none)\<rparr>)"
      by (rule goal) (use c(1) cl k(6) same n in \<open>auto simp: waiter_of_def\<close>)
    ultimately show ?thesis by simp
  qed
qed

lemma fork_table:
  assumes "kinv s" "pid_live (kp_tab s) me" "pt_next_pid (kp_tab s) < 2 ^ 31 - 1" "proc_alloc me (kp_tab s) = (pid, pt)" "pid \<noteq> 0"
  obtains ci pi where "alloc_slots ci me (kp_tab s) pt" "proc_inv pt" "parents_ok pt" "pid = pt_next_pid (kp_tab s)"
    "ci < PROC_MAX" "pi < PROC_MAX" "pi \<noteq> ci" "proc_find pid pt = Some ci" "proc_find me pt = Some pi"
    "waiters_ok pt (waiter_of s) (kp_host s)" "\<forall>k < FD_MAX. fd_table s ci ! k = None" "waiter_of s ci = None"
    "\<forall>arg. kp_host s pid \<noteq> Host_blocked arg"
proof -
  note k = kinvD [OF assms(1)]
  obtain ci where al: "alloc_slots ci me (kp_tab s) pt" and inv: "proc_inv pt" and pid: "pid = pt_next_pid (kp_tab s)"
    using proc_alloc_slots [OF k(1) assms(3-5)] by blast
  have ci: "ci < PROC_MAX" "\<not> used (kp_tab s) ci" using al by (simp_all add: alloc_slots_def)
  obtain pi where pi: "pi < PROC_MAX" "pe_pid (slot (kp_tab s) pi) = me" "pe_state (slot (kp_tab s) pi) = PROC_LIVE"
    by (rule pid_liveE [OF assms(2) k(1)])
  have ne: "pi \<noteq> ci" using pi ci by auto
  note d = alloc_slotsD [OF al]
  have f: "proc_find pid pt = Some ci" using proc_find_used [OF inv, of ci] d [OF ci(1)] ci(1) pid by simp
  have g: "proc_find me pt = Some pi" using proc_find_used [OF inv, of pi] d [OF pi(1)] pi ne by simp
  have par: "parents_ok pt" by (rule parents_alloc [OF k(1) inv k(2) al assms(2)])
  have w: "waiter_of s ci = None" using waiters_published(1) [OF k(5) ci(1)] ci by (cases "waiter_of s ci") auto
  have fd: "\<forall>k < FD_MAX. fd_table s ci ! k = None" using k(4) ci by (auto simp: closed_def)
  have nb: "\<forall>arg. kp_host s pid \<noteq> Host_blocked arg"
  proof (intro allI notI)
    fix arg assume "kp_host s pid = Host_blocked arg"
    then obtain j where "j < PROC_MAX" "pe_state (slot (kp_tab s) j) = PROC_LIVE" "pe_pid (slot (kp_tab s) j) = pid"
      using waiters_blocked(1) [OF k(5)] by blast
    then show False using proc_inv_pid [OF k(1), of j] pid by auto
  qed
  show ?thesis by (rule that [OF al inv par pid ci(1) pi(1) ne f g waiters_alloc [OF k(5) al] fd w nb])
qed

text \<open>A fork that fails for lack of memory takes the new process out of the table again.\<close>

lemma fork_undo:
  assumes inv: "proc_inv pt" and par: "parents_ok pt" and wt: "waiters_ok pt wt host"
    and ci: "used pt ci" "pe_state (slot pt ci) = PROC_LIVE" "pe_ppid (slot pt ci) = me"
    and nb: "\<forall>arg. host (pe_pid (slot pt ci)) \<noteq> Host_blocked arg" "\<forall>arg. host me \<noteq> Host_blocked arg"
  shows "\<exists>pt'. proc_reap (pe_pid (slot pt ci)) (snd (proc_exit (pe_pid (slot pt ci)) 0 pt)) = pt' \<and> proc_inv pt' \<and> parents_ok pt'
    \<and> waiters_ok pt' wt host \<and> (\<forall>j < PROC_MAX. pe_state (slot pt' j) = (if j = ci then PROC_UNUSED else pe_state (slot pt j)))"
proof -
  obtain q px where ex: "proc_exit (pe_pid (slot pt ci)) 0 pt = (q, px)" by fastforce
  note e = proc_exit_slots [OF inv par ci(1,2) ex]
  note d = exit_slotsD [OF e(2)]
  have nm: "wt k \<noteq> Some me" if "k < PROC_MAX" for k using waiters_published(3) [OF wt that] nb(2) by auto
  have pp: "parents_ok px" by (rule parents_exit [OF inv e(3) par ci(1,2) e(2)])
  have ww: "waiters_ok px wt host"
    by (rule waiters_exit [OF wt par inv ci(1,2) e(2) nb(1)]) (use nb(2) nm ci(3) in auto)
  have z: "used px ci" "pe_state (slot px ci) = PROC_ZOMBIE" "pe_pid (slot px ci) = pe_pid (slot pt ci)"
    using d(1,2) [of ci] ci(1) by auto
  note r = proc_reap_slots [OF e(3) z(1,2), unfolded z(3)]
  have "\<forall>j < PROC_MAX. pe_state (slot (proc_reap (pe_pid (slot pt ci)) px) j) = (if j = ci then PROC_UNUSED else pe_state (slot pt j))"
    using reap_slotsD [OF r(1)] d(2) by (simp add: proc_entry_unused_def)
  then show ?thesis using parents_reap [OF e(3) r(2) pp z(1,2) r(1)] waiters_reap [OF ww z(2) r(1)] r(2) ex by simp
qed

lemma kinv_fork:
  assumes "kinv s" "pid_live (kp_tab s) me" "kp_host s me = Host_user" "pt_next_pid (kp_tab s) < 2 ^ 31 - 1"
  shows "kinv (snd (process_fork me as_ok s))"
proof -
  note k = kinvD [OF assms(1)]
  obtain pid pt where al: "proc_alloc me (kp_tab s) = (pid, pt)" by fastforce
  show ?thesis
  proof (cases "pid = 0")
    case True
    then have "pt = kp_tab s" using proc_alloc_full [OF k(1)] al by simp
    then show ?thesis using True al assms(1) by (simp add: process_fork_def)
  next
    case False
    obtain ci pi where f: "alloc_slots ci me (kp_tab s) pt" "proc_inv pt" "parents_ok pt" "pid = pt_next_pid (kp_tab s)"
      "ci < PROC_MAX" "pi < PROC_MAX" "pi \<noteq> ci" "proc_find pid pt = Some ci" "proc_find me pt = Some pi"
      "waiters_ok pt (waiter_of s) (kp_host s)" "\<forall>k < FD_MAX. fd_table s ci ! k = None" "waiter_of s ci = None"
      "\<forall>arg. kp_host s pid \<noteq> Host_blocked arg" by (rule fork_table [OF assms(1,2,4) al False]) (rule that)
    note d = alloc_slotsD [OF f(1)]
    have len: "length (kp_ps s) = PROC_MAX" by (rule shape_lens(1) [OF refs_shape [OF k(3)]])
    let ?s = "set_waiter ci None (s\<lparr>kp_tab := pt\<rparr>)"
    have wt: "waiter_of ?s j = waiter_of s j" for j using f(5,12) len by (simp add: waiter_of_def)
    have rx: "refs_exact ?s" by (rule refs_set_waiter) (use k(3) f(5) in simp_all)
    show ?thesis
    proof (cases as_ok)
      case False
      have c: "used pt ci" "pe_state (slot pt ci) = PROC_LIVE" "pe_ppid (slot pt ci) = me" "pe_pid (slot pt ci) = pid"
        using d [OF f(5)] f(4,5) by simp_all
      obtain pt' where u: "proc_reap pid (snd (proc_exit pid 0 pt)) = pt'" "proc_inv pt'" "parents_ok pt'"
        "waiters_ok pt' (waiter_of s) (kp_host s)"
        "\<forall>j < PROC_MAX. pe_state (slot pt' j) = (if j = ci then PROC_UNUSED else pe_state (slot pt j))"
        using fork_undo [OF f(2,3,10) c(1-3)] f(13) assms(3) c(4) by auto
      have "closed (?s\<lparr>kp_tab := pt'\<rparr>)"
        using k(4) u(5) d f(5,11) len by (auto simp: closed_def split: if_splits)
      then show ?thesis
        using False \<open>pid \<noteq> 0\<close> al f(8,9) u rx k(6) wt by (simp add: process_fork_def kinv_def waiter_of_def [abs_def])
    next
      case True
      have "kinv ?s"
        using f(2,3,10) rx k(4,6) wt d f(5) len by (auto simp: kinv_def closed_def waiter_of_def [abs_def])
      moreover note l = fd_share_loop [OF rx f(6,5,7) _ order_refl]
      let ?t = "fold (fd_share pi ci) [0..<FD_MAX] ?s"
      have t: "refs_exact ?t" "same_procs ?s ?t" "\<forall>j. j \<noteq> ci \<longrightarrow> fd_table ?t j = fd_table ?s j"
        using l f(5,11) len by auto
      moreover have "closed ?t"
        unfolding closed_def
      proof (intro allI impI)
        fix j l assume j: "j < PROC_MAX" "pe_state (slot (kp_tab ?t) j) \<noteq> PROC_LIVE" "l < FD_MAX"
        have tab: "kp_tab ?t = pt" using t(2) by (simp add: same_procs_def)
        have "j \<noteq> ci" using j tab d [OF f(5)] by auto
        then show "fd_table ?t j ! l = None" using j tab t(3) d k(4) f(5) len by (auto simp: closed_def)
      qed
      ultimately have "kinv ?t" by (intro kinv_descriptors [of ?s ?t])
      moreover have "\<forall>arg. kp_host ?t pid \<noteq> Host_blocked arg" using t(2) f(13) by (simp add: same_procs_def)
      ultimately show ?thesis
        using kinv_host [of ?t pid Host_user] True \<open>pid \<noteq> 0\<close> al f(8,9) by (simp add: process_fork_def Let_def)
    qed
  qed
qed

lemma kstep_kinv: "kstep s t \<Longrightarrow> kinv s \<Longrightarrow> kinv t"
  by (induction rule: kstep.induct)
    (simp_all add: kinv_open kinv_close kinv_fork kinv_die kinv_wait kinv_wait_pass process_exit_def process_kill_def)

section \<open>Histories\<close>

lemma init_table: "proc_alloc 0 proc_table_init = (1, kp_tab (init_state con))"
  by (simp add: init_state_def Let_def) code_simp

lemma init_slots: "alloc_slots 0 0 proc_table_init (kp_tab (init_state con))" "proc_inv (kp_tab (init_state con))"
proof -
  have n: "pt_next_pid proc_table_init < 2 ^ 31 - 1" by (simp add: proc_table_init_def)
  obtain i where i: "alloc_slots i 0 proc_table_init (kp_tab (init_state con))" "proc_inv (kp_tab (init_state con))"
    using proc_alloc_slots [OF proc_inv_init n init_table] by auto
  have "pe_state (slot (kp_tab (init_state con)) 0) = PROC_LIVE" by (simp add: init_state_def Let_def) code_simp
  then have "i = 0" using alloc_slotsD [OF i(1), of 0] by (auto simp: proc_table_init_def proc_entry_unused_def split: if_splits)
  then show "alloc_slots 0 0 proc_table_init (kp_tab (init_state con))" "proc_inv (kp_tab (init_state con))" using i by simp_all
qed

lemma init_slot: "j < PROC_MAX \<Longrightarrow> slot (kp_tab (init_state con)) j
   = (if j = 0 then \<lparr>pe_pid = 1, pe_ppid = 0, pe_state = PROC_LIVE, pe_exit_status = 0\<rparr> else proc_entry_unused)"
  using alloc_slotsD [OF init_slots(1), of j con] by (simp add: proc_table_init_def)

lemma init_fds: "j < PROC_MAX \<Longrightarrow> fd_table (init_state con) j
   = (if j = 0 then Some con # Some con # Some con # replicate 13 None else replicate 16 None)"
proof -
  assume j: "j < PROC_MAX"
  have r: "(replicate 16 None)[0 := Some con, 1 := Some con, 2 := Some con] = Some con # Some con # Some con # replicate 13 None"
    by (simp add: eval_nat_numeral)
  show ?thesis using j r by (simp add: init_state_def Let_def set_fd_def nth_list_update)
qed

lemma init_refs: "refs_of (kp_vf (init_state con)) a = (if a = con then 3 else 0)" "files_ok (kp_vf (init_state con))"
proof -
  let ?e = "\<lparr>vf_file = (\<lambda>_. None), vf_opens = (\<lambda>_. 0), vf_released = [], vf_panic = False\<rparr>"
  let ?f = "snd (file_alloc (Some con) CON_OPS 2 2 ?e)"
  have e: "files_ok ?e" "vf_file ?e con = None" by (simp_all add: files_ok_def open_files_def)
  have f: "files_ok ?f" "refs_of ?f = (refs_of ?e)(con := 1)"
    using file_alloc_other_ok(2,3) [OF e surjective_pairing] by simp_all
  have g: "files_ok (vfs_file_ref con ?f)" "refs_of (vfs_file_ref con ?f) = (refs_of ?f)(con := 2)"
    using vfs_file_ref_ok [OF f(1), of con] f(2) by (simp_all add: numeral_2_eq_2)
  have h: "files_ok (vfs_file_ref con (vfs_file_ref con ?f))" "refs_of (vfs_file_ref con (vfs_file_ref con ?f)) = (refs_of ?e)(con := 3)"
    using vfs_file_ref_ok [OF g(1), of con] g(2) f(2) by (simp_all add: numeral_3_eq_3 numeral_2_eq_2)
  have v: "kp_vf (init_state con) = vfs_file_ref con (vfs_file_ref con ?f)" by (simp add: init_state_def Let_def)
  show "files_ok (kp_vf (init_state con))" using h(1) by (simp add: v)
  show "refs_of (kp_vf (init_state con)) a = (if a = con then 3 else 0)" using h(2) by (simp add: v refs_of_def)
qed

lemma init_holders: "holders (init_state con) a = (if a = con then 3 else 0)"
proof -
  have "holders (init_state con) a = (\<Sum>i<PROC_MAX. if i = 0 then (if a = con then 3 else 0) else 0)"
    unfolding holders_def by (rule sum.cong) (auto simp: init_fds)
  then show ?thesis by (simp add: sum.delta)
qed

lemma init_kinv: "kinv (init_state con)"
proof -
  have ps: "kp_ps (init_state con) ! j = \<lparr>ps_waiter = None, ps_fd = fd_table (init_state con) j\<rparr>" if "j < PROC_MAX" for j
    using that by (simp add: init_state_def Let_def set_fd_def nth_list_update)
  have "shape_ok (init_state con)"
    using init_fds [of _ con] by (simp add: shape_ok_def) (simp add: init_state_def Let_def)
  then have "refs_exact (init_state con)" using init_refs init_holders by (auto simp: refs_exact_def)
  moreover have "parents_ok (kp_tab (init_state con))"
    using init_slot [of _ con] init_slots(1) [of con] by (auto simp: parents_ok_def alloc_slots_def proc_entry_unused_def proc_table_init_def)
  moreover have "closed (init_state con)"
    unfolding closed_def using init_slot [of _ con] init_fds [of _ con] by auto
  moreover have "waiters_ok (kp_tab (init_state con)) (waiter_of (init_state con)) (kp_host (init_state con))"
    using ps by (auto simp: waiters_ok_def waiter_of_def init_state_def Let_def)
  moreover have "\<not> kp_panic (init_state con)" by (simp add: init_state_def Let_def)
  ultimately show ?thesis using init_slots(2) by (simp add: kinv_def)
qed

lemma kreach_kinv: "kreach (init_state con) s \<Longrightarrow> kinv s"
  by (induction rule: rtranclp_induct) (auto intro: init_kinv kstep_kinv)

text \<open>Runs given as lists of calls, to evaluate concrete histories.\<close>

datatype kcall = Fork int | Exit int int | Wait int int | Pass int | Open int nat | Close int int

fun kcall_run :: "kcall \<Rightarrow> kproc \<Rightarrow> kproc option" where
  "kcall_run (Fork p) s = (if pid_live (kp_tab s) p \<and> kp_host s p = Host_user \<and> pt_next_pid (kp_tab s) < 2147483647
     then Some (snd (process_fork p True s)) else None)"
| "kcall_run (Exit p st) s = (if pid_live (kp_tab s) p \<and> kp_host s p = Host_user then Some (process_exit p st s) else None)"
| "kcall_run (Wait p arg) s = (if pid_live (kp_tab s) p \<and> kp_host s p = Host_user then Some (snd (process_wait4 p arg 0 0 s)) else None)"
| "kcall_run (Pass p) s = (if pid_live (kp_tab s) p then case kp_host s p of
     Host_wait arg \<Rightarrow> Some (snd (process_wait4_pass p arg None s)) | _ \<Rightarrow> None else None)"
| "kcall_run (Open p a) s = (if pid_live (kp_tab s) p \<and> kp_host s p = Host_user \<and> vf_file (kp_vf s) a = None
     then Some (snd (sys_open_install p (Some a) GFS_FILE_OPS 5 0 s)) else None)"
| "kcall_run (Close p fd) s = (if pid_live (kp_tab s) p \<and> kp_host s p = Host_user then Some (snd (process_fd_close p fd s)) else None)"

fun kcalls :: "kcall list \<Rightarrow> kproc \<Rightarrow> kproc option" where
  "kcalls [] s = Some s"
| "kcalls (c # cs) s = (case kcall_run c s of None \<Rightarrow> None | Some t \<Rightarrow> kcalls cs t)"

lemma kcall_run_step: "kcall_run c s = Some t \<Longrightarrow> kstep s t"
  by (cases c) (auto intro: kstep.intros split: if_splits host.splits)

lemma kcalls_reach: "kcalls cs s = Some t \<Longrightarrow> kreach s t"
  by (induction cs arbitrary: s) (auto split: option.splits intro: converse_rtranclp_into_rtranclp kcall_run_step)

text \<open>
  C14. The process table of a running system. After any sequence of opens, closes, forks, exits, kills
  and waits by any processes, starting from init: pids are positive, below the next pid and different
  from each other, the process count is right, every process is younger than its parent, and the
  parent of every process but init is alive or is init, so that every zombie has someone to reap it.
  No \<^verbatim>\<open>KASSERT\<close> of the modelled code fails.
\<close>

theorem process_table_invariant:
  assumes "kreach (init_state con) s"
  shows "proc_inv (kp_tab s) \<and> \<not> kp_panic s
    \<and> (\<forall>i < PROC_MAX. pe_state (slot (kp_tab s) i) \<noteq> PROC_UNUSED \<and> pe_pid (slot (kp_tab s) i) \<noteq> PROC_INIT_PID \<longrightarrow>
         pe_ppid (slot (kp_tab s) i) < pe_pid (slot (kp_tab s) i)
         \<and> (pe_ppid (slot (kp_tab s) i) = PROC_INIT_PID \<or> pid_live (kp_tab s) (pe_ppid (slot (kp_tab s) i))))"
  using kinvD [OF kreach_kinv [OF assms]] by (auto simp: parents_ok_def)

definition run_state :: "kcall list \<Rightarrow> kproc" where
  "run_state cs = (case kcalls cs (init_state 100) of Some s \<Rightarrow> s | None \<Rightarrow> init_state 100)"

lemma run_state_reach: "kreach (init_state 100) (run_state cs)"
  unfolding run_state_def by (cases "kcalls cs (init_state 100)") (simp_all add: kcalls_reach)

definition sample_state :: kproc where
  "sample_state = run_state [Fork 1, Fork 2, Fork 3, Exit 4 7, Wait 1 (- 1), Pass 1, Exit 3 0]"

lemma sample_reach: "kreach (init_state 100) sample_state"
  unfolding sample_state_def by (rule run_state_reach)

lemma sample_facts:
  "proc_find 4 (kp_tab sample_state) = Some 3 \<and> slot (kp_tab sample_state) 3
     = \<lparr>pe_pid = 4, pe_ppid = 1, pe_state = PROC_ZOMBIE, pe_exit_status = 1792\<rparr> \<and> kp_host sample_state 1 = Host_blocked (- 1)"
  by code_simp

theorem process_table_invariant_witness:
  "pe_ppid (slot (kp_tab sample_state) 3) = 1 \<and> pe_pid (slot (kp_tab sample_state) 3) = 4 \<and> \<not> kp_panic sample_state"
  using process_table_invariant [OF sample_reach] sample_facts by simp


lemma shared_refs: "map_option f_refs (vf_file (kp_vf (run_state [Open 1 200, Fork 1, Close 1 0])) 100) = Some 5"
  by code_simp


text \<open>
  C16. No lost wakeup in \<^verbatim>\<open>wait4\<close>, for every process but init. A process that is blocked in \<^verbatim>\<open>wait4\<close> has
  a living child it waits for and no zombie child that would satisfy the wait: whenever such a child
  exited, the exit has woken it. It is published as the waiter of its own process, so that the exit
  of the child it waits for will find it.
\<close>

theorem wait4_no_lost_wakeup:
  assumes "kreach (init_state con) s" "kp_host s p = Host_blocked arg" "p \<noteq> PROC_INIT_PID"
  shows "(\<exists>i < PROC_MAX. waits_for p arg (slot (kp_tab s) i) \<and> pe_state (slot (kp_tab s) i) = PROC_LIVE)
    \<and> \<not> (\<exists>i < PROC_MAX. waits_for p arg (slot (kp_tab s) i) \<and> pe_state (slot (kp_tab s) i) = PROC_ZOMBIE)
    \<and> (\<exists>i < PROC_MAX. pe_pid (slot (kp_tab s) i) = p \<and> ps_waiter (kp_ps s ! i) = Some p)"
  using waiters_blocked [OF kinvD(5) [OF kreach_kinv [OF assms(1)]] assms(2)] assms(3)
  unfolding child_in_def waiter_of_def by blast

definition waiting_state :: kproc where
  "waiting_state = run_state [Fork 1, Fork 2, Wait 2 3, Pass 2]"

lemma waiting_facts: "kp_host waiting_state 2 = Host_blocked 3"
  by code_simp

lemma waiting_reach: "kreach (init_state 100) waiting_state"
  unfolding waiting_state_def by (rule run_state_reach)

theorem wait4_no_lost_wakeup_witness:
  "kp_host waiting_state 2 = Host_blocked 3
   \<and> (\<exists>i < PROC_MAX. waits_for 2 3 (slot (kp_tab waiting_state) i) \<and> pe_state (slot (kp_tab waiting_state) i) = PROC_LIVE)"
  using wait4_no_lost_wakeup [OF waiting_reach waiting_facts] waiting_facts by simp

text \<open>
  C17. Init can miss a wakeup. A process that exits hands its children to init, zombies included, but
  only its own parent is woken. In a reachable state init is blocked in \<^verbatim>\<open>wait4(-1)\<close> although it has a
  zombie child, and it stays blocked until some other child of init exits.
\<close>

theorem wait4_init_misses_orphan:
  "\<exists>s. kreach (init_state 100) s \<and> kp_host s 1 = Host_blocked (- 1)
     \<and> (\<exists>i < PROC_MAX. waits_for 1 (- 1) (slot (kp_tab s) i) \<and> pe_state (slot (kp_tab s) i) = PROC_ZOMBIE)"
proof (intro exI conjI)
  show "kreach (init_state 100) sample_state" by (rule sample_reach)
  show "kp_host sample_state 1 = Host_blocked (- 1)" using sample_facts by blast
  show "(3::nat) < PROC_MAX" by simp
  show "waits_for 1 (- 1) (slot (kp_tab sample_state) 3)" "pe_state (slot (kp_tab sample_state) 3) = PROC_ZOMBIE"
    using sample_facts by (simp_all add: waits_for_def)
qed

end
