(* ===== verification/Vfs_Path.thy ===== *)
theory Vfs_Path
  imports Kernel_Prelude Kernel_Errno
begin

text \<open>
  Lexical path normalisation (\<^verbatim>\<open>kernel/fs/vfs_path.c\<close>). The C function works on characters: it skips
  slashes, measures a component and edits the output buffer in place, shortening it character by
  character for \<^verbatim>\<open>..\<close>. The specification works on lists of components with a stack. The theorems say
  that the two agree, limits and errors included, and that the result is canonical.
\<close>

section \<open>The function\<close>

abbreviation (input) VFS_NAME_MAX :: nat where "VFS_NAME_MAX \<equiv> 255"
abbreviation (input) VFS_PATH_MAX :: nat where "VFS_PATH_MAX \<equiv> 256"

abbreviation (input) SLASH :: byte where "SLASH \<equiv> 47"
abbreviation (input) DOT :: byte where "DOT \<equiv> 46"

text \<open>\<^verbatim>\<open>while (olen > 1 && out[olen - 1] != '/') olen--;\<close>\<close>

function pop_chars :: "byte list \<Rightarrow> byte list" where
  "pop_chars out = (if length out > 1 \<and> last out \<noteq> SLASH then pop_chars (butlast out) else out)"
  by pat_completeness auto
termination by (relation "measure length") auto

declare pop_chars.simps [simp del]

definition pop_component :: "byte list \<Rightarrow> byte list" where
  "pop_component out = (let out = pop_chars out in if length out > 1 then butlast out else out)"

text \<open>After a component and the slashes behind it, the rest of the input is shorter.\<close>

lemma next_component_shorter:
  assumes "p \<noteq> []"
  shows "length (dropWhile (\<lambda>c. c = SLASH) (drop (length (takeWhile (\<lambda>c. c \<noteq> SLASH) p)) p)) < length p"
proof -
  obtain c q where p: "p = c # q" using assms by (cases p) auto
  have "length (dropWhile (\<lambda>c. c = SLASH) xs) \<le> length xs" for xs by (rule length_dropWhile_le)
  from this [of q] this [of "drop (length (takeWhile (\<lambda>c. c \<noteq> SLASH) q)) q"]
  show ?thesis unfolding p by (cases "c = SLASH") (simp_all add: less_Suc_eq_le)
qed

text \<open>The main loop; \<open>out\<close> is the part of the buffer below \<^verbatim>\<open>olen\<close>.\<close>

function norm_loop :: "nat \<Rightarrow> byte list \<Rightarrow> byte list \<Rightarrow> int + byte list" where
  "norm_loop cap p out =
     (if p = [] then Inr out
      else let n = length (takeWhile (\<lambda>c. c \<noteq> SLASH) p); p' = dropWhile (\<lambda>c. c = SLASH) (drop n p) in
        if n = 1 \<and> p ! 0 = DOT then norm_loop cap p' out
        else if n = 2 \<and> p ! 0 = DOT \<and> p ! 1 = DOT then norm_loop cap p' (pop_component out)
        else if n > VFS_NAME_MAX then Inl (- ENAMETOOLONG)
        else let sep = (if length out > 1 then 1 else 0) in
          if length out + sep + n + 1 > cap then Inl (- ENAMETOOLONG)
          else norm_loop cap p' ((if sep \<noteq> 0 then out @ [SLASH] else out) @ take n p))"
  by pat_completeness auto
termination
proof (relation "measure (\<lambda>(cap, p, out). length p)", goal_cases)
  case (2 cap p out n p')
  from next_component_shorter [OF this(1)] show ?case by (simp only: in_measure case_prod_conv 2(2,3))
next
  case (3 cap p out n p')
  from next_component_shorter [OF this(1)] show ?case by (simp only: in_measure case_prod_conv 3(2,3))
next
  case (4 cap p out n p')
  from next_component_shorter [OF this(1)] show ?case by (simp only: in_measure case_prod_conv 4(2,3))
qed simp

declare norm_loop.simps [simp del]

definition vfs_path_norm :: "byte list option \<Rightarrow> nat \<Rightarrow> int + byte list" where
  "vfs_path_norm inp cap =
     (case inp of None \<Rightarrow> Inl (- EINVAL)
      | Some p \<Rightarrow>
          if p = [] then Inl (- EINVAL)
          else if cap < 2 then Inl (- ENAMETOOLONG)
          else norm_loop cap (dropWhile (\<lambda>c. c = SLASH) p) [SLASH])"

section \<open>Specification on components\<close>

function components :: "byte list \<Rightarrow> byte list list" where
  "components p = (let p = dropWhile (\<lambda>c. c = SLASH) p in
     if p = [] then [] else takeWhile (\<lambda>c. c \<noteq> SLASH) p # components (dropWhile (\<lambda>c. c \<noteq> SLASH) p))"
  by pat_completeness auto
termination
proof (relation "measure length", goal_cases)
  case (2 p x)
  from 2(2) obtain c q where x: "x = c # q" by (cases x) auto
  then have "dropWhile (\<lambda>c. c = SLASH) p = c # q" using 2(1) by simp
  then have "c \<noteq> SLASH" by (metis (mono_tags, lifting) dropWhile_eq_Cons_conv)
  then have "length (dropWhile (\<lambda>c. c \<noteq> SLASH) x) \<le> length q" by (simp add: x length_dropWhile_le)
  moreover have "length x \<le> length p" unfolding 2(1) by (rule length_dropWhile_le)
  ultimately show ?case by (simp add: x)
qed simp

declare components.simps [simp del]

definition path_of :: "byte list list \<Rightarrow> byte list" where
  "path_of cs = (if cs = [] then [SLASH] else concat (map (\<lambda>c. SLASH # c) cs))"

text \<open>One component of the input, against the stack of the output; \<open>None\<close> is a name that is too long.\<close>

fun push :: "nat \<Rightarrow> byte list list option \<Rightarrow> byte list \<Rightarrow> byte list list option" where
  "push cap None c = None"
| "push cap (Some st) c =
     (if c = [DOT] then Some st
      else if c = [DOT, DOT] then Some (butlast st)
      else if length c > VFS_NAME_MAX \<or> length (path_of (st @ [c])) + 1 > cap then None
      else Some (st @ [c]))"

definition norm_spec :: "byte list \<Rightarrow> nat \<Rightarrow> int + byte list" where
  "norm_spec p cap = (case foldl (push cap) (Some []) (components p) of
     None \<Rightarrow> Inl (- ENAMETOOLONG) | Some st \<Rightarrow> Inr (path_of st))"

section \<open>The stack in the buffer\<close>

definition comp_ok :: "byte list \<Rightarrow> bool" where
  "comp_ok c \<longleftrightarrow> c \<noteq> [] \<and> SLASH \<notin> set c"

lemma path_of_snoc: "path_of (cs @ [c]) = (if cs = [] then [SLASH] @ c else path_of cs @ [SLASH] @ c)"
  by (simp add: path_of_def)

lemma length_path_of: "list_all comp_ok cs \<Longrightarrow> (1 < length (path_of cs)) = (cs \<noteq> [])"
  by (cases cs rule: rev_cases) (auto simp: path_of_snoc comp_ok_def path_of_def neq_Nil_conv)

lemma pop_chars_comp: "SLASH \<notin> set c \<Longrightarrow> pop_chars (q @ [SLASH] @ c) = q @ [SLASH]"
proof (induction c rule: rev_induct)
  case Nil
  then show ?case by (subst pop_chars.simps) simp
next
  case (snoc y ys)
  have "pop_chars (q @ [SLASH] @ ys @ [y]) = pop_chars (q @ [SLASH] @ ys)"
    using snoc.prems by (subst pop_chars.simps) (simp add: butlast_append)
  then show ?case using snoc by simp
qed

lemma pop_component_path:
  assumes "list_all comp_ok st"
  shows "pop_component (path_of st) = path_of (butlast st)"
proof (cases st rule: rev_cases)
  case Nil
  then show ?thesis by (simp add: pop_component_def path_of_def pop_chars.simps)
next
  case (snoc st' c)
  let ?q = "if st' = [] then [] else path_of st'"
  have "SLASH \<notin> set c" using assms snoc by (simp add: comp_ok_def)
  then have "pop_chars (path_of st) = ?q @ [SLASH]"
    using pop_chars_comp [of c ?q] unfolding snoc path_of_snoc by (simp split: if_splits)
  then show ?thesis using snoc by (auto simp: pop_component_def path_of_def)
qed

lemma components_skip [simp]: "components (dropWhile (\<lambda>c. c = SLASH) p) = components p"
proof -
  have d: "dropWhile (\<lambda>c. c = SLASH) (dropWhile (\<lambda>c. c = SLASH) p) = dropWhile (\<lambda>c. c = SLASH) p"
    by (rule dropWhile_idem)
  show ?thesis unfolding components.simps [of p] components.simps [of "dropWhile (\<lambda>c. c = SLASH) p"] d ..
qed

lemma components_Cons:
  assumes "p \<noteq> []" "hd p \<noteq> SLASH"
  shows "components p = takeWhile (\<lambda>c. c \<noteq> SLASH) p # components (dropWhile (\<lambda>c. c = SLASH) (dropWhile (\<lambda>c. c \<noteq> SLASH) p))"
proof -
  have "dropWhile (\<lambda>c. c = SLASH) p = p" using assms by (cases p) auto
  then show ?thesis using assms(1) unfolding components_skip by (subst components.simps) simp
qed

lemma components_ok: "list_all comp_ok (components p)"
proof (induction p rule: components.induct)
  case (1 p)
  let ?q = "dropWhile (\<lambda>c. c = SLASH) p"
  show ?case
  proof (cases "?q = []")
    case True
    then show ?thesis by (simp add: components.simps [of p])
  next
    case False
    then obtain c r where q: "?q = c # r" by (cases ?q) auto
    then have "c \<noteq> SLASH" by (metis (mono_tags, lifting) dropWhile_eq_Cons_conv)
    then have "comp_ok (takeWhile (\<lambda>c. c \<noteq> SLASH) ?q)" unfolding comp_ok_def using set_takeWhileD q by fastforce
    then show ?thesis using 1 [OF refl False] unfolding components.simps [of p] Let_def
      by (simp only: False if_False list.pred_inject simp_thms)
  qed
qed

lemma foldl_push_None [simp]: "foldl (push cap) None cs = None"
  by (induction cs) simp_all

lemma drop_takeWhile: "drop (length (takeWhile P p)) p = dropWhile P p"
  by (rule dropWhile_eq_drop [symmetric])

lemma take_takeWhile: "take (length (takeWhile P p)) p = takeWhile P p"
  by (rule takeWhile_eq_take [symmetric])

lemma norm_loop_eq:
  assumes "p = [] \<or> hd p \<noteq> SLASH" "list_all comp_ok st"
  shows "norm_loop cap p (path_of st) = (case foldl (push cap) (Some st) (components p) of
     None \<Rightarrow> Inl (- ENAMETOOLONG) | Some st \<Rightarrow> Inr (path_of st))"
  using assms
proof (induction "length p" arbitrary: p st rule: less_induct)
  case less
  show ?case
  proof (cases "p = []")
    case True
    then show ?thesis by (simp add: norm_loop.simps components.simps)
  next
    case False
    let ?c = "takeWhile (\<lambda>c. c \<noteq> SLASH) p" and ?n = "length (takeWhile (\<lambda>c. c \<noteq> SLASH) p)"
    let ?p = "dropWhile (\<lambda>c. c = SLASH) (dropWhile (\<lambda>c. c \<noteq> SLASH) p)"
    have hd: "hd p \<noteq> SLASH" using less.prems(1) False by simp
    have c: "components p = ?c # components ?p" by (rule components_Cons [OF False hd])
    have ok: "comp_ok ?c" using components_ok [of p] c by simp
    have shorter: "length ?p < length p" using next_component_shorter [OF False] by (simp add: drop_takeWhile)
    have hd': "?p = [] \<or> hd ?p \<noteq> SLASH" using hd_dropWhile [of "\<lambda>c. c = SLASH" "dropWhile (\<lambda>c. c \<noteq> SLASH) p"] by blast
    note IH = less.hyps [OF shorter hd']
    have nth: "k < ?n \<Longrightarrow> p ! k = ?c ! k" for k by (simp add: takeWhile_nth)
    have dot: "(?n = 1 \<and> p ! 0 = DOT) = (?c = [DOT])"
      using nth [of 0] by (cases ?c; cases "tl ?c") auto
    have dots: "(?n = 2 \<and> p ! 0 = DOT \<and> p ! 1 = DOT) = (?c = [DOT, DOT])"
      using nth [of 0] nth [of 1] by (cases ?c; cases "tl ?c"; cases "tl (tl ?c)") auto
    have loop: "norm_loop cap p (path_of st) =
       (if ?c = [DOT] then norm_loop cap ?p (path_of st)
        else if ?c = [DOT, DOT] then norm_loop cap ?p (path_of (butlast st))
        else if ?n > VFS_NAME_MAX \<or> length (path_of (st @ [?c])) + 1 > cap then Inl (- ENAMETOOLONG)
        else norm_loop cap ?p (path_of (st @ [?c])))"
      unfolding norm_loop.simps [of cap p] Let_def dot dots drop_takeWhile take_takeWhile pop_component_path [OF less.prems(2)]
      using False length_path_of [OF less.prems(2)] by (auto simp: path_of_snoc path_of_def)
    have bl: "list_all comp_ok (butlast st)" using less.prems(2) by (auto simp: list_all_iff dest: in_set_butlastD)
    show ?thesis unfolding loop c foldl_Cons push.simps using IH [OF less.prems(2)] IH [OF bl] IH [of "st @ [?c]"] ok less.prems(2)
      by simp
  qed
qed

lemma norm_loop_spec: "norm_loop cap (dropWhile (\<lambda>c. c = SLASH) p) [SLASH] = norm_spec p cap"
proof -
  have root: "path_of [] = [SLASH]" by (simp add: path_of_def)
  have hd: "dropWhile (\<lambda>c. c = SLASH) p = [] \<or> hd (dropWhile (\<lambda>c. c = SLASH) p) \<noteq> SLASH"
    using hd_dropWhile [of "\<lambda>c. c = SLASH" p] by blast
  show ?thesis using norm_loop_eq [OF hd, of "[]" cap] unfolding root norm_spec_def by simp
qed


section \<open>Canonical paths\<close>

definition canonical :: "byte list list \<Rightarrow> bool" where
  "canonical st \<longleftrightarrow> list_all (\<lambda>c. comp_ok c \<and> c \<noteq> [DOT] \<and> c \<noteq> [DOT, DOT] \<and> length c \<le> VFS_NAME_MAX) st"

lemma push_canonical:
  assumes "foldl (push cap) (Some st) cs = Some st'" "canonical st" "list_all comp_ok cs" "length (path_of st) < cap"
  shows "canonical st' \<and> length (path_of st') < cap"
  using assms
proof (induction cs arbitrary: st)
  case (Cons c cs)
  have len: "length (path_of (butlast st)) \<le> length (path_of st)"
    by (cases st rule: rev_cases) (simp_all add: path_of_snoc path_of_def)
  have bl: "canonical (butlast st)" using Cons.prems(2) by (auto simp: canonical_def list_all_iff dest: in_set_butlastD)
  show ?case
    using Cons.IH [of st] Cons.IH [of "butlast st"] Cons.IH [of "st @ [c]"] Cons.prems bl len
    by (auto simp: canonical_def split: if_splits)
qed simp

lemma takeWhile_comp: "SLASH \<notin> set c \<Longrightarrow> takeWhile (\<lambda>x. x \<noteq> SLASH) (c @ SLASH # r) = c \<and> dropWhile (\<lambda>x. x \<noteq> SLASH) (c @ SLASH # r) = SLASH # r"
  by (induction c) auto

lemma components_concat: "list_all comp_ok cs \<Longrightarrow> components (concat (map (\<lambda>c. SLASH # c) cs)) = cs"
proof (induction cs)
  case Nil
  then show ?case by (simp add: components.simps)
next
  case (Cons c cs)
  let ?r = "concat (map (\<lambda>c. SLASH # c) cs)"
  have c: "c \<noteq> []" "SLASH \<notin> set c" using Cons.prems by (simp_all add: comp_ok_def)
  then have hd: "hd (c @ ?r) \<noteq> SLASH" "c @ ?r \<noteq> []" by (cases c; auto)+
  have split: "takeWhile (\<lambda>x. x \<noteq> SLASH) (c @ ?r) = c \<and> dropWhile (\<lambda>x. x \<noteq> SLASH) (c @ ?r) = ?r"
  proof (cases cs)
    case Nil
    then show ?thesis using c(2) by (auto simp: takeWhile_eq_all_conv)
  next
    case (Cons d ds)
    then show ?thesis using takeWhile_comp [OF c(2), of "d @ concat (map (\<lambda>c. SLASH # c) ds)"] by simp
  qed
  have "components (SLASH # c @ ?r) = components (c @ ?r)"
    using components_skip [of "SLASH # c @ ?r"] components_skip [of "c @ ?r"] by simp
  also have "\<dots> = c # components ?r" using components_Cons [OF hd(2,1)] split by simp
  finally show ?case using Cons by simp
qed

lemma components_path_of: "list_all comp_ok cs \<Longrightarrow> components (path_of cs) = cs"
proof (cases "cs = []")
  case True
  then show ?thesis by (simp add: path_of_def components.simps)
next
  case False
  assume "list_all comp_ok cs"
  then show ?thesis unfolding path_of_def using components_concat False by (simp only: if_False)
qed

text \<open>A canonical stack pushes through unchanged.\<close>

lemma push_all:
  assumes "canonical (st @ cs)" "length (path_of (st @ cs)) < cap"
  shows "foldl (push cap) (Some st) cs = Some (st @ cs)"
  using assms
proof (induction cs arbitrary: st)
  case (Cons c cs)
  have "length (path_of (st @ [c])) \<le> length (path_of ((st @ [c]) @ cs))" by (simp add: path_of_def)
  then show ?case using Cons.IH [of "st @ [c]"] Cons.prems by (auto simp: canonical_def)
qed simp

text \<open>
  C23. The result of a successful normalisation is canonical: it starts with a slash, fits the buffer with
  its terminator, its components are not empty, not \<^verbatim>\<open>.\<close>, not \<^verbatim>\<open>..\<close> and at most 255 bytes long, it has no
  trailing slash, and normalising it again gives it back.
\<close>

theorem vfs_path_norm_canonical:
  assumes "vfs_path_norm inp cap = Inr out"
  shows "\<exists>cs. canonical cs \<and> out = path_of cs \<and> components out = cs \<and> hd out = SLASH \<and> length out < cap
    \<and> vfs_path_norm (Some out) cap = Inr out"
proof -
  obtain p where p: "2 \<le> cap" "norm_spec p cap = Inr out"
    using assms by (auto simp: vfs_path_norm_def norm_loop_spec split: option.splits if_splits)
  obtain cs where cs: "foldl (push cap) (Some []) (components p) = Some cs" "out = path_of cs"
    using p(2) by (auto simp: norm_spec_def split: option.splits)
  have "canonical []" "length (path_of []) < cap" using p(1) by (simp_all add: canonical_def path_of_def)
  then have can: "canonical cs" "length out < cap" using push_canonical [OF cs(1) _ components_ok] cs(2) by simp_all
  have ok: "list_all comp_ok cs" using can(1) by (auto simp: canonical_def list_all_iff)
  have comps: "components out = cs" using components_path_of [OF ok] cs(2) by simp
  have out: "out \<noteq> []" "hd out = SLASH" using cs(2) by (cases cs; simp add: path_of_def)+
  have "norm_spec out cap = Inr out" using push_all [of "[]" cs cap] can cs(2) comps by (simp add: norm_spec_def)
  then have "vfs_path_norm (Some out) cap = Inr out" using out p(1) by (simp add: vfs_path_norm_def norm_loop_spec)
  then show ?thesis using can comps out cs(2) by blast
qed

theorem vfs_path_norm_canonical_witness:
  "vfs_path_norm (Some (cstr ''//a/./bc/../d//'')) 256 = Inr (cstr ''/a/d'')
   \<and> vfs_path_norm (Some (cstr ''/a/d'')) 256 = Inr (cstr ''/a/d'')"
proof -
  have "vfs_path_norm (Some (cstr ''//a/./bc/../d//'')) 256 = Inr (cstr ''/a/d'')" by code_simp
  then show ?thesis using vfs_path_norm_canonical [of "Some (cstr ''//a/./bc/../d//'')" 256 "cstr ''/a/d''"] by blast
qed

end
