(* ===== verification/Lib_Le.thy ===== *)
theory Lib_Le
  imports Kernel_Prelude
begin

text \<open>
  Little-endian integers in byte buffers, as a \<^verbatim>\<open>memcpy\<close> between a buffer and a \<^verbatim>\<open>uint16_t\<close>, \<^verbatim>\<open>uint32_t\<close>
  or \<^verbatim>\<open>uint64_t\<close> reads and writes them on x86_64.
\<close>

definition le_bytes :: "nat \<Rightarrow> nat \<Rightarrow> byte list" where
  "le_bytes k n = map (\<lambda>i. of_nat (n div 256 ^ i)) [0..<k]"

definition le_val :: "byte list \<Rightarrow> nat" where
  "le_val bs = foldr (\<lambda>b n. unat b + 256 * n) bs 0"

definition le_get :: "nat \<Rightarrow> byte list \<Rightarrow> nat \<Rightarrow> nat" where
  "le_get k buf off = le_val (bslice off k buf)"

definition le_put :: "nat \<Rightarrow> byte list \<Rightarrow> nat \<Rightarrow> nat \<Rightarrow> byte list" where
  "le_put k buf off v = bsplice off (le_bytes k v) buf"

lemma length_le_bytes [simp]: "length (le_bytes k n) = k"
  by (simp add: le_bytes_def)

lemma le_bytes_Suc: "le_bytes (Suc k) n = of_nat n # le_bytes k (n div 256)"
  by (rule nth_equalityI) (auto simp: le_bytes_def nth_Cons div_mult2_eq split: nat.splits simp del: upt_Suc)

lemma le_val_bytes [simp]: "n < 256 ^ k \<Longrightarrow> le_val (le_bytes k n) = n"
proof (induction k arbitrary: n)
  case 0
  then show ?case by (simp add: le_bytes_def le_val_def)
next
  case (Suc k)
  then have "n div 256 < 256 ^ k" by (simp add: less_mult_imp_div_less mult.commute)
  then have "le_val (le_bytes k (n div 256)) = n div 256" by (rule Suc.IH)
  then show ?case by (simp add: le_bytes_Suc le_val_def unsigned_of_nat take_bit_eq_mod)
qed

lemma le_val_less: "le_val bs < 256 ^ length bs"
proof (induction bs)
  case Nil
  show ?case by (simp add: le_val_def)
next
  case (Cons b bs)
  have "unat b < 256" using unsigned_less [of b] by simp
  then have "unat b + 256 * le_val bs < 256 * (1 + le_val bs)" by simp
  also have "\<dots> \<le> 256 * 256 ^ length bs" using Cons by simp
  finally show ?case by (simp add: le_val_def)
qed

lemma le_get_less: "le_get k buf off < 256 ^ k"
proof -
  have "length (bslice off k buf) \<le> k" by (simp add: bslice_def)
  then have "(256 :: nat) ^ length (bslice off k buf) \<le> 256 ^ k" by (rule power_increasing) simp
  with le_val_less [of "bslice off k buf"] show ?thesis unfolding le_get_def by (rule less_le_trans)
qed

lemma length_le_put [simp]: "off + k \<le> length buf \<Longrightarrow> length (le_put k buf off v) = length buf"
  by (simp add: le_put_def)

lemma le_get_put [simp]: "off + k \<le> length buf \<Longrightarrow> v < 256 ^ k \<Longrightarrow> le_get k (le_put k buf off v) off = v"
  using slice_splice_same [of off "le_bytes k v" buf] by (simp add: le_get_def le_put_def)

lemma le_get_put_disjoint:
  "off + k \<le> length buf \<Longrightarrow> off' + k' \<le> off \<or> off + k \<le> off' \<Longrightarrow> off' + k' \<le> length buf
     \<Longrightarrow> le_get k' (le_put k buf off v) off' = le_get k' buf off'"
  by (simp add: le_get_def le_put_def slice_splice_disjoint)

lemma le_val_zeros [simp]: "le_val (zeros n) = 0"
  by (induction n) (simp_all add: le_val_def zeros_def)

lemma le_get_zeros [simp]: "off + k \<le> n \<Longrightarrow> le_get k (zeros n) off = 0"
proof -
  assume "off + k \<le> n"
  then have "bslice off k (zeros n) = zeros k" by (simp add: bslice_def zeros_def)
  then show ?thesis by (simp add: le_get_def)
qed

end
