(* ===== verification/Vfs_Stat.thy ===== *)
theory Vfs_Stat
  imports Lib_Le
begin

text \<open>
  The file metadata interface (\<^verbatim>\<open>kernel/include/stat.h\<close>): open flags, file types, the fields of
  \<^verbatim>\<open>struct stat\<close> that the kernel fills (the others stay zero), and the layout of a \<^verbatim>\<open>struct dirent64\<close> with
  its name. Flag words are the bit patterns of the C \<^verbatim>\<open>int\<close>, as \<open>nat\<close>.
\<close>

abbreviation (input) S_IFREG :: nat where "S_IFREG \<equiv> 32768"
abbreviation (input) S_IFDIR :: nat where "S_IFDIR \<equiv> 16384"
abbreviation (input) S_IFCHR :: nat where "S_IFCHR \<equiv> 8192"
abbreviation (input) O_RDONLY :: nat where "O_RDONLY \<equiv> 0"
abbreviation (input) O_WRONLY :: nat where "O_WRONLY \<equiv> 1"
abbreviation (input) O_ACCMODE :: nat where "O_ACCMODE \<equiv> 3"
abbreviation (input) O_CREAT :: nat where "O_CREAT \<equiv> 64"
abbreviation (input) O_EXCL :: nat where "O_EXCL \<equiv> 128"
abbreviation (input) O_TRUNC :: nat where "O_TRUNC \<equiv> 512"
abbreviation (input) O_APPEND :: nat where "O_APPEND \<equiv> 1024"
abbreviation (input) O_DIRECTORY :: nat where "O_DIRECTORY \<equiv> 65536"
abbreviation (input) SEEK_SET :: int where "SEEK_SET \<equiv> 0"
abbreviation (input) SEEK_CUR :: int where "SEEK_CUR \<equiv> 1"
abbreviation (input) SEEK_END :: int where "SEEK_END \<equiv> 2"
abbreviation (input) DT_CHR :: nat where "DT_CHR \<equiv> 2"
abbreviation (input) DT_DIR :: nat where "DT_DIR \<equiv> 4"
abbreviation (input) DT_REG :: nat where "DT_REG \<equiv> 8"
abbreviation (input) DIRENT64_HDR :: nat where "DIRENT64_HDR \<equiv> 19"

definition has_flag :: "nat \<Rightarrow> nat \<Rightarrow> bool" where
  "has_flag flags f \<longleftrightarrow> flags AND f \<noteq> 0"

record stat =
  st_dev :: nat
  st_ino :: nat
  st_nlink :: nat
  st_mode :: nat
  st_rdev :: nat
  st_size :: int
  st_blksize :: int
  st_blocks :: int

text \<open>A value of \<^verbatim>\<open>int64_t\<close>; a sum wraps.\<close>

definition s64 :: "int \<Rightarrow> int" where
  "s64 n = (n + 2 ^ 63) mod 2 ^ 64 - 2 ^ 63"

section \<open>Directory records\<close>

record dirent64 =
  d_ino :: nat
  d_off :: nat
  d_type :: nat
  d_name :: "byte list"

definition dirent_reclen :: "byte list \<Rightarrow> nat" where
  "dirent_reclen name = (DIRENT64_HDR + length name + 1 + 7) div 8 * 8"

text \<open>The header in little endian, the name with its NUL, and zeros up to a multiple of 8.\<close>

definition dirent_bytes :: "dirent64 \<Rightarrow> byte list" where
  "dirent_bytes d =
     (let nlen = length (d_name d); reclen = dirent_reclen (d_name d) in
      le_bytes 8 (d_ino d) @ le_bytes 8 (d_off d) @ le_bytes 2 reclen @ le_bytes 1 (d_type d)
      @ d_name d @ zeros 1 @ zeros (reclen - DIRENT64_HDR - nlen - 1))"

text \<open>How a program reads the records of a buffer: each gives the length of its record.\<close>

function dirents_of :: "byte list \<Rightarrow> dirent64 list" where
  "dirents_of buf =
     (let reclen = le_val (bslice 16 2 buf) in
      if length buf < DIRENT64_HDR \<or> reclen = 0 then []
      else \<lparr>d_ino = le_val (bslice 0 8 buf), d_off = le_val (bslice 8 8 buf), d_type = le_val (bslice 18 1 buf),
            d_name = takeWhile (\<lambda>c. c \<noteq> 0) (drop DIRENT64_HDR buf)\<rparr> # dirents_of (drop reclen buf))"
  by pat_completeness auto
termination
  by (relation "measure length") auto

declare dirents_of.simps [simp del]

section \<open>Reading back what was written\<close>

lemma dirent_reclen_bounds: "DIRENT64_HDR + length name + 1 \<le> dirent_reclen name" "dirent_reclen name \<le> 27 + length name"
  unfolding dirent_reclen_def by presburger+

lemma length_dirent_bytes [simp]: "length (dirent_bytes d) = dirent_reclen (d_name d)"
  using dirent_reclen_bounds [of "d_name d"] by (simp add: dirent_bytes_def Let_def)

lemma dirent_bytes_nonempty [simp]: "dirent_bytes d \<noteq> []"
proof
  assume "dirent_bytes d = []"
  then show False using length_dirent_bytes [of d] dirent_reclen_bounds(1) [of "d_name d"] by simp
qed

definition dirent_ok :: "dirent64 \<Rightarrow> bool" where
  "dirent_ok d \<longleftrightarrow> d_ino d < 2 ^ 64 \<and> d_off d < 2 ^ 64 \<and> d_type d < 256 \<and> length (d_name d) \<le> 255 \<and> 0 \<notin> set (d_name d)"

lemma dirents_of_Cons:
  assumes "dirent_ok d"
  shows "dirents_of (dirent_bytes d @ rest) = d # dirents_of rest"
proof -
  let ?n = "d_name d" and ?z = "zeros (dirent_reclen (d_name d) - 19 - length (d_name d) - 1)"
  let ?b = "dirent_bytes d @ rest"
  have b: "?b = le_bytes 8 (d_ino d) @ le_bytes 8 (d_off d) @ le_bytes 2 (dirent_reclen ?n) @ le_bytes 1 (d_type d) @ ?n @ 0 # ?z @ rest"
    by (simp add: dirent_bytes_def Let_def zeros_def)
  have f: "bslice 0 8 ?b = le_bytes 8 (d_ino d)" "bslice 8 8 ?b = le_bytes 8 (d_off d)"
    "bslice 16 2 ?b = le_bytes 2 (dirent_reclen ?n)" "bslice 18 1 ?b = le_bytes 1 (d_type d)" "drop 19 ?b = ?n @ 0 # ?z @ rest"
    unfolding b bslice_def by simp_all
  have r: "dirent_reclen ?n < 256 ^ 2" using dirent_reclen_bounds(2) [of ?n] assms by (simp add: dirent_ok_def)
  have n: "takeWhile (\<lambda>c. c \<noteq> 0) (?n @ 0 # ?z @ rest) = ?n"
    using assms by (subst takeWhile_append2) (auto simp: dirent_ok_def)
  have l: "19 \<le> length ?b" "dirent_reclen ?n \<noteq> 0" using dirent_reclen_bounds(1) [of ?n] by simp_all
  show ?thesis
    by (subst dirents_of.simps, unfold Let_def f n) (use assms r l in \<open>simp add: dirent_ok_def\<close>)
qed

lemma dirents_of_concat:
  "\<forall>d \<in> set ds. dirent_ok d \<Longrightarrow> dirents_of (concat (map dirent_bytes ds)) = ds"
proof (induction ds)
  case Nil
  show ?case by (simp add: dirents_of.simps)
next
  case (Cons d ds)
  then show ?case using dirents_of_Cons [of d "concat (map dirent_bytes ds)"] by simp
qed

end
