(* ===== verification/Devfs.thy ===== *)
theory Devfs
  imports Vfs_File Vfs_Path Vfs_Stat
begin

text \<open>
  The device file system (\<^verbatim>\<open>kernel/fs/devfs.c\<close>): opening a path below \<^verbatim>\<open>/dev\<close> and the operations of the
  directory \<^verbatim>\<open>/dev\<close> itself. Reading the console, which waits for the keyboard interrupt, and the console
  output are not modelled.
\<close>

abbreviation (input) DEVFS_STDEV :: nat where "DEVFS_STDEV \<equiv> 2"
abbreviation (input) DEVFS_INO_DIR :: nat where "DEVFS_INO_DIR \<equiv> 1"
abbreviation (input) DEVFS_INO_CON :: nat where "DEVFS_INO_CON \<equiv> 2"
abbreviation (input) CONSOLE_RDEV :: nat where "CONSOLE_RDEV \<equiv> 1281"

definition con_fstat :: stat where
  "con_fstat = \<lparr>st_dev = DEVFS_STDEV, st_ino = DEVFS_INO_CON, st_nlink = 1, st_mode = S_IFCHR OR 438,
     st_rdev = CONSOLE_RDEV, st_size = 0, st_blksize = 4096, st_blocks = 0\<rparr>"

definition dir_lseek :: "file_desc \<Rightarrow> int \<Rightarrow> int \<Rightarrow> int \<times> file_desc" where
  "dir_lseek f off whence =
     (let seek = (\<lambda>base. let pos = s64 (base + off) in
            if pos < 0 then (- EINVAL, f) else (pos, f\<lparr>f_off := nat pos\<rparr>)) in
      if whence = SEEK_SET then seek 0
      else if whence = SEEK_CUR then seek (s64 (int (f_off f)))
      else (- EINVAL, f))"

definition dir_fstat :: stat where
  "dir_fstat = \<lparr>st_dev = DEVFS_STDEV, st_ino = DEVFS_INO_DIR, st_nlink = 2, st_mode = S_IFDIR OR 493,
     st_rdev = 0, st_size = 0, st_blksize = 4096, st_blocks = 0\<rparr>"

text \<open>The entries, with the cursor as \<^verbatim>\<open>d_off\<close>.\<close>

definition dev_ents :: "dirent64 list" where
  "dev_ents = [\<lparr>d_ino = DEVFS_INO_DIR, d_off = 1, d_type = DT_DIR, d_name = [DOT]\<rparr>,
     \<lparr>d_ino = 1, d_off = 2, d_type = DT_DIR, d_name = [DOT, DOT]\<rparr>,
     \<lparr>d_ino = DEVFS_INO_CON, d_off = 3, d_type = DT_CHR, d_name = cstr ''console''\<rparr>]"

text \<open>The result, the new offset and the bytes stored in the caller's buffer.\<close>

function dir_getdents :: "nat \<Rightarrow> nat \<Rightarrow> byte list \<Rightarrow> int \<times> nat \<times> byte list" where
  "dir_getdents len off out =
     (if off < length dev_ents then
        let rec = dirent_bytes (dev_ents ! off) in
        if length out + length rec > len then (if out = [] then - EINVAL else int (length out), off, out)
        else dir_getdents len (off + 1) (out @ rec)
      else (int (length out), off, out))"
  by pat_completeness auto
termination
  by (relation "measure (\<lambda>(len, off, out). length dev_ents - off)") auto

declare dir_getdents.simps [simp del]

definition devfs_open :: "nat option \<Rightarrow> byte list \<Rightarrow> nat \<Rightarrow> vfs_files \<Rightarrow> (int + nat) \<times> vfs_files" where
  "devfs_open mem rel flags vf =
     (let alloc = (\<lambda>ops node. case file_alloc mem ops node flags vf of
            (None, vf) \<Rightarrow> (Inl (- ENOMEM), vf) | (Some a, vf) \<Rightarrow> (Inr a, vf)) in
      if rel = [] then
        if flags AND O_ACCMODE \<noteq> O_RDONLY \<or> has_flag flags (O_CREAT OR O_TRUNC) then (Inl (- EISDIR), vf)
        else alloc DIR_OPS DEVFS_INO_DIR
      else if rel = cstr ''console'' then
        if has_flag flags O_DIRECTORY then (Inl (- ENOTDIR), vf)
        else if has_flag flags O_CREAT \<and> has_flag flags O_EXCL then (Inl (- EEXIST), vf)
        else alloc CON_OPS DEVFS_INO_CON
      else if take 8 rel = cstr ''console/'' then (Inl (- ENOTDIR), vf)
      else (Inl (if SLASH \<notin> set rel \<and> has_flag flags O_CREAT then - EPERM else - ENOENT), vf))"

section \<open>Reading the directory\<close>

lemma dev_ents_ok: "\<forall>d \<in> set dev_ents. dirent_ok d"
  by (simp add: dev_ents_def dirent_ok_def cstr_def)

lemma dir_getdents_run:
  assumes "dir_getdents len off out = (rc, off', out')" "off \<le> length dev_ents" "length out \<le> len"
  shows "off \<le> off' \<and> off' \<le> length dev_ents \<and> length out' \<le> len
    \<and> out' = out @ concat (map dirent_bytes (take (off' - off) (drop off dev_ents)))
    \<and> (rc = int (length out') \<or> rc = - EINVAL \<and> out' = [])"
  using assms
proof (induction len off out rule: dir_getdents.induct)
  case (1 len off out)
  let ?rec = "dirent_bytes (dev_ents ! off)"
  show ?case
  proof (cases "off < length dev_ents \<and> length out + length ?rec \<le> len")
    case True
    have s: "dir_getdents len off out = dir_getdents len (off + 1) (out @ ?rec)"
      by (subst dir_getdents.simps) (use True in \<open>simp add: Let_def\<close>)
    have ih: "off + 1 \<le> off' \<and> off' \<le> length dev_ents \<and> length out' \<le> len
        \<and> out' = (out @ ?rec) @ concat (map dirent_bytes (take (off' - (off + 1)) (drop (off + 1) dev_ents)))
        \<and> (rc = int (length out') \<or> rc = - EINVAL \<and> out' = [])"
      by (rule "1.IH" [OF _ refl]) (use True 1(2) s in simp_all)
    have tk: "take (off' - off) (drop off dev_ents) = dev_ents ! off # take (off' - (off + 1)) (drop (off + 1) dev_ents)"
      using True ih by (subst Cons_nth_drop_Suc [symmetric]) (auto simp: take_Cons' simp del: drop_Suc_Cons)
    have "out' = out @ concat (map dirent_bytes (take (off' - off) (drop off dev_ents)))" using ih by (simp add: tk)
    moreover have "off \<le> off'" using ih by simp
    ultimately show ?thesis using ih by blast
  next
    case False
    then have "dir_getdents len off out = (if off < length dev_ents \<and> out = [] then - EINVAL else int (length out), off, out)"
      by (subst dir_getdents.simps) (auto simp: Let_def)
    then show ?thesis using 1(2-4) by (auto split: if_splits)
  qed
qed

end
