(* ===== verification/Vfs.thy ===== *)
theory Vfs
  imports Gfs_Query Block_Cache Vfs_File Devfs
begin

text \<open>
  The virtual file system (\<^verbatim>\<open>kernel/fs/vfs.c\<close>): path resolution through the mount table, open, the namespace operations and the
  operations on open graphfs files, over the graphfs model.

  Everything between \<^verbatim>\<open>mutex_lock(&fs_lock)\<close> and the matching unlock is one graphfs computation, the
  \<open>_body\<close> of an operation; \<open>locked\<close> runs it on the mounted file system and turns a graphfs error into
  an errno. A body that returns early with an errno of its own returns it as its value. Results are
  \<open>int\<close> as in C, negative for errors. User buffers are byte lists. The allocator's answer is a parameter.
\<close>

abbreviation (input) VFS_DEV_GFS :: nat where "VFS_DEV_GFS \<equiv> 1"

section \<open>State\<close>

record 'c vfs =
  vs_root :: "'c gfs option"
  vs_files :: vfs_files

fun gfs_errno :: "gfs_err \<Rightarrow> int" where
  "gfs_errno GFS_ENOENT = - ENOENT"
| "gfs_errno GFS_ENOTDIR = - ENOTDIR"
| "gfs_errno GFS_EISDIR = - EISDIR"
| "gfs_errno GFS_ENAMETOOLONG = - ENAMETOOLONG"
| "gfs_errno GFS_EROFS = - EROFS"
| "gfs_errno GFS_EINVAL = - EINVAL"
| "gfs_errno GFS_EEXIST = - EEXIST"
| "gfs_errno GFS_ENOTEMPTY = - ENOTEMPTY"
| "gfs_errno GFS_ENOSPC = - ENOSPC"
| "gfs_errno GFS_EFRAG = - ENOSPC"
| "gfs_errno GFS_EFBIG = - EFBIG"
| "gfs_errno GFS_EMANYPARENTS = - EPERM"
| "gfs_errno _ = - EIO"

definition locked :: "('c, int) gfs_m \<Rightarrow> 'c vfs \<Rightarrow> (int \<times> 'c vfs) option" where
  "locked m s =
     (case vs_root s of None \<Rightarrow> Some (- ENODEV, s)
      | Some fs \<Rightarrow> map_option (\<lambda>(r, fs'). (case r of Inl e \<Rightarrow> gfs_errno e | Inr rc \<Rightarrow> rc, s\<lparr>vs_root := Some fs'\<rparr>)) (m fs))"

section \<open>Paths\<close>

definition last_slash :: "byte list \<Rightarrow> nat" where
  "last_slash canon = fold (\<lambda>i l. if canon ! i = SLASH then i else l) [0..<length canon] 0"

definition path_split :: "byte list \<Rightarrow> byte list \<times> byte list" where
  "path_split canon = (let l = last_slash canon in
     (if l = 0 then [SLASH] else take l canon, drop (l + 1) canon))"

definition DEV :: "byte list" where
  "DEV = cstr ''/dev''"

definition on_devfs :: "byte list \<Rightarrow> bool" where
  "on_devfs canon \<longleftrightarrow> canon = DEV \<or> take 5 canon = cstr ''/dev/''"

definition gfs_locate :: "byte list \<Rightarrow> ('c, nat \<times> byte list \<times> nat \<times> gfs_node) gfs_m" where
  "gfs_locate canon =
     (case path_split canon of (parent, name) \<Rightarrow>
        gbind (gfs_resolve parent) (\<lambda>dir.
        gbind (gfs_lookup dir name) (\<lambda>nid.
        gbind (gfs_node_get nid) (\<lambda>node. gret (dir, name, nid, node)))))"

section \<open>Open\<close>

definition open_check :: "nat \<Rightarrow> nat \<Rightarrow> gfs_node \<Rightarrow> ('c, int + file_ops \<times> nat) gfs_m" where
  "open_check flags nid node =
     (if gn_type node = GFS_NODE_NAMESPACE then
        if flags AND O_ACCMODE \<noteq> O_RDONLY \<or> has_flag flags (O_CREAT OR O_TRUNC) then gret (Inl (- EISDIR))
        else gret (Inr (GFS_DIR_OPS, nid))
      else if has_flag flags O_DIRECTORY then gret (Inl (- ENOTDIR))
      else if has_flag flags O_TRUNC \<and> gn_size node > 0 then gseq (gfs_truncate nid 0) (gret (Inr (GFS_FILE_OPS, nid)))
      else gret (Inr (GFS_FILE_OPS, nid)))"

definition open_body :: "byte list \<Rightarrow> nat \<Rightarrow> nat \<Rightarrow> ('c, int + file_ops \<times> nat) gfs_m" where
  "open_body canon flags mode =
     gbind (gtry (gfs_resolve canon)) (\<lambda>r. case r of
       Inr nid \<Rightarrow>
         if has_flag flags O_CREAT \<and> has_flag flags O_EXCL then gret (Inl (- EEXIST))
         else gbind (gfs_node_get nid) (open_check flags nid)
     | Inl e \<Rightarrow>
         if e = GFS_ENOENT \<and> has_flag flags O_CREAT \<and> canon \<noteq> [SLASH] then
           case path_split canon of (parent, name) \<Rightarrow>
             gbind (gfs_resolve parent) (\<lambda>dir.
             gbind (gfs_create_at dir name GFS_NODE_DATA (mode AND 4095)) (\<lambda>nid.
             gbind (gfs_node_get nid) (open_check flags nid)))
         else gfail e)"

definition gfs_open :: "nat option \<Rightarrow> byte list \<Rightarrow> nat \<Rightarrow> nat \<Rightarrow> 'c vfs \<Rightarrow> ((int + nat) \<times> 'c vfs) option" where
  "gfs_open mem canon flags mode s =
     (case vs_root s of None \<Rightarrow> Some (Inl (- ENODEV), s)
      | Some fs \<Rightarrow> map_option (\<lambda>(r, fs'). let s = s\<lparr>vs_root := Some fs'\<rparr> in
          case r of Inl e \<Rightarrow> (Inl (gfs_errno e), s)
          | Inr (Inl rc) \<Rightarrow> (Inl rc, s)
          | Inr (Inr (ops, nid)) \<Rightarrow>
              case gfs_open_file mem ops nid flags (vs_files s) of (r, vf) \<Rightarrow> (r, s\<lparr>vs_files := vf\<rparr>))
        (open_body canon flags mode fs))"

definition vfs_open :: "nat option \<Rightarrow> byte list option \<Rightarrow> nat \<Rightarrow> nat \<Rightarrow> 'c vfs \<Rightarrow> ((int + nat) \<times> 'c vfs) option" where
  "vfs_open mem path flags mode s =
     (if flags AND (O_ACCMODE OR O_CREAT OR O_EXCL OR O_TRUNC OR O_APPEND OR O_DIRECTORY) \<noteq> flags then Some (Inl (- EINVAL), s)
      else if has_flag flags O_DIRECTORY \<and> has_flag flags O_CREAT then Some (Inl (- EINVAL), s)
      else case vfs_path_norm path VFS_PATH_MAX of
        Inl rc \<Rightarrow> Some (Inl rc, s)
      | Inr canon \<Rightarrow>
          if take 4 canon = DEV \<and> (length canon = 4 \<or> canon ! 4 = SLASH) then
            case devfs_open mem (dropWhile (\<lambda>c. c = SLASH) (drop 4 canon)) flags (vs_files s) of
              (r, vf) \<Rightarrow> Some (r, s\<lparr>vs_files := vf\<rparr>)
          else gfs_open mem canon flags mode s)"

section \<open>Namespace operations\<close>

definition mkdir_body :: "byte list \<Rightarrow> nat \<Rightarrow> ('c, int) gfs_m" where
  "mkdir_body canon mode =
     (case path_split canon of (parent, name) \<Rightarrow>
        gbind (gfs_resolve parent) (\<lambda>dir.
        gbind (gfs_create_at dir name GFS_NODE_NAMESPACE (mode AND 4095)) (\<lambda>_. gret 0)))"

definition vfs_mkdir :: "byte list option \<Rightarrow> nat \<Rightarrow> 'c vfs \<Rightarrow> (int \<times> 'c vfs) option" where
  "vfs_mkdir path mode s =
     (case vfs_path_norm path VFS_PATH_MAX of Inl rc \<Rightarrow> Some (rc, s)
      | Inr canon \<Rightarrow>
          if canon = [SLASH] \<or> canon = DEV then Some (- EEXIST, s)
          else if on_devfs canon then Some (- EPERM, s)
          else locked (mkdir_body canon mode) s)"

definition unlink_body :: "(nat \<Rightarrow> nat) \<Rightarrow> byte list \<Rightarrow> ('c, int) gfs_m" where
  "unlink_body opens canon =
     gbind (gfs_locate canon) (\<lambda>(dir, name, nid, node).
       if gn_type node = GFS_NODE_NAMESPACE then gret (- EISDIR)
       else if gn_nlink node = 1 \<and> opens nid > 0 then gret (- EBUSY)
       else gseq (gfs_unlink dir name) (gret 0))"

definition vfs_unlink :: "byte list option \<Rightarrow> 'c vfs \<Rightarrow> (int \<times> 'c vfs) option" where
  "vfs_unlink path s =
     (case vfs_path_norm path VFS_PATH_MAX of Inl rc \<Rightarrow> Some (rc, s)
      | Inr canon \<Rightarrow>
          if canon = [SLASH] \<or> canon = DEV then Some (- EISDIR, s)
          else if on_devfs canon then Some (- EPERM, s)
          else locked (unlink_body (vf_opens (vs_files s)) canon) s)"

definition rmdir_body :: "(nat \<Rightarrow> nat) \<Rightarrow> byte list \<Rightarrow> ('c, int) gfs_m" where
  "rmdir_body opens canon =
     gbind (gfs_locate canon) (\<lambda>(dir, name, nid, node).
       if gn_type node \<noteq> GFS_NODE_NAMESPACE then gret (- ENOTDIR)
       else if opens nid > 0 then gret (- EBUSY)
       else gseq (gfs_unlink dir name) (gret 0))"

definition vfs_rmdir :: "byte list option \<Rightarrow> 'c vfs \<Rightarrow> (int \<times> 'c vfs) option" where
  "vfs_rmdir path s =
     (case vfs_path_norm path VFS_PATH_MAX of Inl rc \<Rightarrow> Some (rc, s)
      | Inr canon \<Rightarrow>
          if canon = [SLASH] \<or> canon = DEV then Some (- EBUSY, s)
          else if on_devfs canon then Some (- EPERM, s)
          else locked (rmdir_body (vf_opens (vs_files s)) canon) s)"

definition link_body :: "byte list \<Rightarrow> byte list \<Rightarrow> ('c, int) gfs_m" where
  "link_body ocanon ncanon =
     (case path_split ncanon of (parent, name) \<Rightarrow>
        gbind (gfs_resolve ocanon) (\<lambda>nid.
        gbind (gfs_node_get nid) (\<lambda>node.
          if gn_type node = GFS_NODE_NAMESPACE then gret (- EPERM)
          else gbind (gfs_resolve parent) (\<lambda>dir. gseq (gfs_link dir name nid GFS_EDGE_NAME) (gret 0)))))"

definition vfs_link :: "byte list option \<Rightarrow> byte list option \<Rightarrow> 'c vfs \<Rightarrow> (int \<times> 'c vfs) option" where
  "vfs_link oldpath newpath s =
     (case vfs_path_norm oldpath VFS_PATH_MAX of Inl rc \<Rightarrow> Some (rc, s)
      | Inr ocanon \<Rightarrow>
     (case vfs_path_norm newpath VFS_PATH_MAX of Inl rc \<Rightarrow> Some (rc, s)
      | Inr ncanon \<Rightarrow>
          if on_devfs ocanon \<or> on_devfs ncanon then
            Some (if on_devfs ocanon \<and> on_devfs ncanon then - EPERM else - EXDEV, s)
          else if ncanon = [SLASH] then Some (- EEXIST, s)
          else locked (link_body ocanon ncanon) s))"

text \<open>The check before a rename: the target exists, is another node, would be freed, and is open.\<close>

definition rename_target_busy :: "(nat \<Rightarrow> nat) \<Rightarrow> nat \<Rightarrow> byte list \<Rightarrow> nat \<Rightarrow> byte list \<Rightarrow> ('c, bool) gfs_m" where
  "rename_target_busy opens odir oname ndir nname =
     gbind (gtry (gfs_lookup odir oname)) (\<lambda>r. case r of Inl _ \<Rightarrow> gret False
     | Inr src \<Rightarrow> gbind (gtry (gfs_lookup ndir nname)) (\<lambda>r. case r of Inl _ \<Rightarrow> gret False
     | Inr dst \<Rightarrow> if dst = src then gret False
         else gbind (gtry (gfs_node_get dst)) (\<lambda>r. case r of Inl _ \<Rightarrow> gret False
     | Inr dnode \<Rightarrow> gret ((gn_type dnode = GFS_NODE_NAMESPACE \<or> gn_nlink dnode = 1) \<and> opens dst > 0))))"

definition rename_body :: "(nat \<Rightarrow> nat) \<Rightarrow> byte list \<Rightarrow> byte list \<Rightarrow> ('c, int) gfs_m" where
  "rename_body opens ocanon ncanon =
     (case path_split ocanon of (oparent, oname) \<Rightarrow> case path_split ncanon of (nparent, nname) \<Rightarrow>
        gbind (gfs_resolve oparent) (\<lambda>odir.
        gbind (gfs_resolve nparent) (\<lambda>ndir.
        gbind (rename_target_busy opens odir oname ndir nname) (\<lambda>busy.
          if busy then gret (- EBUSY)
          else gseq (gfs_rename odir oname ndir nname) (gret 0)))))"

definition vfs_rename :: "byte list option \<Rightarrow> byte list option \<Rightarrow> 'c vfs \<Rightarrow> (int \<times> 'c vfs) option" where
  "vfs_rename oldpath newpath s =
     (case vfs_path_norm oldpath VFS_PATH_MAX of Inl rc \<Rightarrow> Some (rc, s)
      | Inr ocanon \<Rightarrow>
     (case vfs_path_norm newpath VFS_PATH_MAX of Inl rc \<Rightarrow> Some (rc, s)
      | Inr ncanon \<Rightarrow>
          if ocanon = [SLASH] \<or> ocanon = DEV \<or> ncanon = [SLASH] \<or> ncanon = DEV then Some (- EBUSY, s)
          else if on_devfs ocanon \<or> on_devfs ncanon then
            Some (if on_devfs ocanon \<and> on_devfs ncanon then - EPERM else - EXDEV, s)
          else locked (rename_body (vf_opens (vs_files s)) ocanon ncanon) s))"

section \<open>Operations on open graphfs files\<close>

text \<open>The file offset moves in the description \<open>f\<close>; these return the new description.\<close>

definition gfsf_read :: "file_desc \<Rightarrow> nat \<Rightarrow> 'c gfs \<Rightarrow> ((int + byte list) \<times> file_desc \<times> 'c gfs) option" where
  "gfsf_read f len fs =
     (if f_flags f AND O_ACCMODE = O_WRONLY then Some (Inl (- EBADF), f, fs)
      else map_option (\<lambda>(r, fs'). case r of Inl e \<Rightarrow> (Inl (gfs_errno e), f, fs')
          | Inr buf \<Rightarrow> (Inr buf, f\<lparr>f_off := u64 (f_off f + length buf)\<rparr>, fs'))
        (gfs_read (f_node f) (f_off f) len fs))"

definition write_body :: "file_desc \<Rightarrow> byte list \<Rightarrow> ('c, nat \<times> nat) gfs_m" where
  "write_body f src =
     gbind (if has_flag (f_flags f) O_APPEND then gbind (gfs_node_get (f_node f)) (\<lambda>node. gret (gn_size node)) else gret (f_off f))
     (\<lambda>off. gbind (gfs_write (f_node f) off src) (\<lambda>n. gret (off, n)))"

definition gfsf_write :: "file_desc \<Rightarrow> byte list \<Rightarrow> 'c gfs \<Rightarrow> (int \<times> file_desc \<times> 'c gfs) option" where
  "gfsf_write f src fs =
     (if f_flags f AND O_ACCMODE = O_RDONLY then Some (- EBADF, f, fs)
      else map_option (\<lambda>(r, fs'). case r of Inl e \<Rightarrow> (gfs_errno e, f, fs')
          | Inr (off, n) \<Rightarrow> (int n, f\<lparr>f_off := u64 (off + n)\<rparr>, fs'))
        (write_body f src fs))"

definition gfsf_lseek :: "file_desc \<Rightarrow> int \<Rightarrow> int \<Rightarrow> 'c gfs \<Rightarrow> (int \<times> file_desc \<times> 'c gfs) option" where
  "gfsf_lseek f off whence fs =
     (let seek = (\<lambda>base fs. let pos = s64 (base + off) in
            if pos < 0 then (- EINVAL, f, fs) else (pos, f\<lparr>f_off := nat pos\<rparr>, fs)) in
      if whence = SEEK_SET then Some (seek 0 fs)
      else if whence = SEEK_CUR then Some (seek (s64 (int (f_off f))) fs)
      else if whence = SEEK_END then
        map_option (\<lambda>(r, fs'). case r of Inl e \<Rightarrow> (gfs_errno e, f, fs') | Inr node \<Rightarrow> seek (s64 (int (gn_size node))) fs')
          (gfs_node_get (f_node f) fs)
      else Some (- EINVAL, f, fs))"

definition gfsf_fstat :: "file_desc \<Rightarrow> 'c gfs \<Rightarrow> ((int + stat) \<times> 'c gfs) option" where
  "gfsf_fstat f fs =
     map_option (\<lambda>(r, fs'). case r of Inl e \<Rightarrow> (Inl (gfs_errno e), fs')
        | Inr node \<Rightarrow> (Inr \<lparr>st_dev = VFS_DEV_GFS, st_ino = f_node f, st_nlink = gn_nlink node,
            st_mode = (if gn_type node = GFS_NODE_NAMESPACE then S_IFDIR else S_IFREG) OR (gn_mode node AND 4095), st_rdev = 0,
            st_size = s64 (int (gn_size node)), st_blksize = int GFS_BLOCK_SIZE,
            st_blocks = int (u64 (gn_size node + 511) div 512)\<rparr>, fs'))
      (gfs_node_get (f_node f) fs)"

section \<open>Directory enumeration\<close>

text \<open>One record at position \<open>out\<close> of the buffer, \<open>None\<close> when there is no room for it. The name ends at its NUL.\<close>

definition dirent_emit :: "nat \<Rightarrow> nat \<Rightarrow> nat \<Rightarrow> nat \<Rightarrow> nat \<Rightarrow> byte list \<Rightarrow> byte list option" where
  "dirent_emit out len ino next_off typ name =
     (let name = takeWhile (\<lambda>c. c \<noteq> 0) name in
      if out + dirent_reclen name > len then None
      else Some (dirent_bytes \<lparr>d_ino = ino, d_off = next_off, d_type = typ, d_name = name\<rparr>))"

text \<open>The cursor is the file offset: 0 is \<^verbatim>\<open>.\<close>, 1 is \<^verbatim>\<open>..\<close>, and 2 + i is edge i.\<close>

function getdents_loop :: "nat \<Rightarrow> gfs_node \<Rightarrow> nat \<Rightarrow> nat \<Rightarrow> byte list \<Rightarrow> ('c, int \<times> nat \<times> byte list) gfs_m" where
  "getdents_loop nid dir len off out =
     (let stop = gret (if out = [] then - EINVAL else int (length out), off, out) in
      if off = 0 then
        case dirent_emit (length out) len nid 1 DT_DIR [DOT] of None \<Rightarrow> stop
        | Some rec \<Rightarrow> getdents_loop nid dir len (off + 1) (out @ rec)
      else if off = 1 then
        case dirent_emit (length out) len (if gn_parent dir \<noteq> 0 then gn_parent dir else nid) 2 DT_DIR [DOT, DOT] of None \<Rightarrow> stop
        | Some rec \<Rightarrow> getdents_loop nid dir len (off + 1) (out @ rec)
      else if off - 2 < gn_edge_count dir then
        gbind (gtry (gfs_edge_get nid (off - 2))) (\<lambda>r. case r of Inl e \<Rightarrow> gret (gfs_errno e, off, out)
        | Inr edge \<Rightarrow>
            if ge_type edge \<noteq> GFS_EDGE_NAME then getdents_loop nid dir len (off + 1) out
            else gbind (gtry (gfs_node_get (ge_target edge))) (\<lambda>r. case r of Inl e \<Rightarrow> gret (gfs_errno e, off, out)
        | Inr target \<Rightarrow>
            case dirent_emit (length out) len (ge_target edge) (off + 1)
                (if gn_type target = GFS_NODE_NAMESPACE then DT_DIR else DT_REG) (ge_name edge) of None \<Rightarrow> stop
            | Some rec \<Rightarrow> getdents_loop nid dir len (off + 1) (out @ rec)))
      else gret (int (length out), off, out))"
  by pat_completeness auto
termination
  by (relation "measure (\<lambda>(nid, dir, len, off, out). 2 + gn_edge_count dir - off)") auto

declare getdents_loop.simps [simp del]

text \<open>The result, the new offset and the bytes stored in the caller's buffer.\<close>

definition gfsf_getdents :: "file_desc \<Rightarrow> nat \<Rightarrow> ('c, int \<times> nat \<times> byte list) gfs_m" where
  "gfsf_getdents f len =
     gbind (gtry (gfs_node_get (f_node f))) (\<lambda>r. case r of Inl e \<Rightarrow> gret (gfs_errno e, f_off f, [])
       | Inr dir \<Rightarrow> getdents_loop (f_node f) dir len (f_off f) [])"

section \<open>Whole files\<close>

text \<open>
  The loop of \<^verbatim>\<open>vfs_read_file\<close> until \<open>sz\<close> bytes are read; a read that makes no progress is an I/O error.
\<close>

function read_file_loop :: "nat \<Rightarrow> nat \<Rightarrow> byte list \<Rightarrow> ('c, int + byte list) gfs_m" where
  "read_file_loop nid sz buf =
     (if length buf < sz then
        gbind (gfs_read nid (length buf) (sz - length buf)) (\<lambda>d.
          if d = [] then gret (Inl (- EIO)) else read_file_loop nid sz (buf @ d))
      else gret (Inr buf))"
  by pat_completeness auto
termination
proof (relation "measure (\<lambda>(nid, sz, buf). sz - length buf)", goal_cases)
  case (2 nid sz buf d)
  then show ?case by (cases d) auto
qed simp

declare read_file_loop.simps [simp del]

definition vfs_read_file :: "bool \<Rightarrow> byte list option \<Rightarrow> 'c vfs \<Rightarrow> ((int + byte list) \<times> 'c vfs) option" where
  "vfs_read_file mem path s =
     (case vfs_path_norm path VFS_PATH_MAX of Inl rc \<Rightarrow> Some (Inl rc, s)
      | Inr canon \<Rightarrow>
     (case vs_root s of None \<Rightarrow> Some (Inl (- ENODEV), s)
      | Some fs \<Rightarrow>
          map_option (\<lambda>(r, fs'). (case r of Inl e \<Rightarrow> Inl (gfs_errno e) | Inr x \<Rightarrow> x, s\<lparr>vs_root := Some fs'\<rparr>))
            (gbind (gfs_resolve canon) (\<lambda>nid.
             gbind (gfs_node_get nid) (\<lambda>node.
               if gn_type node \<noteq> GFS_NODE_DATA then gret (Inl (- EISDIR))
               else if \<not> mem then gret (Inl (- ENOMEM))
               else read_file_loop nid (gn_size node) [])) fs)))"

section \<open>The mount\<close>

definition vfs_stats :: "'c gfs \<Rightarrow> nat \<times> nat \<times> nat" where
  "vfs_stats fs = (g_generation fs, g_free_blocks fs, g_free_nodes fs)"

definition vfs_has_root :: "'c vfs \<Rightarrow> bool" where
  "vfs_has_root s \<longleftrightarrow> vs_root s \<noteq> None"

text \<open>
  Mounting the registered block device at boot; \<open>Inl ()\<close> is a panic. The answers of the allocator are
  parameters: whether the handle and the table of open nodes were allocated, and the bitmap memory,
  of \<^verbatim>\<open>gfs_mount_work_size(nblocks)\<close> bytes.
\<close>

definition vfs_init :: "bool \<Rightarrow> byte list option \<Rightarrow> bool \<Rightarrow> 'd block_layer \<Rightarrow> (unit + 'd block_layer vfs) option" where
  "vfs_init handle work opens bl =
     (let none = \<lparr>vf_file = (\<lambda>_. None), vf_opens = (\<lambda>_. 0), vf_released = [], vf_panic = False\<rparr> in
      case bl_root bl of
        None \<Rightarrow> Some (Inr \<lparr>vs_root = None, vs_files = none\<rparr>)
      | Some bd \<Rightarrow>
          if \<not> handle \<or> work = None then Some (Inl ())
          else map_option (\<lambda>(r, fs). case r of Inl _ \<Rightarrow> Inl ()
                 | Inr _ \<Rightarrow> if opens then Inr \<lparr>vs_root = Some fs, vs_files = none\<rparr> else Inl ())
            (gfs_mount (GDEV_OPS bd) bl True work))"

end
