(* ===== verification/Vfs_Theorems.thy ===== *)
theory Vfs_Theorems
  imports Vfs Gfs_Theorems
begin

text \<open>
  Properties of the virtual file system: a namespace call is at most one graphfs transaction, a node
  that is open is never removed, devfs is immutable, open keeps the reference counts exact, and the
  records that getdents stores can be read back.
\<close>

definition no_files :: vfs_files where
  "no_files = \<lparr>vf_file = (\<lambda>_. None), vf_opens = (\<lambda>_. 0), vf_released = [], vf_panic = False\<rparr>"

section \<open>Calls on the namespace\<close>

datatype vfs_call =
    Vfs_mkdir "byte list option" nat
  | Vfs_unlink "byte list option"
  | Vfs_rmdir "byte list option"
  | Vfs_link "byte list option" "byte list option"
  | Vfs_rename "byte list option" "byte list option"

fun vfs_exec :: "vfs_call \<Rightarrow> 'c vfs \<Rightarrow> (int \<times> 'c vfs) option" where
  "vfs_exec (Vfs_mkdir path mode) = vfs_mkdir path mode"
| "vfs_exec (Vfs_unlink path) = vfs_unlink path"
| "vfs_exec (Vfs_rmdir path) = vfs_rmdir path"
| "vfs_exec (Vfs_link oldpath newpath) = vfs_link oldpath newpath"
| "vfs_exec (Vfs_rename oldpath newpath) = vfs_rename oldpath newpath"

text \<open>Every call ends early without touching the state, or runs one of the bodies under the lock.\<close>

inductive vfs_body :: "(nat \<Rightarrow> nat) \<Rightarrow> ('c, int) gfs_m \<Rightarrow> bool" for opens where
  "vfs_body opens (mkdir_body canon mode)"
| "vfs_body opens (unlink_body opens canon)"
| "vfs_body opens (rmdir_body opens canon)"
| "vfs_body opens (link_body ocanon ncanon)"
| "vfs_body opens (rename_body opens ocanon ncanon)"

lemma vfs_path_norm_neg: "vfs_path_norm path n = Inl rc \<Longrightarrow> rc < 0"
  by (auto simp: vfs_path_norm_def norm_loop_spec norm_spec_def split: option.splits if_splits)

lemma vfs_path_norm_nonzero: "vfs_path_norm path n = Inl rc \<Longrightarrow> rc \<noteq> 0"
  by (drule vfs_path_norm_neg) simp

lemma vfs_exec_cases:
  assumes "vfs_exec call s = Some (rc, s')"
  obtains (early) "s' = s" "rc \<noteq> 0" | (body) m where "vfs_body (vf_opens (vs_files s)) m" "locked m s = Some (rc, s')"
proof (cases call)
  case (Vfs_mkdir path mode)
  show thesis using assms that(1) that(2) [OF vfs_body.intros(1)]
    by (auto simp: Vfs_mkdir vfs_mkdir_def split: sum.splits if_splits dest: vfs_path_norm_nonzero)
next
  case (Vfs_unlink path)
  show thesis using assms that(1) that(2) [OF vfs_body.intros(2)]
    by (auto simp: Vfs_unlink vfs_unlink_def split: sum.splits if_splits dest: vfs_path_norm_nonzero)
next
  case (Vfs_rmdir path)
  show thesis using assms that(1) that(2) [OF vfs_body.intros(3)]
    by (auto simp: Vfs_rmdir vfs_rmdir_def split: sum.splits if_splits dest: vfs_path_norm_nonzero)
next
  case (Vfs_link oldpath newpath)
  show thesis using assms that(1) that(2) [OF vfs_body.intros(4)]
    by (auto simp: Vfs_link vfs_link_def split: sum.splits if_splits dest: vfs_path_norm_nonzero)
next
  case (Vfs_rename oldpath newpath)
  show thesis using assms that(1) that(2) [OF vfs_body.intros(5)]
    by (auto simp: Vfs_rename vfs_rename_def split: sum.splits if_splits dest: vfs_path_norm_nonzero)
qed

text \<open>What the values returned by a computation satisfy.\<close>

definition gives :: "('a \<Rightarrow> bool) \<Rightarrow> ('c, 'a) gfs_m \<Rightarrow> bool" where
  "gives P m \<longleftrightarrow> (\<forall>fs x fs'. m fs = Some (Inr x, fs') \<longrightarrow> P x)"

named_theorems gives_intros \<open>values returned by a computation\<close>

lemma givesD: "gives P m \<Longrightarrow> m fs = Some (Inr x, fs') \<Longrightarrow> P x"
  by (auto simp: gives_def)

lemma gives_mono: "gives P m \<Longrightarrow> (\<And>x. P x \<Longrightarrow> Q x) \<Longrightarrow> gives Q m"
  by (auto simp: gives_def)

lemma gives_bind [gives_intros]: "(\<And>x. gives P (f x)) \<Longrightarrow> gives P (gbind m f)"
  unfolding gives_def by (auto simp: gbind_Some_iff)

lemma gives_bind_with: "gives Q m \<Longrightarrow> (\<And>x. Q x \<Longrightarrow> gives P (f x)) \<Longrightarrow> gives P (gbind m f)"
  unfolding gives_def by (fastforce simp: gbind_Some_iff)

lemma gives_seq [gives_intros]: "gives P k \<Longrightarrow> gives P (gseq m k)"
  unfolding gives_def by (auto simp: gseq_Some_iff)

lemma gives_ret [gives_intros]: "P x \<Longrightarrow> gives P (gret x)"
  by (simp add: gives_def gret_def)

lemma gives_fail [gives_intros]: "gives P (gfail e)"
  by (simp add: gives_def gfail_def)

lemma gives_get [gives_intros]: "(\<And>fs. gives P (f fs)) \<Longrightarrow> gives P (gget f)"
  by (auto simp: gives_def gget_def)

lemma gives_if [gives_intros]: "gives P a \<Longrightarrow> gives P b \<Longrightarrow> gives P (if c then a else b)"
  by simp

lemma gives_case_sum [gives_intros]:
  "(\<And>y. gives P (a y)) \<Longrightarrow> (\<And>y. gives P (b y)) \<Longrightarrow> gives P (case x of Inl y \<Rightarrow> a y | Inr y \<Rightarrow> b y)"
  by (cases x) auto

lemma gives_case_sum_with:
  "(\<And>y. x = Inl y \<Longrightarrow> gives P (a y)) \<Longrightarrow> (\<And>y. x = Inr y \<Longrightarrow> gives P (b y)) \<Longrightarrow> gives P (case x of Inl y \<Rightarrow> a y | Inr y \<Rightarrow> b y)"
  by (cases x) auto

lemma gives_case_prod [gives_intros]: "(\<And>y z. gives P (a y z)) \<Longrightarrow> gives P (case x of (y, z) \<Rightarrow> a y z)"
  by (cases x) auto

lemma gives_try [gives_intros]: "gives Q m \<Longrightarrow> gives (\<lambda>r. case r of Inl _ \<Rightarrow> True | Inr x \<Rightarrow> Q x) (gtry m)"
  by (auto simp: gives_def gtry_def split: sum.split)

lemma gfs_errno_neg: "gfs_errno e < 0"
  by (cases e) simp_all

context block_dev
begin

lemma keeps_reads [keeps_intros]:
  "keeps T fs0 (gfs_node_get nid)" "keeps T fs0 (gfs_lookup dir name)" "keeps T fs0 (gfs_resolve path)"
  "keeps T fs0 (gfs_edge_get nid index)"
  unfolding gfs_node_get_def gfs_lookup_def gfs_resolve_def gfs_edge_get_def
  by (intro keeps_intros keeps_map_load keeps_resolve_walk keeps_edge_get_loop)+

lemma keeps_locate [keeps_intros]: "keeps T fs0 (gfs_locate canon)"
  unfolding gfs_locate_def by (intro keeps_intros)

lemma keeps_rename_target_busy [keeps_intros]: "keeps T fs0 (rename_target_busy opens odir oname ndir nname)"
  unfolding rename_target_busy_def by (intro keeps_intros)

lemma frame_none:
  assumes "frame (\<lambda>_. False) fs0 fs1"
  shows "log (g_ctx fs1) = log (g_ctx fs0)" "disk (g_ctx fs1) = disk (g_ctx fs0)" "live fs1 = live fs0"
proof -
  obtain ws where ws: "live fs1 = live fs0" "log (g_ctx fs1) = log (g_ctx fs0) @ ws"
    "disk (g_ctx fs1) = apply_writes ws (disk (g_ctx fs0))" "\<forall>w \<in> set ws. False" using assms unfolding frame_def by blast
  then have "ws = []" by (cases ws) auto
  then show "log (g_ctx fs1) = log (g_ctx fs0)" "disk (g_ctx fs1) = disk (g_ctx fs0)" "live fs1 = live fs0"
    using ws by simp_all
qed

text \<open>A computation whose result 0 stands for success.\<close>

definition acts :: "'c gfs \<Rightarrow> ('c, int) gfs_m \<Rightarrow> bool" where
  "acts fs0 m \<longleftrightarrow> (\<forall>fs r fs'. frame (cow_target fs0) fs0 fs \<longrightarrow> m fs = Some (r, fs') \<longrightarrow>
     outcome fs0 (if r = Inr 0 then Inr () else Inl GFS_EIO) fs')"

lemma acts_keeps: "keeps (cow_target fs0) fs0 m \<Longrightarrow> acts fs0 m"
  unfolding acts_def keeps_def using frame_outcome frame_quiet by blast

lemma acts_ends: "ends fs0 m \<Longrightarrow> acts fs0 (gbind m (\<lambda>_. gret 0))"
  unfolding acts_def
proof (intro allI impI)
  fix fs r fs' assume m: "ends fs0 m" and f: "frame (cow_target fs0) fs0 fs" and run: "gbind m (\<lambda>_. gret 0) fs = Some (r, fs')"
  then obtain q where q: "m fs = Some (q, fs')" "isl q = isl (if r = Inr 0 then Inr () else Inl GFS_EIO)"
    by (auto simp: gbind_Some_iff gret_def)
  then have "outcome fs0 q fs'" using m f by (auto simp: ends_def)
  then show "outcome fs0 (if r = Inr 0 then Inr () else Inl GFS_EIO) fs'" using q(2) by (rule outcome_isl)
qed

lemma acts_bind:
  assumes "keeps (cow_target fs0) fs0 m" "\<And>x. acts fs0 (f x)"
  shows "acts fs0 (gbind m f)"
  unfolding acts_def
proof (intro allI impI)
  fix fs r fs' assume fr: "frame (cow_target fs0) fs0 fs" and run: "gbind m f fs = Some (r, fs')"
  then consider (err) e where "m fs = Some (Inl e, fs')" "r = Inl e"
    | (ok) x fs1 where "m fs = Some (Inr x, fs1)" "f x fs1 = Some (r, fs')" by (auto simp: gbind_Some_iff)
  then show "outcome fs0 (if r = Inr 0 then Inr () else Inl GFS_EIO) fs'"
  proof cases
    case err
    then show ?thesis using frame_outcome [OF frame_quiet [OF keepsD [OF assms(1) fr err(1)]]] by simp
  next
    case ok
    then show ?thesis using assms(2) keepsD [OF assms(1) fr ok(1)] by (auto simp: acts_def)
  qed
qed

lemma acts_if: "acts fs0 a \<Longrightarrow> acts fs0 b \<Longrightarrow> acts fs0 (if c then a else b)"
  by simp

lemma acts_case_prod: "(\<And>y z. acts fs0 (a y z)) \<Longrightarrow> acts fs0 (case x of (y, z) \<Rightarrow> a y z)"
  by (cases x) auto

lemma acts_exec:
  assumes "gfs_on_disk (disk (g_ctx fs0)) fs0" "g_generation fs0 + 1 < 2 ^ 64"
  shows "acts fs0 (gseq (gfs_unlink dir name) (gret 0))"
    "acts fs0 (gseq (gfs_link dir name target typ) (gret 0))"
    "acts fs0 (gseq (gfs_rename odir oname dir name) (gret 0))"
    "acts fs0 (gbind (gfs_create_at dir name typ mode) (\<lambda>_. gret 0))"
proof -
  have "acts fs0 (gseq m (gret 0))" if "acts fs0 (gbind (gseq m (gret (0 :: nat))) (\<lambda>_. gret 0))" for m
  proof -
    have "gbind (gseq m (gret (0 :: nat))) (\<lambda>_. gret 0) = (gseq m (gret 0) :: ('c, int) gfs_m)"
      by (rule ext) (auto simp: gseq_def gbind_def gret_def split: Option.bind_split sum.splits)
    then show ?thesis using that by simp
  qed
  note ret = this
  note ex = acts_ends [OF gfs_exec_ends [OF assms]]
  show "acts fs0 (gseq (gfs_unlink dir name) (gret 0))" by (rule ret) (use ex [of "Call_unlink dir name"] in simp)
  show "acts fs0 (gseq (gfs_link dir name target typ) (gret 0))"
    by (rule ret) (use ex [of "Call_link dir name target typ"] in simp)
  show "acts fs0 (gseq (gfs_rename odir oname dir name) (gret 0))"
    by (rule ret) (use ex [of "Call_rename odir oname dir name"] in simp)
  show "acts fs0 (gbind (gfs_create_at dir name typ mode) (\<lambda>_. gret 0))"
    using ex [of "Call_create_at dir name typ mode"] by simp
qed

lemma acts_body:
  assumes on: "gfs_on_disk (disk (g_ctx fs0)) fs0" "g_generation fs0 + 1 < 2 ^ 64" and b: "vfs_body opens m"
  shows "acts fs0 m"
  using b
  by (rule vfs_body.cases; hypsubst; unfold mkdir_body_def unlink_body_def rmdir_body_def link_body_def rename_body_def)
    (rule acts_exec [OF on] acts_case_prod acts_if acts_bind keeps_intros acts_keeps)+

lemma vfs_exec_outcome:
  assumes d: "dinv (g_ctx fs0)" "g_ops fs0 = ops" and on: "gfs_on_disk (disk (g_ctx fs0)) fs0"
    and gen: "g_generation fs0 + 1 < 2 ^ 64"
    and root: "vs_root s = Some fs0" and run: "vfs_exec call s = Some (rc, s')"
  obtains fs1 where "s' = s\<lparr>vs_root := Some fs1\<rparr>" "outcome fs0 (if rc = 0 then Inr () else Inl GFS_EIO) fs1"
  using run
proof (cases rule: vfs_exec_cases)
  case early
  have "outcome fs0 (if rc = 0 then Inr () else Inl GFS_EIO) fs0" by (rule frame_outcome [OF frame_refl [OF d(2,1)]])
  then show thesis using that [of fs0] early root by simp
next
  case (body m)
  then obtain r fs1 where r: "m fs0 = Some (r, fs1)" "rc = (case r of Inl e \<Rightarrow> gfs_errno e | Inr rc \<Rightarrow> rc)"
    "s' = s\<lparr>vs_root := Some fs1\<rparr>" using root by (auto simp: locked_def)
  have "outcome fs0 (if r = Inr 0 then Inr () else Inl GFS_EIO) fs1"
    using acts_body [OF on gen body(1)] frame_refl [OF d(2,1)] r(1) unfolding acts_def by blast
  moreover have "r = Inr 0 \<longleftrightarrow> rc = 0" using gfs_errno_neg r(2) by (cases r) (auto simp: less_le)
  ultimately show thesis using that r(3) by simp
qed

end

text \<open>
  C18. A namespace call is at most one transaction. On any block device with a mounted graphfs,
  whatever \<^verbatim>\<open>mkdir\<close>, \<^verbatim>\<open>unlink\<close>, \<^verbatim>\<open>rmdir\<close>, \<^verbatim>\<open>link\<close> or \<^verbatim>\<open>rename\<close> does, the open files stay as they were and
  the device writes are writes to free blocks and to the inactive bitmap, followed by at most one
  write of the inactive superblock. When the call does not return 0, the live file system is the
  old one; when it returns 0 and the superblock was written, the disk holds the new file system,
  one generation later.
\<close>

theorem vfs_call_transaction:
  assumes "block_dev ops disk log dinv" "dinv (g_ctx fs0)" "g_ops fs0 = ops"
    and "gfs_on_disk (disk (g_ctx fs0)) fs0" "g_generation fs0 + 1 < 2 ^ 64"
    and "vs_root s = Some fs0" "vfs_exec call s = Some (rc, s')"
  shows "\<exists>fs1 ws1 ws2. s' = s\<lparr>vs_root := Some fs1\<rparr> \<and> log (g_ctx fs1) = log (g_ctx fs0) @ ws1 @ ws2
    \<and> (\<forall>(lba, blk) \<in> set ws1. cow_target fs0 lba
         \<or> (\<exists>j < g_bitmap_blocks fs0. lba = bitmap_lba fs0 ((g_generation fs0 + 1) mod 2) j))
    \<and> (ws2 = [] \<or> (\<exists>blk. ws2 = [((g_generation fs0 + 1) mod 2, blk)]))
    \<and> (if rc = 0 \<and> ws2 \<noteq> [] then gfs_on_disk (disk (g_ctx fs1)) fs1 \<and> g_generation fs1 = g_generation fs0 + 1
       else live fs1 = live fs0)"
proof -
  obtain fs1 where s': "s' = s\<lparr>vs_root := Some fs1\<rparr>"
    and out: "block_dev.outcome ops disk log dinv fs0 (if rc = 0 then Inr () else Inl GFS_EIO) fs1"
    by (rule block_dev.vfs_exec_outcome [OF assms])
  from out obtain ws where ws: "log (g_ctx fs1) = log (g_ctx fs0) @ ws"
    and c: "live fs1 = live fs0 \<and> (\<forall>w \<in> set ws. quiet_target fs0 (fst w))
      \<or> (\<exists>ws1 blk. ws = ws1 @ [((g_generation fs0 + 1) mod 2, blk)] \<and> (\<forall>w \<in> set ws1. quiet_target fs0 (fst w))
         \<and> (rc \<noteq> 0 \<and> live fs1 = live fs0
            \<or> rc = 0 \<and> gfs_on_disk (disk (g_ctx fs1)) fs1 \<and> g_generation fs1 = g_generation fs0 + 1))"
    unfolding block_dev.outcome_def [OF assms(1)] by (cases "rc = 0") auto
  from c show ?thesis
  proof (elim disjE exE conjE)
    assume "live fs1 = live fs0" "\<forall>w \<in> set ws. quiet_target fs0 (fst w)"
    then show ?thesis using s' ws unfolding quiet_target_def
      by (intro exI [of _ fs1] exI [of _ ws] exI [of _ "[]"]) auto
  next
    fix ws1 blk assume a: "ws = ws1 @ [((g_generation fs0 + 1) mod 2, blk)]" "\<forall>w \<in> set ws1. quiet_target fs0 (fst w)"
      "rc \<noteq> 0" "live fs1 = live fs0"
    then show ?thesis using s' ws unfolding quiet_target_def
      by (intro exI [of _ fs1] exI [of _ ws1] exI [of _ "[((g_generation fs0 + 1) mod 2, blk)]"]) auto
  next
    fix ws1 blk assume a: "ws = ws1 @ [((g_generation fs0 + 1) mod 2, blk)]" "\<forall>w \<in> set ws1. quiet_target fs0 (fst w)"
      "rc = 0" "gfs_on_disk (disk (g_ctx fs1)) fs1" "g_generation fs1 = g_generation fs0 + 1"
    then show ?thesis using s' ws unfolding quiet_target_def
      by (intro exI [of _ fs1] exI [of _ ws1] exI [of _ "[((g_generation fs0 + 1) mod 2, blk)]"]) auto
  qed
qed


text \<open>Looking for a name in the empty root of the formatted disk of 64 blocks.\<close>

definition fresh_like :: "ramdisk block_layer gfs \<Rightarrow> bool" where
  "fresh_like fs \<longleftrightarrow> ram_raw.cached.ready 64 fs \<and> g_total_blocks fs = 64 \<and> g_node_count fs = 64 \<and> g_root_node fs = 1
     \<and> g_nodemap fs = \<lparr>bp_phys = 4, bp_crc = unat (crc32c (mkfs_node_map 5))\<rparr>
     \<and> ram_content (bl_dev (g_ctx fs)) 4 = mkfs_node_map 5 \<and> ram_content (bl_dev (g_ctx fs)) 5 = mkfs_root_table"

lemma fresh_map_load:
  assumes f: "fresh_like fs"
  shows "\<exists>fs'. map_load fs = Some (Inr (), fs') \<and> fresh_like fs' \<and> g_map fs' = mkfs_node_map 5"
proof -
  have r: "ram_raw.cached.ready 64 fs" using f by (simp add: fresh_like_def)
  have "runs fs map_load (\<lambda>_ fs'. fresh_like fs' \<and> g_map fs' = mkfs_node_map 5)"
    unfolding map_load_def
    by (rule runs_get, rule runs_bind, rule ram_raw.cached.runs_read_meta [OF r], use f in \<open>simp add: fresh_like_def\<close>,
        use f in \<open>simp add: fresh_like_def\<close>, rule runs_ret)
      (use f in \<open>simp add: fresh_like_def ram_raw.cached.ready_def\<close>)
  then show ?thesis by (auto elim!: runsE)
qed

lemma fresh_root_read:
  assumes f: "fresh_like fs" "g_map fs = mkfs_node_map 5"
  shows "\<exists>fs'. node_read 1 fs = Some (Inr mkfs_root, fs')"
proof -
  have r: "ram_raw.cached.ready 64 fs" using f by (simp add: fresh_like_def)
  have e: "map_get fs 0 = \<lparr>bp_phys = 5, bp_crc = unat (crc32c mkfs_root_table)\<rparr>"
    using mkfs_node_map_entry [of 5 0] f(2) by (simp add: map_get_eq)
  have "node_ok mkfs_root"
    by (simp add: node_ok_def mkfs_root_def zero_node_def zero_extent_def ext_ok_def bp_ok_def list_all_length)
  then have d: "node_decode (bslice 256 256 mkfs_root_table) = mkfs_root" using node_codec by (simp add: mkfs_root_table_def)
  have "runs fs (node_read 1) (\<lambda>n _. n = mkfs_root)"
    unfolding node_read_def
    by (rule runs_get) (use f in \<open>simp add: fresh_like_def e\<close>,
      intro runs_bind ram_raw.cached.runs_read_meta [OF r], simp_all add: f(1) [unfolded fresh_like_def] runs_get runs_ret d)
  then show ?thesis by (auto elim!: runsE)
qed

theorem vfs_call_transaction_witness:
  "\<exists>fs0 s'. fresh_fs fs0 \<and> vfs_exec (Vfs_unlink (Some (cstr ''/a''))) \<lparr>vs_root = Some fs0, vs_files = no_files\<rparr> = Some (- ENOENT, s')
    \<and> map_option live (vs_root s') = Some (live fs0)"
proof -
  let ?s = "\<lambda>fs :: ramdisk block_layer gfs. \<lparr>vs_root = Some fs, vs_files = no_files\<rparr>"
  obtain fs0 where f: "fresh_fs fs0" "block_ok (ram_bdev 64) ram_content (ram_ok 64) (g_ctx fs0)"
    "g_ops fs0 = GDEV_OPS (ram_bdev 64)" "live fs0 = live (mkfs_view RAM_OPS (ramdisk_new 64) 64 64)"
    "gfs_on_disk (ram_content (bl_dev (g_ctx fs0))) fs0"
    "ram_content (bl_dev (g_ctx fs0)) 4 = mkfs_node_map 5" "ram_content (bl_dev (g_ctx fs0)) 5 = mkfs_root_table"
    using fresh_fs_ex by blast
  note v = fresh_fs_facts [OF f(4)]
  have r: "ram_raw.cached.ready 64 fs0"
    unfolding ram_raw.cached.ready_def using f(2,3) v(1) by (simp add: ram_bdev_def)
  have "bp_crc (g_nodemap fs0) = unat (crc32c (mkfs_node_map 5))" using on_disk_facts(9) [OF f(5)] v(4) f(6) by simp
  then have l0: "fresh_like fs0"
    using r f(6,7) v(1,3,4) geom_facts(6) [OF on_disk_facts(1) [OF f(5)]] by (cases "g_nodemap fs0") (simp add: fresh_like_def)
  have sp: "path_split (cstr ''/a'') = ([SLASH], [97])" by code_simp
  have n: "vfs_path_norm (Some (cstr ''/a'')) VFS_PATH_MAX = Inr (cstr ''/a'')" by code_simp
  obtain fs1 where m1: "map_load fs0 = Some (Inr (), fs1)" "fresh_like fs1" using fresh_map_load [OF l0] by blast
  have res: "gfs_resolve [SLASH] fs0 = Some (Inr 1, fs1)"
    using m1 by (simp add: gfs_resolve_def gseq_def gbind_def gget_def fresh_like_def, subst gfs_resolve_walk.simps) (simp add: gret_def)
  obtain fs2 where m2: "map_load fs1 = Some (Inr (), fs2)" "fresh_like fs2" "g_map fs2 = mkfs_node_map 5"
    using fresh_map_load [OF m1(2)] by blast
  obtain fs3 where n1: "node_read 1 fs2 = Some (Inr mkfs_root, fs3)" using fresh_root_read [OF m2(2,3)] by blast
  have "edge_lookup mkfs_root [97] 1 fs3 = Some (Inl GFS_ENOENT, fs3)"
    unfolding edge_lookup_def by (subst edge_lookup_loop.simps) (simp add: mkfs_root_def zero_node_def gfail_def)
  then have "gfs_lookup 1 [97] fs1 = Some (Inl GFS_ENOENT, fs3)"
    using m2 n1 by (simp add: gfs_lookup_def name_len_ok_def Let_def gseq_def gbind_def gret_def gfail_if_def mkfs_root_def)
  then have run: "vfs_exec (Vfs_unlink (Some (cstr ''/a''))) (?s fs0) = Some (- ENOENT, ?s fs3)"
    using res by (simp add: vfs_unlink_def n locked_def unlink_body_def gfs_locate_def sp gbind_def)
      (simp add: cstr_def DEV_def on_devfs_def)
  have "g_generation fs0 + 1 < 2 ^ 64" using v(2) by simp
  from vfs_call_transaction [OF ram_raw.cached_block_dev f(2,3,5) this _ run] show ?thesis
    using f(1) run by auto
qed

section \<open>Devfs\<close>

text \<open>
  C24. Devfs is immutable: a namespace call with a path on devfs fails with the documented error and
  leaves the whole state as it was, whatever the other path of a \<^verbatim>\<open>link\<close> or \<^verbatim>\<open>rename\<close> is.
\<close>

theorem vfs_devfs_immutable:
  assumes "vfs_path_norm path VFS_PATH_MAX = Inr canon" "on_devfs canon" "vfs_path_norm other VFS_PATH_MAX = Inr ocanon"
  shows "vfs_mkdir path mode s = Some (if canon = DEV then - EEXIST else - EPERM, s)
    \<and> vfs_unlink path s = Some (if canon = DEV then - EISDIR else - EPERM, s)
    \<and> vfs_rmdir path s = Some (if canon = DEV then - EBUSY else - EPERM, s)
    \<and> vfs_link path other s = Some (if on_devfs ocanon then - EPERM else - EXDEV, s)
    \<and> vfs_link other path s = Some (if on_devfs ocanon then - EPERM else - EXDEV, s)
    \<and> vfs_rename path other s = Some (if canon = DEV \<or> ocanon \<in> {[SLASH], DEV} then - EBUSY
         else if on_devfs ocanon then - EPERM else - EXDEV, s)
    \<and> vfs_rename other path s = Some (if canon = DEV \<or> ocanon \<in> {[SLASH], DEV} then - EBUSY
         else if on_devfs ocanon then - EPERM else - EXDEV, s)"
proof -
  have "canon \<noteq> [SLASH]" using assms(2) by (auto simp: on_devfs_def DEV_def cstr_def)
  then show ?thesis using assms by (auto simp: vfs_mkdir_def vfs_unlink_def vfs_rmdir_def vfs_link_def vfs_rename_def)
qed

theorem vfs_devfs_immutable_witness:
  "vfs_rename (Some (cstr ''/tmp/../dev//console'')) (Some (cstr ''/x''))
     \<lparr>vs_root = None :: ramdisk gfs option, vs_files = no_files\<rparr> = Some (- EXDEV, \<lparr>vs_root = None, vs_files = no_files\<rparr>)"
proof -
  have n: "vfs_path_norm (Some (cstr ''/tmp/../dev//console'')) VFS_PATH_MAX = Inr (cstr ''/dev/console'')"
    "vfs_path_norm (Some (cstr ''/x'')) VFS_PATH_MAX = Inr (cstr ''/x'')" by code_simp+
  have d: "on_devfs (cstr ''/dev/console'')" "\<not> on_devfs (cstr ''/x'')" by code_simp+
  show ?thesis
    using vfs_devfs_immutable [OF n(1) d(1) n(2), where mode = 0 and s = "\<lparr>vs_root = None :: ramdisk gfs option, vs_files = no_files\<rparr>"] d(2)
    by (simp add: cstr_def DEV_def)
qed

section \<open>Opening\<close>

lemma vfs_open_cases [consumes 1, case_names early dev gfs]:
  assumes run: "vfs_open mem path flags mode s = Some (r, s')"
    and early: "\<And>e. r = Inl e \<Longrightarrow> e < 0 \<Longrightarrow> s' = s \<Longrightarrow> thesis"
    and dev: "\<And>rel vf. devfs_open mem rel flags (vs_files s) = (r, vf) \<Longrightarrow> s' = s\<lparr>vs_files := vf\<rparr> \<Longrightarrow> thesis"
    and gfs: "\<And>canon. gfs_open mem canon flags mode s = Some (r, s') \<Longrightarrow> thesis"
  shows thesis
proof -
  have cases: thesis if "(if c1 then Some (Inl (- EINVAL), s) else if c2 then Some (Inl (- EINVAL), s) else
      case norm of Inl rc \<Rightarrow> Some (Inl rc, s)
      | Inr canon \<Rightarrow> if c3 canon then (case devfs_open mem (f canon) flags (vs_files s) of (r, vf) \<Rightarrow> Some (r, s\<lparr>vs_files := vf\<rparr>))
          else gfs_open mem canon flags mode s) = Some (r, s')" "\<And>rc. norm = Inl rc \<Longrightarrow> rc < 0" for c1 c2 c3 f norm
  proof (cases "c1 \<or> c2")
    case True
    then show thesis using that(1) by (intro early [of "- EINVAL"]) (auto split: if_splits)
  next
    case False
    show thesis
    proof (cases norm)
      case (Inl rc)
      then show thesis using that False by (intro early [of rc]) auto
    next
      case (Inr canon)
      then show thesis using that(1) False dev [of "f canon"] gfs [of canon] by (auto split: if_splits prod.splits)
    qed
  qed
  show thesis by (rule cases [OF run [unfolded vfs_open_def] vfs_path_norm_neg])
qed

lemma devfs_open_ok:
  assumes ok: "files_ok vf" and fresh: "\<And>a. mem = Some a \<Longrightarrow> vf_file vf a = None"
    and run: "devfs_open mem rel flags vf = (r, vf')"
  shows "files_ok vf' \<and> (case r of Inl e \<Rightarrow> e < 0 \<and> vf' = vf | Inr a \<Rightarrow> mem = Some a \<and> refs_of vf' = (refs_of vf)(a := 1))"
proof -
  consider "vf' = vf" "\<exists>e < 0. r = Inl e"
    | a ops node where "mem = Some a" "r = Inr a" "file_alloc (Some a) ops node flags vf = (Some a, vf')"
        "ops = DIR_OPS \<or> ops = CON_OPS"
    using run unfolding devfs_open_def Let_def
    by (cases mem) (auto simp: file_alloc_def split: if_splits)
  then show ?thesis
  proof cases
    case 1
    then show ?thesis using ok by auto
  next
    case (2 a ops node)
    then show ?thesis using file_alloc_other_ok [OF ok fresh 2(3)] by auto
  qed
qed

lemma open_check_gives: "gives (\<lambda>x. case x of Inl e \<Rightarrow> e < 0 | Inr (ops, _) \<Rightarrow> ops = GFS_FILE_OPS \<or> ops = GFS_DIR_OPS) (open_check flags nid node)"
  unfolding open_check_def by (intro gives_intros) simp_all

lemma open_body_gives: "gives (\<lambda>x. case x of Inl e \<Rightarrow> e < 0 | Inr (ops, _) \<Rightarrow> ops = GFS_FILE_OPS \<or> ops = GFS_DIR_OPS) (open_body canon flags mode)"
  unfolding open_body_def by (intro gives_intros open_check_gives) simp

lemma gfs_open_ok:
  assumes ok: "files_ok (vs_files s)" and fresh: "\<And>a. mem = Some a \<Longrightarrow> vf_file (vs_files s) a = None"
    and room: "card (dom (vf_file (vs_files s))) + 1 < 2 ^ 32"
    and run: "gfs_open mem canon flags mode s = Some (r, s')"
  shows "files_ok (vs_files s') \<and> (case r of Inl e \<Rightarrow> e < 0 \<and> vs_files s' = vs_files s
      | Inr a \<Rightarrow> mem = Some a \<and> refs_of (vs_files s') = (refs_of (vs_files s))(a := 1))"
proof (cases "vs_root s")
  case None
  then show ?thesis using run ok by (auto simp: gfs_open_def)
next
  case (Some fs)
  then obtain q fs' where b: "open_body canon flags mode fs = Some (q, fs')" using run by (auto simp: gfs_open_def)
  show ?thesis
  proof (cases "\<exists>ops nid a. q = Inr (Inr (ops, nid)) \<and> mem = Some a")
    case True
    then obtain ops nid a where q: "q = Inr (Inr (ops, nid))" "mem = Some a" by blast
    then have s': "gfs_open_file (Some a) ops nid flags (vs_files s) = (r, vs_files s')"
      using run b Some by (auto simp: gfs_open_def Let_def split: prod.splits)
    show ?thesis
      using gfs_open_file_ok [OF ok fresh [OF q(2)] room _ s'] q givesD [OF open_body_gives b [unfolded q(1)]] by simp
  next
    case False
    then have "vs_files s' = vs_files s \<and> (\<exists>e < 0. r = Inl e)"
      using run b Some gfs_errno_neg givesD [OF open_body_gives, of canon flags mode fs _ fs']
      by (auto simp: gfs_open_def Let_def gfs_open_file_def file_alloc_def split: sum.splits option.splits)
    then show ?thesis using ok by auto
  qed
qed

text \<open>
  C20. Opening keeps the open-file accounting exact. Whatever \<^verbatim>\<open>open\<close> does, for every path, flags and
  outcome of the file system, the count of open descriptions of each graphfs node stays the number
  of live descriptions of it; an error is a negative errno and leaves the descriptions as they were,
  and a success adds exactly one description, with one reference.
\<close>

theorem vfs_open_accounting:
  assumes "files_ok (vs_files s)" "\<And>a. mem = Some a \<Longrightarrow> vf_file (vs_files s) a = None"
    and "card (dom (vf_file (vs_files s))) + 1 < 2 ^ 32"
    and "vfs_open mem path flags mode s = Some (r, s')"
  shows "files_ok (vs_files s') \<and> (case r of Inl e \<Rightarrow> e < 0 \<and> vs_files s' = vs_files s
      | Inr a \<Rightarrow> mem = Some a \<and> refs_of (vs_files s') = (refs_of (vs_files s))(a := 1))"
proof -
  show ?thesis using assms(4)
  proof (cases rule: vfs_open_cases)
    case early
    then show ?thesis using assms(1) by simp
  next
    case dev
    then show ?thesis using devfs_open_ok [OF assms(1,2) dev(1)] by (cases r) auto
  next
    case gfs
    show ?thesis by (rule gfs_open_ok [OF assms(1) _ assms(3) gfs]) (rule assms(2))
  qed
qed

theorem vfs_open_accounting_witness:
  "\<exists>s'. vfs_open (Some 9) (Some (cstr ''/dev/console'')) 2 0
       \<lparr>vs_root = None :: ramdisk gfs option, vs_files = no_files\<rparr> = Some (Inr 9, s')
    \<and> files_ok (vs_files s') \<and> refs_of (vs_files s') 9 = 1"
proof -
  let ?s = "\<lparr>vs_root = None, vs_files = no_files\<rparr> :: ramdisk vfs"
  have "vfs_path_norm (Some (cstr ''/dev/console'')) VFS_PATH_MAX = Inr (cstr ''/dev/console'')" by code_simp
  then have "\<exists>s'. vfs_open (Some 9) (Some (cstr ''/dev/console'')) 2 0 ?s = Some (Inr 9, s')"
    by (simp add: vfs_open_def DEV_def cstr_def has_flag_def devfs_open_def file_alloc_def)
  then obtain s' where s': "vfs_open (Some 9) (Some (cstr ''/dev/console'')) 2 0 ?s = Some (Inr 9, s')" by blast
  have "files_ok (vs_files ?s)" by (simp add: no_files_def files_ok_def open_files_def)
  then show ?thesis using vfs_open_accounting [OF _ _ _ s'] s' by (auto simp: no_files_def)
qed

section \<open>Reading a directory\<close>

lemma node_read_gives: "gives (\<lambda>n. dn_parent n < 2 ^ 64 \<and> dn_edge_count n < 2 ^ 32) (node_read nid)"
  unfolding node_read_def Let_def
  by (intro gives_intros) (simp_all add: zero_node_def node_decode_def)

lemma gfs_node_get_gives: "gives (\<lambda>n. gn_parent n < 2 ^ 64 \<and> gn_edge_count n < 2 ^ 32) (gfs_node_get nid)"
  unfolding gfs_node_get_def
  by (intro gives_seq gives_bind_with [OF node_read_gives] gives_ret) simp

lemma edge_get_loop_gives:
  "edge_get_loop index running cur (fs :: 'c gfs) = Some (Inr e, fs') \<Longrightarrow> ge_target e < 2 ^ 64 \<and> length (ge_name e) \<le> GFS_NAME_MAX"
proof -
  let ?P = "\<lambda>y :: (gfs_err + gfs_edge) \<times> 'c gfs. \<forall>e. fst y = Inr e \<longrightarrow> ge_target e < 2 ^ 64 \<and> length (ge_name e) \<le> GFS_NAME_MAX"
  assume "edge_get_loop index running cur fs = Some (Inr e, fs')"
  then have "?P (Inr e, fs')"
  proof (rule edge_get_loop.raw_induct [rotated, where P = "\<lambda>_ _ _ _. ?P"], goal_cases)
    case (1 loop index running cur fs y)
    note ih = 1(1)
    show ?case
    proof (intro allI impI)
      fix e assume "fst y = Inr e"
      then obtain fs' where y: "y = (Inr e, fs')" by (cases y) auto
      consider i r c fs1 where "loop i r c fs1 = Some (Inr e, fs')"
        | k n where "e = \<lparr>ge_type = rd32 k ER_TYPE, ge_target = rd64 k ER_TARGET, ge_name = bslice ER_NAME n k\<rparr>" "n \<le> 255"
        using 1(2) unfolding y by (auto simp: gbind_Some_iff gfail_def gret_def split: if_splits)
      then show "ge_target e < 2 ^ 64 \<and> length (ge_name e) \<le> GFS_NAME_MAX"
      proof cases
        case 1
        then show ?thesis using ih [OF 1] by simp
      next
        case 2
        then show ?thesis by (simp add: bslice_def)
      qed
    qed
  qed
  then show ?thesis by simp
qed

lemma gfs_edge_get_gives: "gives (\<lambda>e. ge_target e < 2 ^ 64 \<and> length (ge_name e) \<le> GFS_NAME_MAX) (gfs_edge_get nid index)"
  unfolding gfs_edge_get_def
  by (intro gives_intros) (auto simp: gives_def dest: edge_get_loop_gives)

definition entries :: "nat \<Rightarrow> nat \<Rightarrow> byte list \<Rightarrow> int \<times> nat \<times> byte list \<Rightarrow> bool" where
  "entries len off out = (\<lambda>(rc, off', out'). \<exists>ds. out' = out @ concat (map dirent_bytes ds)
     \<and> (\<forall>d \<in> set ds. dirent_ok d \<and> off < d_off d \<and> d_off d \<le> off') \<and> sorted_wrt (<) (map d_off ds)
     \<and> off \<le> off' \<and> length out' \<le> len \<and> (rc = int (length out') \<or> rc < 0))"

lemma entries_stop: "length out \<le> len \<Longrightarrow> rc = int (length out) \<or> rc < 0 \<Longrightarrow> entries len off out (rc, off, out)"
  unfolding entries_def by (auto intro: exI [of _ "[]"])

lemma entries_skip: "entries len (off + 1) out x \<Longrightarrow> entries len off out x"
  unfolding entries_def by (fastforce split: prod.splits)

lemma entries_emit:
  assumes "entries len (off + 1) (out @ dirent_bytes d) x" "dirent_ok d" "d_off d = off + 1"
  shows "entries len off out x"
proof -
  obtain rc off' out' where x: "x = (rc, off', out')" by (rule prod_cases3)
  then obtain ds where "out' = out @ concat (map dirent_bytes (d # ds))" "\<forall>d \<in> set ds. dirent_ok d \<and> off + 1 < d_off d \<and> d_off d \<le> off'"
    "sorted_wrt (<) (map d_off ds)" "off + 1 \<le> off'" "length out' \<le> len" "rc = int (length out') \<or> rc < 0"
    using assms(1) unfolding entries_def by auto
  then show ?thesis unfolding entries_def x prod.case
    using assms(2,3) by (intro exI [of _ "d # ds"]) (auto simp del: concat.simps)
qed

lemma dirent_emit_Some:
  assumes "dirent_emit n len ino next_off typ name = Some rec"
  shows "\<exists>d. rec = dirent_bytes d \<and> d_off d = next_off \<and> n + length rec \<le> len
    \<and> (ino < 2 ^ 64 \<longrightarrow> next_off < 2 ^ 64 \<longrightarrow> typ < 256 \<longrightarrow> length name \<le> 255 \<longrightarrow> dirent_ok d)"
proof -
  have "length (takeWhile (\<lambda>c. c \<noteq> 0) name) \<le> length name" by (rule length_takeWhile_le)
  moreover have "0 \<notin> set (takeWhile (\<lambda>c. c \<noteq> 0) name)" using set_takeWhileD by fastforce
  ultimately show ?thesis using assms
    by (auto simp: dirent_emit_def Let_def dirent_ok_def split: if_splits
        intro!: exI [of _ "\<lparr>d_ino = ino, d_off = next_off, d_type = typ, d_name = takeWhile (\<lambda>c. c \<noteq> 0) name\<rparr>"])
qed

lemma getdents_loop_gives:
  assumes dir: "nid < 2 ^ 64" "gn_parent dir < 2 ^ 64" "gn_edge_count dir < 2 ^ 32" and out: "length out \<le> len"
  shows "gives (entries len off out) (getdents_loop nid dir len off out :: ('c, _) gfs_m)"
  using out
proof (induction "2 + gn_edge_count dir - off" arbitrary: off out rule: less_induct)
  case less
  let ?stop = "gret (if out = [] then - EINVAL else int (length out), off, out) :: ('c, _) gfs_m"
  have stop: "gives (entries len off out) ?stop"
    by (rule gives_ret, rule entries_stop) (use less.prems in auto)
  have err: "gives (entries len off out) (gret (gfs_errno e, off, out))" for e
    by (rule gives_ret, rule entries_stop) (use less.prems gfs_errno_neg in auto)
  have IH: "gives (entries len (off + 1) out') (getdents_loop nid dir len (off + 1) out' :: ('c, _) gfs_m)"
    if "off < 2 + gn_edge_count dir" "length out' \<le> len" for out'
    by (rule less.hyps) (use that in simp_all)
  have emit: "gives (entries len off out) (case dirent_emit (length out) len ino (off + 1) ty nm of None \<Rightarrow> ?stop
      | Some rec \<Rightarrow> getdents_loop nid dir len (off + 1) (out @ rec))"
    if "ino < 2 ^ 64" "ty < 256" "length nm \<le> 255" "off < 2 + gn_edge_count dir" for ino ty nm
  proof (cases "dirent_emit (length out) len ino (off + 1) ty nm")
    case None
    then show ?thesis using stop by simp
  next
    case (Some rec)
    note nums = that
    obtain d where d: "rec = dirent_bytes d" "d_off d = off + 1" "length (out @ rec) \<le> len" "dirent_ok d"
      using dirent_emit_Some [OF Some] nums dir(3) by auto
    show ?thesis using IH [OF that(4) d(3)] entries_emit [OF _ d(4,2)] d(1) Some by (auto simp: gives_def)
  qed
  consider (dot) "off = 0" | (dots) "off = 1" | (edge) "off \<noteq> 0" "off \<noteq> 1" "off - 2 < gn_edge_count dir"
    | (finished) "off \<noteq> 0" "off \<noteq> 1" "\<not> off - 2 < gn_edge_count dir"
    by blast
  then show ?case
  proof cases
    case dot
    have "getdents_loop nid dir len off out = (case dirent_emit (length out) len nid (off + 1) DT_DIR [DOT] of None \<Rightarrow> ?stop
        | Some rec \<Rightarrow> getdents_loop nid dir len (off + 1) (out @ rec))"
      unfolding dot by (subst getdents_loop.simps) (simp add: Let_def cong: option.case_cong)
    then show ?thesis using emit [of nid DT_DIR "[DOT]"] dir dot by simp
  next
    case dots
    let ?up = "if gn_parent dir \<noteq> 0 then gn_parent dir else nid"
    have "getdents_loop nid dir len off out = (case dirent_emit (length out) len ?up (off + 1) DT_DIR [DOT, DOT] of None \<Rightarrow> ?stop
        | Some rec \<Rightarrow> getdents_loop nid dir len (off + 1) (out @ rec))"
      unfolding dots by (subst getdents_loop.simps) (simp add: Let_def numeral_2_eq_2 cong: option.case_cong)
    then show ?thesis using emit [of ?up DT_DIR "[DOT, DOT]"] dir dots by simp
  next
    case edge
    then have lt: "off < 2 + gn_edge_count dir" by linarith
    have skip: "gives (entries len off out) (getdents_loop nid dir len (off + 1) out :: ('c, _) gfs_m)"
      by (rule gives_mono [OF IH [OF lt less.prems]]) (rule entries_skip)
    show ?thesis
      unfolding getdents_loop.simps [of nid dir len off out] Let_def
      by (simp only: edge if_False if_True)
        (rule gives_bind_with [OF gives_try [OF gfs_edge_get_gives]],
         (rule gives_case_sum_with gives_if gives_bind err skip emit)+, insert lt, simp_all split: if_splits)
  next
    case finished
    then show ?thesis
      by (subst getdents_loop.simps) (use less.prems in \<open>simp add: Let_def gives_ret entries_stop\<close>)
  qed
qed

text \<open>
  C21. What getdents stores can be read back. Whatever the directory holds and whatever the size of
  the buffer, the stored bytes fit the buffer and are a sequence of complete records, which a reader
  that follows the record lengths gets back one by one; their offsets increase strictly from the
  old file offset up to the new one, and the result is the number of bytes or an error.
\<close>

theorem vfs_getdents_records:
  assumes "gfsf_getdents f len fs = Some (Inr (rc, off', buf), fs')" "f_node f < 2 ^ 64"
  shows "length buf \<le> len \<and> (rc = int (length buf) \<or> rc < 0) \<and> f_off f \<le> off'
    \<and> buf = concat (map dirent_bytes (dirents_of buf)) \<and> sorted_wrt (<) (map d_off (dirents_of buf))
    \<and> (\<forall>d \<in> set (dirents_of buf). f_off f < d_off d \<and> d_off d \<le> off')"
proof -
  have "gives (entries len (f_off f) []) (gfsf_getdents f len)"
    unfolding gfsf_getdents_def
    by (intro gives_bind_with [OF gives_try [OF gfs_node_get_gives]])
      (auto intro!: gives_ret entries_stop getdents_loop_gives gfs_errno_neg assms(2) split: sum.splits)
  from givesD [OF this assms(1)] show ?thesis
    by (auto simp: entries_def dirents_of_concat)
qed

text \<open>
  A small file system for examples, on a RAM disk: the root namespace (node 1) with one entry
  \<^verbatim>\<open>a\<close>, a data node (node 2) with one link.
\<close>

definition ex_edges :: "byte list" where
  "ex_edges = bsplice EB_RECORDS (edge_encode GFS_EDGE_NAME [97] 1 2) (wr32 (wr32 (zeros GFS_BLOCK_SIZE) EB_MAGIC GFS_EDGE_MAGIC) EB_COUNT 1)"

definition ex_root :: disk_node where
  "ex_root = mkfs_root\<lparr>dn_edge_count := 1, dn_edge_head := \<lparr>bp_phys = 3, bp_crc = unat (crc32c ex_edges)\<rparr>\<rparr>"

definition ex_leaf :: disk_node where
  "ex_leaf = zero_node\<lparr>dn_type := GFS_NODE_DATA, dn_nlink := 1\<rparr>"

definition ex_table :: "byte list" where
  "ex_table = bsplice 512 (node_encode ex_leaf) (bsplice 256 (node_encode ex_root) (zeros GFS_BLOCK_SIZE))"

definition ex_map :: "byte list" where
  "ex_map = wr32 (wr64 (zeros GFS_BLOCK_SIZE) 0 2) 8 (unat (crc32c ex_table))"

definition ex_fs :: "ramdisk gfs" where
  "ex_fs = (gfs_blank RAM_OPS \<lparr>rd_data = [zeros GFS_BLOCK_SIZE, ex_map, ex_table, ex_edges], rd_nblk = 4, rd_log = []\<rparr>)
     \<lparr>g_total_blocks := 4, g_node_count := 16, g_root_node := 1, g_nodemap := \<lparr>bp_phys = 1, bp_crc = unat (crc32c ex_map)\<rparr>\<rparr>"

lemma crc_less [simp]: "unat (crc32c b) < 4294967296"
  using unsigned_less [of "crc32c b"] by simp

lemma ex_nodes: "node_decode (bslice 256 256 ex_table) = ex_root" "node_decode (bslice 512 256 ex_table) = ex_leaf"
proof -
  have ok: "node_ok ex_root" "node_ok ex_leaf"
    by (simp_all add: ex_root_def ex_leaf_def node_ok_def mkfs_root_def zero_node_def zero_extent_def ext_ok_def bp_ok_def list_all_length)
  have "bslice 256 256 ex_table = node_encode ex_root" "bslice 512 256 ex_table = node_encode ex_leaf"
    by (simp_all add: ex_table_def bslice_def bsplice_def)
  then show "node_decode (bslice 256 256 ex_table) = ex_root" "node_decode (bslice 512 256 ex_table) = ex_leaf"
    using node_codec ok by simp_all
qed

lemma ex_map_entry: "map_entry ex_map 0 = \<lparr>bp_phys = 2, bp_crc = unat (crc32c ex_table)\<rparr>"
  by (simp add: map_entry_def ex_map_def)

definition ex_like :: "ramdisk gfs \<Rightarrow> bool" where
  "ex_like fs \<longleftrightarrow> g_ops fs = RAM_OPS \<and> g_ctx fs = g_ctx ex_fs \<and> g_total_blocks fs = 4 \<and> g_node_count fs = 16
     \<and> g_root_node fs = 1 \<and> g_nodemap fs = g_nodemap ex_fs"

lemma ex_map_load: "ex_like fs \<Longrightarrow> \<exists>fs'. map_load fs = Some (Inr (), fs') \<and> ex_like fs' \<and> g_map fs' = ex_map"
  by (auto simp: map_load_def gget_def read_meta_def bread_def gbind_def gret_def ex_like_def ex_fs_def gfs_blank_def
      RAM_OPS_def rd_read_def)

lemma ex_node_read:
  assumes "ex_like fs" "g_map fs = ex_map"
  shows "\<exists>fs'. node_read 1 fs = Some (Inr ex_root, fs') \<and> ex_like fs' \<and> g_map fs' = ex_map"
    "\<exists>fs'. node_read 2 fs = Some (Inr ex_leaf, fs') \<and> ex_like fs' \<and> g_map fs' = ex_map"
  using assms ex_nodes
  by (auto simp: node_read_def gget_def map_get_eq ex_map_entry read_meta_def bread_def gbind_def gret_def Let_def
      ex_like_def ex_fs_def gfs_blank_def RAM_OPS_def rd_read_def)

lemma ex_edge_record:
  "rd32 ex_edges EB_COUNT = 1" "eb_rec ex_edges 0 = edge_encode GFS_EDGE_NAME [97] 1 2"
proof -
  have "rd32 (bsplice 24 r b) 4 = rd32 b 4" if "length b = 4096" "length r = 272" for r b
    using that by (simp add: rd32_def nth_splice)
  then show "rd32 ex_edges EB_COUNT = 1" by (simp add: ex_edges_def)
  show "eb_rec ex_edges 0 = edge_encode GFS_EDGE_NAME [97] 1 2" by (simp add: ex_edges_def eb_rec_def bslice_def bsplice_def)
qed

lemma ex_read_edges:
  "ex_like fs \<Longrightarrow> read_meta (dn_edge_head ex_root) to_a fs = Some (Inr ex_edges, fs\<lparr>g_a := ex_edges\<rparr>)"
  by (simp add: read_meta_def bread_def gbind_def gret_def ex_like_def ex_fs_def gfs_blank_def RAM_OPS_def rd_read_def ex_root_def)

lemma ex_lookup:
  assumes "ex_like fs"
  shows "\<exists>fs'. edge_lookup ex_root [97] 1 fs = Some (Inr 2, fs') \<and> ex_like fs' \<and> g_map fs' = g_map fs"
proof -
  have "bslice 0 (Suc 0) [97 :: byte] = [97]" by (simp add: bslice_def)
  then have "edge_find [97] 1 ex_edges = Some 2"
    using edge_codec [of 1 2 1 "[97]"] by (simp add: edge_find_def ex_edge_record edge_match_def)
  then have "edge_lookup_loop [97] 1 (dn_edge_head ex_root) fs = Some (Inr 2, fs\<lparr>g_a := ex_edges\<rparr>)"
    by (subst edge_lookup_loop.simps) (simp add: gbind_def ex_read_edges [OF assms] gret_def, simp add: ex_root_def)
  then show ?thesis using assms by (auto simp: edge_lookup_def ex_like_def)
qed

lemma ex_locate:
  "\<exists>fs'. gfs_locate (cstr ''/a'') ex_fs = Some (Inr (1, cstr ''a'', 2, \<lparr>gn_type = GFS_NODE_DATA, gn_mode = 0, gn_size = 0,
     gn_nlink = 1, gn_edge_count = 0, gn_parent = 0\<rparr>), fs')"
proof -
  have sp: "path_split (cstr ''/a'') = ([SLASH], [97])" "cstr ''a'' = [97]" by (code_simp, simp add: cstr_def)
  have l0: "ex_like ex_fs" by (simp add: ex_like_def ex_fs_def gfs_blank_def)
  obtain fs1 where r: "map_load ex_fs = Some (Inr (), fs1)" "ex_like fs1" using ex_map_load [OF l0] by blast
  have res: "gfs_resolve [SLASH] ex_fs = Some (Inr 1, fs1)"
    using r by (simp add: gfs_resolve_def gseq_def gbind_def gget_def ex_like_def, subst gfs_resolve_walk.simps) (simp add: gret_def)
  obtain fs2 where m2: "map_load fs1 = Some (Inr (), fs2)" "ex_like fs2" "g_map fs2 = ex_map" using ex_map_load [OF r(2)] by blast
  obtain fs3 where n1: "node_read 1 fs2 = Some (Inr ex_root, fs3)" "ex_like fs3" "g_map fs3 = ex_map"
    using ex_node_read(1) [OF m2(2,3)] by blast
  obtain fs4 where lk: "edge_lookup ex_root [97] 1 fs3 = Some (Inr 2, fs4)" "ex_like fs4" using ex_lookup [OF n1(2)] by blast
  have look: "gfs_lookup 1 [97] fs1 = Some (Inr 2, fs4)"
    using m2 n1 lk by (simp add: gfs_lookup_def name_len_ok_def Let_def gseq_def gbind_def gret_def gfail_if_def ex_root_def mkfs_root_def)
  obtain fs5 where m5: "map_load fs4 = Some (Inr (), fs5)" "ex_like fs5" "g_map fs5 = ex_map" using ex_map_load [OF lk(2)] by blast
  obtain fs6 where n2: "node_read 2 fs5 = Some (Inr ex_leaf, fs6)" using ex_node_read(2) [OF m5(2,3)] by blast
  have get: "gfs_node_get 2 fs4 = Some (Inr \<lparr>gn_type = GFS_NODE_DATA, gn_mode = 0, gn_size = 0,
     gn_nlink = 1, gn_edge_count = 0, gn_parent = 0\<rparr>, fs6)"
    using m5 n2 by (simp add: gfs_node_get_def gseq_def gbind_def gret_def gfail_if_def ex_leaf_def zero_node_def)
  show ?thesis using res look get by (simp add: gfs_locate_def sp gbind_def gret_def)
qed

text \<open>
  C19. An open node is never removed. When a path leads to a node that some description holds open
  and its last name or the directory itself would go, \<^verbatim>\<open>unlink\<close> and \<^verbatim>\<open>rmdir\<close> both refuse with an error,
  write nothing to the device, and change neither the live file system nor the open files.
\<close>

theorem vfs_open_node_kept:
  assumes "block_dev ops disk log dinv" "dinv (g_ctx fs0)" "g_ops fs0 = ops"
    and "vs_root s = Some fs0" "vfs_path_norm path VFS_PATH_MAX = Inr canon"
    and "gfs_locate canon fs0 = Some (Inr (dir, name, nid, node), fs1)"
    and "0 < vf_opens (vs_files s) nid" "gn_type node = GFS_NODE_NAMESPACE \<or> gn_nlink node = 1"
  shows "\<forall>call \<in> {Vfs_unlink path, Vfs_rmdir path}. \<exists>rc fs'. vfs_exec call s = Some (rc, s\<lparr>vs_root := Some fs'\<rparr>)
    \<and> rc \<in> {- EBUSY, - EISDIR, - ENOTDIR, - EPERM}
    \<and> log (g_ctx fs') = log (g_ctx fs0) \<and> disk (g_ctx fs') = disk (g_ctx fs0) \<and> live fs' = live fs0"
proof -
  have "block_dev.frame ops disk log dinv (\<lambda>_. False) fs0 fs1"
    by (rule block_dev.keepsD [OF assms(1) block_dev.keeps_locate [OF assms(1)]
          block_dev.frame_refl [OF assms(1,3,2)] assms(6)])
  note same = block_dev.frame_none [OF assms(1) this]
  have s: "s\<lparr>vs_root := Some fs0\<rparr> = s" using assms(4) by simp
  define quiet where "quiet x \<longleftrightarrow> (\<exists>rc fs'. x = Some (rc, s\<lparr>vs_root := Some fs'\<rparr>) \<and> rc \<in> {- EBUSY, - EISDIR, - ENOTDIR, - EPERM}
    \<and> log (g_ctx fs') = log (g_ctx fs0) \<and> disk (g_ctx fs') = disk (g_ctx fs0) \<and> live fs' = live fs0)" for x
  have early: "quiet (Some (rc, s))" if "rc \<in> {- EBUSY, - EISDIR, - ENOTDIR, - EPERM}" for rc
    unfolding quiet_def using that s by (intro exI [of _ rc] exI [of _ fs0]) auto
  have late: "quiet (Some (rc, s\<lparr>vs_root := Some fs1\<rparr>))" if "rc \<in> {- EBUSY, - EISDIR, - ENOTDIR, - EPERM}" for rc
    unfolding quiet_def using that same by (intro exI [of _ rc] exI [of _ fs1]) auto
  have "locked (unlink_body (vf_opens (vs_files s)) canon) s
      = Some (if gn_type node = GFS_NODE_NAMESPACE then - EISDIR else - EBUSY, s\<lparr>vs_root := Some fs1\<rparr>)"
    "locked (rmdir_body (vf_opens (vs_files s)) canon) s
      = Some (if gn_type node = GFS_NODE_NAMESPACE then - EBUSY else - ENOTDIR, s\<lparr>vs_root := Some fs1\<rparr>)"
    using assms(6-8) by (auto simp: locked_def unlink_body_def rmdir_body_def gbind_def gret_def assms(4))
  then have "quiet (vfs_unlink path s)" "quiet (vfs_rmdir path s)"
    unfolding vfs_unlink_def vfs_rmdir_def assms(5) sum.case by (simp_all only: split: if_split) (auto intro!: early late)
  then show ?thesis unfolding quiet_def by simp
qed

definition ex_state :: "ramdisk vfs" where
  "ex_state = \<lparr>vs_root = Some ex_fs, vs_files = no_files\<lparr>vf_opens := (\<lambda>_. 0)(2 := 1)\<rparr>\<rparr>"

theorem vfs_open_node_kept_witness:
  "\<exists>rc fs'. vfs_unlink (Some (cstr ''/a'')) ex_state = Some (rc, ex_state\<lparr>vs_root := Some fs'\<rparr>) \<and> rc < 0 \<and> rd_log (g_ctx fs') = []"
proof -
  have n: "vfs_path_norm (Some (cstr ''/a'')) VFS_PATH_MAX = Inr (cstr ''/a'')" by code_simp
  have ok: "ram_ok 4 (g_ctx ex_fs)" "g_ops ex_fs = RAM_OPS" "rd_log (g_ctx ex_fs) = []"
    by (simp_all add: ex_fs_def gfs_blank_def ram_ok_def)
  obtain fs1 where l: "gfs_locate (cstr ''/a'') ex_fs = Some (Inr (1, cstr ''a'', 2, \<lparr>gn_type = GFS_NODE_DATA, gn_mode = 0, gn_size = 0,
     gn_nlink = 1, gn_edge_count = 0, gn_parent = 0\<rparr>), fs1)" using ex_locate by blast
  have "\<forall>call \<in> {Vfs_unlink (Some (cstr ''/a'')), Vfs_rmdir (Some (cstr ''/a''))}. \<exists>rc fs'.
      vfs_exec call ex_state = Some (rc, ex_state\<lparr>vs_root := Some fs'\<rparr>) \<and> rc \<in> {- EBUSY, - EISDIR, - ENOTDIR, - EPERM}
      \<and> rd_log (g_ctx fs') = rd_log (g_ctx ex_fs) \<and> ram_content (g_ctx fs') = ram_content (g_ctx ex_fs) \<and> live fs' = live ex_fs"
    by (rule vfs_open_node_kept [OF ram.block_dev_axioms ok(1,2) _ n l]) (simp_all add: ex_state_def)
  then show ?thesis using ok(3) by auto
qed

text \<open>Reading the root of the example with room for two records.\<close>

theorem vfs_getdents_records_witness:
  "\<exists>buf fs'. gfsf_getdents \<lparr>f_ops = GFS_DIR_OPS, f_node = 1, f_off = 0, f_flags = 0, f_refs = 1\<rparr> 24 ex_fs
     = Some (Inr (24, 1, buf), fs') \<and> length buf \<le> 24 \<and> buf = concat (map dirent_bytes (dirents_of buf))"
proof -
  let ?f = "\<lparr>f_ops = GFS_DIR_OPS, f_node = 1, f_off = 0, f_flags = 0, f_refs = 1\<rparr>"
  let ?dir = "\<lparr>gn_type = GFS_NODE_NAMESPACE, gn_mode = 0, gn_size = 0, gn_nlink = 0, gn_edge_count = 1, gn_parent = 1\<rparr>"
  let ?rec = "dirent_bytes \<lparr>d_ino = 1, d_off = 1, d_type = DT_DIR, d_name = [DOT]\<rparr>"
  have l0: "ex_like ex_fs" by (simp add: ex_like_def ex_fs_def gfs_blank_def)
  obtain fs1 where m: "map_load ex_fs = Some (Inr (), fs1)" "ex_like fs1" "g_map fs1 = ex_map" using ex_map_load [OF l0] by blast
  obtain fs2 where n: "node_read 1 fs1 = Some (Inr ex_root, fs2)" using ex_node_read(1) [OF m(2,3)] by blast
  have get: "gfs_node_get 1 ex_fs = Some (Inr ?dir, fs2)"
    using m n by (simp add: gfs_node_get_def gseq_def gbind_def gret_def gfail_if_def ex_root_def mkfs_root_def zero_node_def)
  have len: "length ?rec = 24" by (simp add: dirent_reclen_def)
  have two: "getdents_loop 1 ?dir 24 1 ?rec = (gret (24, 1, ?rec) :: (ramdisk, _) gfs_m)"
    using len by (subst getdents_loop.simps) (simp add: Let_def dirent_emit_def dirent_reclen_def)
  have "getdents_loop 1 ?dir 24 0 [] = (getdents_loop 1 ?dir 24 1 ?rec :: (ramdisk, _) gfs_m)"
    by (subst getdents_loop.simps) (simp add: Let_def dirent_emit_def dirent_reclen_def)
  then have run: "gfsf_getdents ?f 24 ex_fs = Some (Inr (24, 1, ?rec), fs2)"
    unfolding two using get by (simp add: gfsf_getdents_def gtry_def gbind_def gret_def)
  then show ?thesis using vfs_getdents_records [OF run] by auto
qed

end
