(* ===== verification/Gfs_Walk.thy ===== *)
theory Gfs_Walk
  imports Vfs_Theorems
begin

text \<open>
  When a walk along an edge chain returns. The chain on the disk is given by the pointers the code
  follows: \<open>edge_at\<close> is the pointer after a number of blocks, \<open>edge_chain\<close> an intact chain that ends.
\<close>

fun edge_at :: "(nat \<Rightarrow> byte list) \<Rightarrow> nat \<Rightarrow> gfs_bp \<Rightarrow> gfs_bp" where
  "edge_at d 0 cur = cur"
| "edge_at d (Suc k) cur = edge_at d k (eb_next (d (bp_phys cur)))"

definition bp_intact :: "(nat \<Rightarrow> byte list) \<Rightarrow> nat \<Rightarrow> gfs_bp \<Rightarrow> bool" where
  "bp_intact d tot bp \<longleftrightarrow> bp_phys bp < tot \<and> unat (crc32c (d (bp_phys bp))) = bp_crc bp"

definition walk_ends :: "(nat \<Rightarrow> byte list) \<Rightarrow> nat \<Rightarrow> byte list \<Rightarrow> nat \<Rightarrow> gfs_bp \<Rightarrow> bool" where
  "walk_ends d tot name n bp \<longleftrightarrow>
     bp_phys bp = 0 \<or> \<not> bp_intact d tot bp \<or> edge_find name n (d (bp_phys bp)) \<noteq> None"

fun edge_chain :: "(nat \<Rightarrow> byte list) \<Rightarrow> nat \<Rightarrow> gfs_bp \<Rightarrow> byte list list \<Rightarrow> bool" where
  "edge_chain d tot cur [] \<longleftrightarrow> bp_phys cur = 0"
| "edge_chain d tot cur (b # bs) \<longleftrightarrow>
     bp_phys cur \<noteq> 0 \<and> bp_intact d tot cur \<and> b = d (bp_phys cur) \<and> edge_chain d tot (eb_next b) bs"

text \<open>What a search of the blocks of a chain finds.\<close>

fun chain_find :: "byte list \<Rightarrow> nat \<Rightarrow> byte list list \<Rightarrow> gfs_err + nat" where
  "chain_find name n [] = Inl GFS_ENOENT"
| "chain_find name n (b # bs) =
     (case edge_find name n b of Some t \<Rightarrow> Inr t | None \<Rightarrow> chain_find name n bs)"

context reliable_dev
begin

text \<open>A mount whose device is in order and holds it, with the given content.\<close>

definition serving :: "(nat \<Rightarrow> byte list) \<Rightarrow> 'c gfs \<Rightarrow> bool" where
  "serving d fs \<longleftrightarrow> dinv (g_ctx fs) \<and> g_ops fs = ops \<and> g_total_blocks fs \<le> cap \<and> disk (g_ctx fs) = d"

lemma read_meta_serving:
  assumes "serving d fs"
  shows "bp_intact d (g_total_blocks fs) bp \<Longrightarrow>
      \<exists>c. read_meta bp to_a fs = Some (Inr (d (bp_phys bp)), fs\<lparr>g_ctx := c, g_a := d (bp_phys bp)\<rparr>)
        \<and> serving d (fs\<lparr>g_ctx := c, g_a := d (bp_phys bp)\<rparr>)"
    and "\<not> bp_intact d (g_total_blocks fs) bp \<Longrightarrow> \<exists>e fs'. read_meta bp to_a fs = Some (Inl e, fs')"
proof -
  have f: "dinv (g_ctx fs)" "g_ops fs = ops" "g_total_blocks fs \<le> cap" "disk (g_ctx fs) = d"
    using assms by (auto simp: serving_def)
  show "\<exists>c. read_meta bp to_a fs = Some (Inr (d (bp_phys bp)), fs\<lparr>g_ctx := c, g_a := d (bp_phys bp)\<rparr>)
        \<and> serving d (fs\<lparr>g_ctx := c, g_a := d (bp_phys bp)\<rparr>)" if "bp_intact d (g_total_blocks fs) bp"
  proof -
    have b: "bp_phys bp < g_total_blocks fs" "unat (crc32c (disk (g_ctx fs) (bp_phys bp))) = bp_crc bp"
      using that f(4) by (auto simp: bp_intact_def)
    show ?thesis
      by (rule read_meta_ok [OF f(1,2) b(1) f(3) b(2), of to_a]) (use f in \<open>auto simp: serving_def\<close>)
  qed
  show "\<exists>e fs'. read_meta bp to_a fs = Some (Inl e, fs')" if "\<not> bp_intact d (g_total_blocks fs) bp"
  proof (cases "bp_phys bp < g_total_blocks fs")
    case False
    then show ?thesis by (simp add: read_meta_def bread_def gbind_def)
  next
    case True
    obtain r c where r: "op_read ops (g_ctx fs) (bp_phys bp) = (r, c)" by fastforce
    have "\<forall>blk. r = Some blk \<longrightarrow> blk = d (bp_phys bp)" using dev_read [OF f(1) r] f(4) by blast
    then show ?thesis using True that
      by (cases r) (auto simp: read_meta_def bread_def gbind_def f(2) r bp_intact_def gfail_def)
  qed
qed

lemma chain_step:
  assumes "serving d fs" "bp_phys cur \<noteq> 0" "bp_intact d (g_total_blocks fs) cur"
  obtains fs1 where "serving d fs1" "g_total_blocks fs1 = g_total_blocks fs"
    "edge_lookup_loop name n cur fs = (case edge_find name n (d (bp_phys cur)) of
       Some t \<Rightarrow> Some (Inr t, fs1) | None \<Rightarrow> edge_lookup_loop name n (eb_next (d (bp_phys cur))) fs1)"
proof -
  obtain c where c: "read_meta cur to_a fs = Some (Inr (d (bp_phys cur)), fs\<lparr>g_ctx := c, g_a := d (bp_phys cur)\<rparr>)"
    "serving d (fs\<lparr>g_ctx := c, g_a := d (bp_phys cur)\<rparr>)"
    using read_meta_serving(1) [OF assms(1,3)] by blast
  show thesis
    by (rule that [OF c(2)], simp, subst edge_lookup_loop.simps) (simp add: assms(2) gbind_def c(1) gret_def split: option.split)
qed

lemma lookup_stops:
  assumes "serving d fs" "walk_ends d (g_total_blocks fs) name n cur"
  shows "\<exists>y. edge_lookup_loop name n cur fs = Some y"
proof (cases "bp_phys cur = 0")
  case True
  then show ?thesis by (subst edge_lookup_loop.simps) (simp add: gfail_def)
next
  case nz: False
  show ?thesis
  proof (cases "bp_intact d (g_total_blocks fs) cur")
    case True
    then obtain t where "edge_find name n (d (bp_phys cur)) = Some t" using assms(2) nz by (auto simp: walk_ends_def)
    then show ?thesis using chain_step [OF assms(1) nz True, of name n] by (metis option.simps(5))
  next
    case False
    then show ?thesis using read_meta_serving(2) [OF assms(1) False] nz
      by (subst edge_lookup_loop.simps) (auto simp: gbind_def)
  qed
qed

lemma lookup_returns:
  assumes "serving d fs" "walk_ends d (g_total_blocks fs) name n (edge_at d k cur)"
  shows "\<exists>y. edge_lookup_loop name n cur fs = Some y"
  using assms
proof (induction k arbitrary: cur fs)
  case 0
  then show ?case using lookup_stops by simp
next
  case (Suc k)
  show ?case
  proof (cases "walk_ends d (g_total_blocks fs) name n cur")
    case True
    then show ?thesis using lookup_stops Suc.prems(1) by blast
  next
    case False
    then have go: "bp_phys cur \<noteq> 0" "bp_intact d (g_total_blocks fs) cur" "edge_find name n (d (bp_phys cur)) = None"
      by (auto simp: walk_ends_def)
    obtain fs1 where s: "serving d fs1" "g_total_blocks fs1 = g_total_blocks fs"
      "edge_lookup_loop name n cur fs = edge_lookup_loop name n (eb_next (d (bp_phys cur))) fs1"
      using chain_step [OF Suc.prems(1) go(1,2), of name n] go(3) by (metis option.simps(4))
    show ?thesis unfolding s(3) by (rule Suc.IH [OF s(1)]) (use Suc.prems(2) s(2) in simp)
  qed
qed

lemma lookup_runs_on:
  assumes "edge_lookup_loop name n cur fs = Some y" "serving d fs"
  shows "\<exists>k. walk_ends d (g_total_blocks fs) name n (edge_at d k cur)"
proof -
  have "serving d fs \<longrightarrow> (\<exists>k. walk_ends d (g_total_blocks fs) name n (edge_at d k cur))"
  proof (rule edge_lookup_loop.raw_induct [OF _ assms(1), where P = "\<lambda>name n cur fs y. serving d fs \<longrightarrow>
        (\<exists>k. walk_ends d (g_total_blocks fs) name n (edge_at d k cur))"], rule impI)
    fix f :: "byte list \<Rightarrow> nat \<Rightarrow> gfs_bp \<Rightarrow> 'c gfs \<Rightarrow> ((gfs_err + nat) \<times> 'c gfs) option"
    fix name n cur and fs :: "'c gfs" and y
    assume IH: "\<And>name n cur fs y. f name n cur fs = Some y \<Longrightarrow> serving d fs \<longrightarrow>
        (\<exists>k. walk_ends d (g_total_blocks fs) name n (edge_at d k cur))"
      and run: "(if bp_phys cur = 0 then gfail GFS_ENOENT fs
        else gbind (read_meta cur to_a) (\<lambda>_ fs1. case edge_find name n (g_a fs1) of
          None \<Rightarrow> f name n (eb_next (g_a fs1)) fs1 | Some target \<Rightarrow> gret target fs1) fs) = Some y"
      and s: "serving d fs"
    show "\<exists>k. walk_ends d (g_total_blocks fs) name n (edge_at d k cur)"
    proof (cases "walk_ends d (g_total_blocks fs) name n cur")
      case True
      then show ?thesis by (intro exI [of _ 0]) simp
    next
      case False
      then have go: "bp_phys cur \<noteq> 0" "bp_intact d (g_total_blocks fs) cur" "edge_find name n (d (bp_phys cur)) = None"
        by (auto simp: walk_ends_def)
      obtain c where c: "read_meta cur to_a fs = Some (Inr (d (bp_phys cur)), fs\<lparr>g_ctx := c, g_a := d (bp_phys cur)\<rparr>)"
        "serving d (fs\<lparr>g_ctx := c, g_a := d (bp_phys cur)\<rparr>)"
        using read_meta_serving(1) [OF s go(2)] by blast
      from run have "f name n (eb_next (d (bp_phys cur))) (fs\<lparr>g_ctx := c, g_a := d (bp_phys cur)\<rparr>) = Some y"
        by (simp add: go(1,3) gbind_def c(1))
      from IH [OF this] c(2) obtain k where
        "walk_ends d (g_total_blocks fs) name n (edge_at d k (eb_next (d (bp_phys cur))))" by auto
      then show ?thesis by (intro exI [of _ "Suc k"]) simp
    qed
  qed
  with assms(2) show ?thesis by blast
qed

lemma lookup_intact:
  assumes "serving d fs" "edge_chain d (g_total_blocks fs) cur bs"
  shows "\<exists>fs'. edge_lookup_loop name n cur fs = Some (chain_find name n bs, fs')"
  using assms
proof (induction bs arbitrary: cur fs)
  case Nil
  then show ?case by (subst edge_lookup_loop.simps) (simp add: gfail_def)
next
  case (Cons b bs)
  then have go: "bp_phys cur \<noteq> 0" "bp_intact d (g_total_blocks fs) cur" "b = d (bp_phys cur)"
    "edge_chain d (g_total_blocks fs) (eb_next b) bs" by auto
  obtain fs1 where s: "serving d fs1" "g_total_blocks fs1 = g_total_blocks fs"
    "edge_lookup_loop name n cur fs = (case edge_find name n b of
       Some t \<Rightarrow> Some (Inr t, fs1) | None \<Rightarrow> edge_lookup_loop name n (eb_next b) fs1)"
    using chain_step [OF Cons.prems(1) go(1,2), of name n] go(3) by blast
  show ?case unfolding s(3) using Cons.IH [OF s(1)] go(4) s(2) by (auto split: option.split)
qed

end


text \<open>The root directory of the example file system has one block, which holds the name \<^verbatim>\<open>a\<close>.\<close>

lemma ex_root_chain: "edge_chain (ram_content (g_ctx ex_fs)) (g_total_blocks ex_fs) (dn_edge_head ex_root) [ex_edges]"
proof -
  have "rd64 (bsplice 24 r b) 8 = rd64 b 8" if "length b = 4096" "length r = 272" for r b
    using that by (simp add: rd64_def rd32_def nth_splice)
  moreover have "rd64 (zeros 4096) 8 = 0" by (simp add: rd64_def rd32_def zeros_def)
  ultimately have "rd64 ex_edges EB_NEXT_PHYS = 0" by (simp add: ex_edges_def)
  then show ?thesis by (simp add: bp_intact_def eb_next_def ex_root_def ex_fs_def gfs_blank_def ram_content_def)
qed

lemma ex_root_serving: "ram_ok 4 (g_ctx ex_fs)" "g_ops ex_fs = RAM_OPS" "g_total_blocks ex_fs \<le> 4"
  by (simp_all add: ex_fs_def gfs_blank_def ram_ok_def)


end
