(* ===== verification/Mem_Page.thy ===== *)
theory Mem_Page
  imports Kernel_Prelude
begin

text \<open>
  Rounding addresses to pages: the static functions \<^verbatim>\<open>page_down\<close> and \<^verbatim>\<open>page_up\<close> of \<^verbatim>\<open>elf64.c\<close>, \<^verbatim>\<open>pmm.c\<close> and
  \<^verbatim>\<open>elf_load.c\<close>, the same in each. Clearing the low twelve bits subtracts the remainder.
\<close>

abbreviation (input) PAGE_SIZE :: nat where "PAGE_SIZE \<equiv> 4096"

definition page_down :: "nat \<Rightarrow> nat" where
  "page_down addr = addr - addr mod PAGE_SIZE"

definition page_up :: "nat \<Rightarrow> nat" where
  "page_up addr = page_down (u64 (addr + PAGE_SIZE - 1))"

lemma page_down_eq: "page_down a = a div PAGE_SIZE * PAGE_SIZE"
  by (simp add: page_down_def minus_mod_eq_div_mult)

lemma page_down_le: "page_down a \<le> a" "page_down a mod PAGE_SIZE = 0" "a < page_down a + PAGE_SIZE"
proof -
  have "a = a div 4096 * 4096 + a mod 4096" "a mod 4096 < 4096" by simp_all
  then show "page_down a \<le> a" "a < page_down a + PAGE_SIZE" unfolding page_down_eq by linarith+
  show "page_down a mod PAGE_SIZE = 0" by (simp add: page_down_eq)
qed

lemma page_less: "a mod PAGE_SIZE = 0 \<Longrightarrow> b mod PAGE_SIZE = 0 \<Longrightarrow> a < b + PAGE_SIZE \<longleftrightarrow> a \<le> b"
  by (auto simp: mod_eq_0_iff_dvd elim!: dvdE)

lemma page_up_eq:
  assumes "a \<le> lim" "lim mod PAGE_SIZE = 0" "lim < 2 ^ 64"
  shows "page_up a \<le> lim" "a \<le> page_up a" "page_up a < a + PAGE_SIZE" "page_up a mod PAGE_SIZE = 0"
proof -
  obtain k where k: "lim = 4096 * k" using assms(2) by (metis mod_eq_0_iff_dvd dvdE)
  then have "lim \<le> 2 ^ 64 - 4096" using assms(3) by simp
  then have e: "page_up a = page_down (a + 4095)" using assms(1) by (simp add: page_up_def u64_def add.commute)
  note d = page_down_le [of "a + 4095"]
  show "a \<le> page_up a" "page_up a < a + PAGE_SIZE" "page_up a mod PAGE_SIZE = 0" using d unfolding e by linarith+
  then have "page_up a < lim + 4096" "page_up a mod 4096 = 0" using assms(1) by linarith+
  then show "page_up a \<le> lim" using page_less [of "page_up a" lim] assms(2) by simp
qed

end
