(* ===== verification/Lib_Elf64.thy ===== *)
theory Lib_Elf64
  imports Lib_Le Mem_Page
begin

text \<open>
  Validation of ELF64 executables (\<^verbatim>\<open>kernel/lib/elf64.c\<close>). An image is a byte list, its size the length.
  The specification \<open>elf_loadable\<close> says what a loadable image is without reference to the order of the
  checks; the validator accepts exactly the loadable images.
\<close>

section \<open>Headers\<close>

abbreviation (input) ELF64_PAGE :: nat where "ELF64_PAGE \<equiv> 4096"
abbreviation (input) EI_CLASS :: nat where "EI_CLASS \<equiv> 4"
abbreviation (input) EI_DATA :: nat where "EI_DATA \<equiv> 5"
abbreviation (input) EI_VERSION :: nat where "EI_VERSION \<equiv> 6"
abbreviation (input) EI_NIDENT :: nat where "EI_NIDENT \<equiv> 16"
abbreviation (input) ELFCLASS64 :: byte where "ELFCLASS64 \<equiv> 2"
abbreviation (input) ELFDATA2LSB :: byte where "ELFDATA2LSB \<equiv> 1"
abbreviation (input) EV_CURRENT :: nat where "EV_CURRENT \<equiv> 1"
abbreviation (input) ET_EXEC :: nat where "ET_EXEC \<equiv> 2"
abbreviation (input) EM_X86_64 :: nat where "EM_X86_64 \<equiv> 62"
abbreviation (input) PT_LOAD :: nat where "PT_LOAD \<equiv> 1"
abbreviation (input) PF_X :: nat where "PF_X \<equiv> 1"
abbreviation (input) PF_W :: nat where "PF_W \<equiv> 2"
abbreviation (input) ELF64_PHNUM_MAX :: nat where "ELF64_PHNUM_MAX \<equiv> 16"

text \<open>The sizes of the two structures.\<close>

abbreviation (input) EHDR_SIZE :: nat where "EHDR_SIZE \<equiv> 64"
abbreviation (input) PHDR_SIZE :: nat where "PHDR_SIZE \<equiv> 56"

record elf64_ehdr =
  e_ident :: "byte list"
  e_type :: nat
  e_machine :: nat
  e_version :: nat
  e_entry :: nat
  e_phoff :: nat
  e_shoff :: nat
  e_flags :: nat
  e_ehsize :: nat
  e_phentsize :: nat
  e_phnum :: nat
  e_shentsize :: nat
  e_shnum :: nat
  e_shstrndx :: nat

record elf64_phdr =
  p_type :: nat
  p_flags :: nat
  p_offset :: nat
  p_vaddr :: nat
  p_paddr :: nat
  p_filesz :: nat
  p_memsz :: nat
  p_align :: nat

datatype elf64_err = ELF64_ETRUNC | ELF64_EMAGIC | ELF64_ECLASS | ELF64_EENDIAN | ELF64_EVERSION | ELF64_ETYPE
  | ELF64_EMACHINE | ELF64_EPHENTSIZE | ELF64_EPHNUM | ELF64_EPHOFF | ELF64_ESEGFILE | ELF64_ESEGSIZE | ELF64_ESEGVA
  | ELF64_ESEGALIGN | ELF64_EOVERLAP | ELF64_EWX | ELF64_ENOLOAD | ELF64_EENTRY | ELF64_ENOMEM

record elf64_info =
  info_entry :: nat
  info_phnum :: nat

definition ehdr_get :: "byte list \<Rightarrow> elf64_ehdr" where
  "ehdr_get img = \<lparr>e_ident = bslice 0 EI_NIDENT img, e_type = le_get 2 img 16, e_machine = le_get 2 img 18,
     e_version = le_get 4 img 20, e_entry = le_get 8 img 24, e_phoff = le_get 8 img 32,
     e_shoff = le_get 8 img 40, e_flags = le_get 4 img 48, e_ehsize = le_get 2 img 52,
     e_phentsize = le_get 2 img 54, e_phnum = le_get 2 img 56, e_shentsize = le_get 2 img 58,
     e_shnum = le_get 2 img 60, e_shstrndx = le_get 2 img 62\<rparr>"

definition elf64_phdr_get :: "byte list \<Rightarrow> nat \<Rightarrow> elf64_phdr" where
  "elf64_phdr_get img index =
     (let at = u64 (e_phoff (ehdr_get img) + index * PHDR_SIZE) in
      \<lparr>p_type = le_get 4 img at, p_flags = le_get 4 img (at + 4), p_offset = le_get 8 img (at + 8),
       p_vaddr = le_get 8 img (at + 16), p_paddr = le_get 8 img (at + 24), p_filesz = le_get 8 img (at + 32),
       p_memsz = le_get 8 img (at + 40), p_align = le_get 8 img (at + 48)\<rparr>)"

section \<open>Validation\<close>

text \<open>The checks of one program header, up to the overlap check; \<open>None\<close> when the header is skipped.\<close>

definition segment_check :: "nat \<Rightarrow> nat \<Rightarrow> nat \<Rightarrow> elf64_phdr \<Rightarrow> elf64_err + (nat \<times> nat) option" where
  "segment_check sz va_min va_limit ph =
     (if p_type ph \<noteq> PT_LOAD then Inr None
      else if p_flags ph AND PF_W \<noteq> 0 \<and> p_flags ph AND PF_X \<noteq> 0 then Inl ELF64_EWX
      else if p_filesz ph > p_memsz ph then Inl ELF64_ESEGSIZE
      else if p_memsz ph = 0 then Inr None
      else if p_offset ph > sz \<or> p_filesz ph > sz - p_offset ph then Inl ELF64_ESEGFILE
      else if p_vaddr ph < va_min \<or> p_vaddr ph \<ge> va_limit then Inl ELF64_ESEGVA
      else if p_memsz ph > va_limit - p_vaddr ph then Inl ELF64_ESEGVA
      else if (p_vaddr ph XOR p_offset ph) AND (ELF64_PAGE - 1) \<noteq> 0 then Inl ELF64_ESEGALIGN
      else Inr (Some (page_down (p_vaddr ph), page_up (u64 (p_vaddr ph + p_memsz ph)))))"

definition entry_in :: "nat \<Rightarrow> elf64_phdr \<Rightarrow> bool" where
  "entry_in entry ph \<longleftrightarrow> p_flags ph AND PF_X \<noteq> 0 \<and> entry \<ge> p_vaddr ph \<and> entry < u64 (p_vaddr ph + p_filesz ph)"

text \<open>The loop over the program headers; \<open>loads\<close> are the spans seen so far.\<close>

fun validate_phdrs :: "nat \<Rightarrow> nat \<Rightarrow> nat \<Rightarrow> nat \<Rightarrow> elf64_phdr list \<Rightarrow> (nat \<times> nat) list \<Rightarrow> bool
    \<Rightarrow> elf64_err + (nat \<times> nat) list \<times> bool" where
  "validate_phdrs sz va_min va_limit entry [] loads entry_ok = Inr (loads, entry_ok)"
| "validate_phdrs sz va_min va_limit entry (ph # phs) loads entry_ok =
     (case segment_check sz va_min va_limit ph of
        Inl e \<Rightarrow> Inl e
      | Inr None \<Rightarrow> validate_phdrs sz va_min va_limit entry phs loads entry_ok
      | Inr (Some (start, end)) \<Rightarrow>
          if list_ex (\<lambda>(s, e). start < e \<and> s < end) loads then Inl ELF64_EOVERLAP
          else validate_phdrs sz va_min va_limit entry phs (loads @ [(start, end)]) (entry_ok \<or> entry_in entry ph))"

definition elf64_validate :: "byte list \<Rightarrow> nat \<Rightarrow> nat \<Rightarrow> elf64_err + elf64_info" where
  "elf64_validate img va_min va_limit =
     (let sz = length img in
      if sz < EHDR_SIZE then Inl ELF64_ETRUNC
      else let eh = ehdr_get img in
      if bslice 0 4 (e_ident eh) \<noteq> [0x7F, 69, 76, 70] then Inl ELF64_EMAGIC
      else if e_ident eh ! EI_CLASS \<noteq> ELFCLASS64 then Inl ELF64_ECLASS
      else if e_ident eh ! EI_DATA \<noteq> ELFDATA2LSB then Inl ELF64_EENDIAN
      else if e_ident eh ! EI_VERSION \<noteq> of_nat EV_CURRENT \<or> e_version eh \<noteq> EV_CURRENT then Inl ELF64_EVERSION
      else if e_type eh \<noteq> ET_EXEC then Inl ELF64_ETYPE
      else if e_machine eh \<noteq> EM_X86_64 then Inl ELF64_EMACHINE
      else if e_phentsize eh \<noteq> PHDR_SIZE then Inl ELF64_EPHENTSIZE
      else if e_phnum eh = 0 \<or> e_phnum eh > ELF64_PHNUM_MAX then Inl ELF64_EPHNUM
      else let table_bytes = e_phnum eh * PHDR_SIZE in
      if e_phoff eh > sz \<or> table_bytes > sz - e_phoff eh then Inl ELF64_EPHOFF
      else case validate_phdrs sz va_min va_limit (e_entry eh) (map (elf64_phdr_get img) [0..<e_phnum eh]) [] False of
          Inl e \<Rightarrow> Inl e
        | Inr (loads, entry_ok) \<Rightarrow>
            if loads = [] then Inl ELF64_ENOLOAD
            else if \<not> entry_ok then Inl ELF64_EENTRY
            else Inr \<lparr>info_entry = e_entry eh, info_phnum = e_phnum eh\<rparr>)"

fun elf64_strerror :: "elf64_err option \<Rightarrow> string" where
  "elf64_strerror None = ''ok''"
| "elf64_strerror (Some ELF64_ETRUNC) = ''truncated ELF header''"
| "elf64_strerror (Some ELF64_EMAGIC) = ''bad ELF magic''"
| "elf64_strerror (Some ELF64_ECLASS) = ''not a 64-bit ELF''"
| "elf64_strerror (Some ELF64_EENDIAN) = ''not little-endian''"
| "elf64_strerror (Some ELF64_EVERSION) = ''unsupported ELF version''"
| "elf64_strerror (Some ELF64_ETYPE) = ''not a static executable (ET_EXEC)''"
| "elf64_strerror (Some ELF64_EMACHINE) = ''not an x86_64 binary''"
| "elf64_strerror (Some ELF64_EPHENTSIZE) = ''bad program header entry size''"
| "elf64_strerror (Some ELF64_EPHNUM) = ''bad program header count''"
| "elf64_strerror (Some ELF64_EPHOFF) = ''program header table out of bounds''"
| "elf64_strerror (Some ELF64_ESEGFILE) = ''segment file range out of bounds''"
| "elf64_strerror (Some ELF64_ESEGSIZE) = ''segment file size exceeds memory size''"
| "elf64_strerror (Some ELF64_ESEGVA) = ''segment outside the user address range''"
| "elf64_strerror (Some ELF64_ESEGALIGN) = ''segment misaligned (vaddr vs offset)''"
| "elf64_strerror (Some ELF64_EOVERLAP) = ''loadable segments overlap''"
| "elf64_strerror (Some ELF64_EWX) = ''segment is both writable and executable''"
| "elf64_strerror (Some ELF64_ENOLOAD) = ''no loadable segment''"
| "elf64_strerror (Some ELF64_EENTRY) = ''entry point outside executable code''"
| "elf64_strerror (Some ELF64_ENOMEM) = ''out of memory''"

section \<open>Loadable images\<close>

text \<open>A segment that occupies memory, and the pages it occupies.\<close>

definition loadable :: "elf64_phdr \<Rightarrow> bool" where
  "loadable ph \<longleftrightarrow> p_type ph = PT_LOAD \<and> p_memsz ph \<noteq> 0"

definition seg_pages :: "elf64_phdr \<Rightarrow> nat set" where
  "seg_pages ph = {pg. pg mod ELF64_PAGE = 0 \<and> p_vaddr ph < pg + ELF64_PAGE \<and> pg < p_vaddr ph + p_memsz ph}"

definition seg_ok :: "nat \<Rightarrow> nat \<Rightarrow> nat \<Rightarrow> elf64_phdr \<Rightarrow> bool" where
  "seg_ok sz va_min va_limit ph \<longleftrightarrow>
     (p_type ph = PT_LOAD \<longrightarrow> \<not> (p_flags ph AND PF_W \<noteq> 0 \<and> p_flags ph AND PF_X \<noteq> 0) \<and> p_filesz ph \<le> p_memsz ph)
     \<and> (loadable ph \<longrightarrow> p_offset ph + p_filesz ph \<le> sz \<and> va_min \<le> p_vaddr ph \<and> p_vaddr ph + p_memsz ph \<le> va_limit
          \<and> p_vaddr ph mod ELF64_PAGE = p_offset ph mod ELF64_PAGE)"

definition elf_loadable :: "byte list \<Rightarrow> nat \<Rightarrow> nat \<Rightarrow> bool" where
  "elf_loadable img va_min va_limit \<longleftrightarrow> EHDR_SIZE \<le> length img
     \<and> (let eh = ehdr_get img; phs = map (elf64_phdr_get img) [0..<e_phnum eh] in
        take 7 img = [0x7F, 69, 76, 70, 2, 1, 1] \<and> e_version eh = EV_CURRENT \<and> e_type eh = ET_EXEC
        \<and> e_machine eh = EM_X86_64 \<and> e_phentsize eh = PHDR_SIZE \<and> e_phnum eh \<in> {1..ELF64_PHNUM_MAX}
        \<and> e_phoff eh + e_phnum eh * PHDR_SIZE \<le> length img
        \<and> (\<forall>ph \<in> set phs. seg_ok (length img) va_min va_limit ph)
        \<and> (\<forall>i < length phs. \<forall>j < length phs. i \<noteq> j \<longrightarrow> loadable (phs ! i) \<longrightarrow> loadable (phs ! j) \<longrightarrow>
             seg_pages (phs ! i) \<inter> seg_pages (phs ! j) = {})
        \<and> (\<exists>ph \<in> set phs. loadable ph \<and> p_flags ph AND PF_X \<noteq> 0 \<and> p_vaddr ph \<le> e_entry eh
             \<and> e_entry eh < p_vaddr ph + p_filesz ph))"

section \<open>Pages and spans\<close>

definition span :: "elf64_phdr \<Rightarrow> nat \<times> nat" where
  "span ph = (page_down (p_vaddr ph), page_up (u64 (p_vaddr ph + p_memsz ph)))"

definition overlaps :: "nat \<times> nat \<Rightarrow> nat \<times> nat \<Rightarrow> bool" where
  "overlaps = (\<lambda>(s, e) (s', e'). s < e' \<and> s' < e)"

lemma overlaps_sym: "overlaps a b = overlaps b a"
  by (auto simp: overlaps_def split: prod.splits)

lemma xor_and_page: "((a :: nat) XOR b) AND (ELF64_PAGE - 1) = 0 \<longleftrightarrow> a mod ELF64_PAGE = b mod ELF64_PAGE"
proof -
  have m: "(4095 :: nat) = mask 12" by (simp add: mask_eq_exp_minus_1)
  have "(a XOR b) AND 4095 = take_bit 12 a XOR take_bit 12 b" by (simp add: m take_bit_eq_mask [symmetric] take_bit_xor)
  also have "\<dots> = 0 \<longleftrightarrow> take_bit 12 a = take_bit 12 b" by (auto simp: bit_eq_iff bit_simps)
  finally show ?thesis by (simp add: take_bit_eq_mod)
qed

lemma span_pages:
  assumes "p_vaddr ph + p_memsz ph \<le> lim" "lim mod ELF64_PAGE = 0" "lim < 2 ^ 64"
  shows "seg_pages ph = {pg. pg mod ELF64_PAGE = 0 \<and> fst (span ph) \<le> pg \<and> pg < snd (span ph)}"
proof -
  let ?v = "p_vaddr ph" and ?e = "p_vaddr ph + p_memsz ph"
  have u: "u64 ?e = ?e" using assms by (simp add: u64_def)
  note up = page_up_eq [OF assms] and down = page_down_le [of ?v]
  have "?v < pg + 4096 \<longleftrightarrow> page_down ?v \<le> pg" "pg < ?e \<longleftrightarrow> pg < page_up ?e" if pg: "pg mod 4096 = 0" for pg
  proof -
    show "?v < pg + 4096 \<longleftrightarrow> page_down ?v \<le> pg"
    proof
      assume "?v < pg + 4096"
      then have "page_down ?v < pg + 4096" using down(1) by linarith
      then show "page_down ?v \<le> pg" using page_less [OF down(2) pg] by simp
    qed (use down(3) in linarith)
    show "pg < ?e \<longleftrightarrow> pg < page_up ?e"
    proof
      assume "pg < page_up ?e"
      then have "\<not> page_up ?e < pg + 4096" if "?e \<le> pg" using page_less [OF up(4) pg] by simp
      then show "pg < ?e" using up(3) \<open>pg < page_up ?e\<close> by linarith
    qed (use up(2) in linarith)
  qed
  then show ?thesis unfolding seg_pages_def span_def fst_conv snd_conv u by auto
qed

lemma overlaps_pages:
  assumes lim: "lim mod ELF64_PAGE = 0" "lim < 2 ^ 64"
    and a: "p_vaddr a + p_memsz a \<le> lim" "p_memsz a \<noteq> 0" and b: "p_vaddr b + p_memsz b \<le> lim" "p_memsz b \<noteq> 0"
  shows "overlaps (span a) (span b) \<longleftrightarrow> seg_pages a \<inter> seg_pages b \<noteq> {}"
proof -
  obtain s e where sa: "span a = (s, e)" by fastforce
  obtain s' e' where sb: "span b = (s', e')" by fastforce
  have ne: "fst (span ph) < snd (span ph) \<and> fst (span ph) mod 4096 = 0" if "p_vaddr ph + p_memsz ph \<le> lim" "p_memsz ph \<noteq> 0" for ph
  proof -
    have "u64 (p_vaddr ph + p_memsz ph) = p_vaddr ph + p_memsz ph" using that lim by (simp add: u64_def)
    then show ?thesis
      using page_up_eq(2) [OF that(1) lim] page_down_le [of "p_vaddr ph"] that(2) by (simp add: span_def)
  qed
  have "s < e" "s mod 4096 = 0" "s' < e'" "s' mod 4096 = 0" using ne [OF a] ne [OF b] sa sb by auto
  then have "(s < e' \<and> s' < e) \<longleftrightarrow> (\<exists>pg. pg mod 4096 = 0 \<and> s \<le> pg \<and> pg < e \<and> s' \<le> pg \<and> pg < e')"
    by (intro iffI) (rule exI [of _ "max s s'"], auto simp: max_def)
  moreover have "seg_pages a \<inter> seg_pages b \<noteq> {} \<longleftrightarrow> (\<exists>pg. pg mod 4096 = 0 \<and> s \<le> pg \<and> pg < e \<and> s' \<le> pg \<and> pg < e')"
    unfolding span_pages [OF a(1) lim] span_pages [OF b(1) lim] sa sb fst_conv snd_conv
    by (simp only: ex_in_conv [symmetric] Int_iff mem_Collect_eq conj_ac conj_absorb conj_left_absorb)
  ultimately show ?thesis by (simp add: overlaps_def sa sb)
qed

section \<open>The validator\<close>

lemma segment_check_iff:
  assumes "va_limit < 2 ^ 64"
  shows "segment_check sz va_min va_limit ph = Inr None \<longleftrightarrow> seg_ok sz va_min va_limit ph \<and> \<not> loadable ph"
    and "segment_check sz va_min va_limit ph = Inr (Some x) \<longleftrightarrow> seg_ok sz va_min va_limit ph \<and> loadable ph \<and> x = span ph"
    and "(\<exists>e. segment_check sz va_min va_limit ph = Inl e) \<longleftrightarrow> \<not> seg_ok sz va_min va_limit ph"
  using assms xor_and_page [of "p_vaddr ph" "p_offset ph"]
  by (auto simp: segment_check_def seg_ok_def loadable_def span_def)

lemma validate_phdrs_iff:
  assumes "va_limit < 2 ^ 64"
  shows "validate_phdrs sz va_min va_limit entry phs loads entry_ok = Inr (loads', entry_ok') \<longleftrightarrow>
    (\<forall>ph \<in> set phs. seg_ok sz va_min va_limit ph)
    \<and> sorted_wrt (\<lambda>a b. \<not> overlaps a b) (map span (filter loadable phs))
    \<and> (\<forall>a \<in> set loads. \<forall>ph \<in> set phs. loadable ph \<longrightarrow> \<not> overlaps a (span ph))
    \<and> loads' = loads @ map span (filter loadable phs)
    \<and> entry_ok' = (entry_ok \<or> (\<exists>ph \<in> set phs. loadable ph \<and> entry_in entry ph))"
proof (induction phs arbitrary: loads entry_ok)
  case Nil
  then show ?case by auto
next
  case (Cons ph phs)
  note iff = segment_check_iff [OF assms, of sz va_min ph]
  show ?case
  proof (cases "segment_check sz va_min va_limit ph")
    case (Inl e)
    then show ?thesis using iff(3) by auto
  next
    case (Inr x)
    show ?thesis
    proof (cases x)
      case None
      then show ?thesis using Inr iff(1) Cons.IH by auto
    next
      case (Some y)
      then have y: "seg_ok sz va_min va_limit ph" "loadable ph" "y = span ph" using iff(2) [of y] Inr by simp_all
      have ov: "list_ex (\<lambda>(s, e). start < e \<and> s < end) loads \<longleftrightarrow> (\<exists>a \<in> set loads. overlaps a (start, end))" for start "end"
        by (auto simp: list_ex_iff overlaps_def)
      obtain s e where se: "span ph = (s, e)" by fastforce
      show ?thesis
        using Inr Some y se Cons.IH [of "loads @ [(s, e)]" "entry_ok \<or> entry_in entry ph"] ov [of s e] by auto
    qed
  qed
qed

lemma sorted_wrt_filter_iff:
  "sorted_wrt R (map f (filter P xs)) \<longleftrightarrow> sorted_wrt (\<lambda>x y. P x \<longrightarrow> P y \<longrightarrow> R (f x) (f y)) xs"
  by (induction xs) auto

lemma disjoint_spans_iff:
  assumes lim: "lim mod ELF64_PAGE = 0" "lim < 2 ^ 64" and ok: "\<forall>ph \<in> set phs. seg_ok sz va_min lim ph"
  shows "sorted_wrt (\<lambda>a b. \<not> overlaps a b) (map span (filter loadable phs)) \<longleftrightarrow>
    (\<forall>i < length phs. \<forall>j < length phs. i \<noteq> j \<longrightarrow> loadable (phs ! i) \<longrightarrow> loadable (phs ! j) \<longrightarrow>
       seg_pages (phs ! i) \<inter> seg_pages (phs ! j) = {})"
proof -
  have ov: "overlaps (span (phs ! i)) (span (phs ! j)) \<longleftrightarrow> seg_pages (phs ! i) \<inter> seg_pages (phs ! j) \<noteq> {}"
    if "i < length phs" "j < length phs" "loadable (phs ! i)" "loadable (phs ! j)" for i j
    by (rule overlaps_pages [OF lim]) (use that ok in \<open>auto simp: seg_ok_def loadable_def\<close>)
  let ?lo = "\<lambda>i j. loadable (phs ! i) \<longrightarrow> loadable (phs ! j) \<longrightarrow> \<not> overlaps (span (phs ! i)) (span (phs ! j))"
  have "sorted_wrt (\<lambda>a b. \<not> overlaps a b) (map span (filter loadable phs)) \<longleftrightarrow> (\<forall>i j. i < j \<longrightarrow> j < length phs \<longrightarrow> ?lo i j)"
    unfolding sorted_wrt_filter_iff by (simp add: sorted_wrt_iff_nth_less)
  also have "\<dots> \<longleftrightarrow> (\<forall>i < length phs. \<forall>j < length phs. i \<noteq> j \<longrightarrow> ?lo i j)"
  proof (rule iffI)
    assume s: "\<forall>i j. i < j \<longrightarrow> j < length phs \<longrightarrow> ?lo i j"
    have "?lo i j" if "i < length phs" "j < length phs" "i \<noteq> j" for i j
    proof (cases "i < j")
      case False
      then have "?lo j i" using s that by simp
      then show ?thesis using overlaps_sym by simp
    qed (use s that in simp)
    then show "\<forall>i < length phs. \<forall>j < length phs. i \<noteq> j \<longrightarrow> ?lo i j" by simp
  qed simp
  also have "\<dots> \<longleftrightarrow> (\<forall>i < length phs. \<forall>j < length phs. i \<noteq> j \<longrightarrow> loadable (phs ! i) \<longrightarrow> loadable (phs ! j) \<longrightarrow>
       seg_pages (phs ! i) \<inter> seg_pages (phs ! j) = {})"
    using ov by simp
  finally show ?thesis .
qed

lemma ident_iff:
  assumes "64 \<le> length img"
  shows "take 7 img = [0x7F, 69, 76, 70, 2, 1, 1] \<longleftrightarrow>
    bslice 0 4 (e_ident (ehdr_get img)) = [0x7F, 69, 76, 70] \<and> e_ident (ehdr_get img) ! 4 = 2
    \<and> e_ident (ehdr_get img) ! 5 = 1 \<and> e_ident (ehdr_get img) ! 6 = 1"
proof -
  have "Suc (Suc (Suc (Suc (Suc (Suc (Suc 0)))))) \<le> length img" using assms by simp
  then obtain a b c d e f g rest where i: "img = a # b # c # d # e # f # g # rest" by (auto simp: Suc_le_length_iff)
  then show ?thesis by (simp add: ehdr_get_def bslice_def)
qed

lemma elf64_validate_unfold:
  assumes "64 \<le> length img"
  shows "elf64_validate img va_min va_limit = Inr info \<longleftrightarrow>
    (let eh = ehdr_get img; phs = map (elf64_phdr_get img) [0..<e_phnum eh] in
     take 7 img = [0x7F, 69, 76, 70, 2, 1, 1] \<and> e_version eh = EV_CURRENT \<and> e_type eh = ET_EXEC
     \<and> e_machine eh = EM_X86_64 \<and> e_phentsize eh = PHDR_SIZE \<and> e_phnum eh \<in> {1..ELF64_PHNUM_MAX}
     \<and> e_phoff eh + e_phnum eh * PHDR_SIZE \<le> length img
     \<and> (\<exists>loads. validate_phdrs (length img) va_min va_limit (e_entry eh) phs [] False = Inr (loads, True) \<and> loads \<noteq> [])
     \<and> info = \<lparr>info_entry = e_entry eh, info_phnum = e_phnum eh\<rparr>)"
  unfolding Let_def ident_iff [OF assms] using assms
  by (auto simp: elf64_validate_def Let_def split: sum.splits if_splits)

lemma elf64_validate_iff:
  assumes "va_limit mod ELF64_PAGE = 0" "va_limit < 2 ^ 64"
  shows "elf64_validate img va_min va_limit = Inr info \<longleftrightarrow>
    elf_loadable img va_min va_limit \<and> info = \<lparr>info_entry = e_entry (ehdr_get img), info_phnum = e_phnum (ehdr_get img)\<rparr>"
proof (cases "64 \<le> length img")
  case True
  let ?eh = "ehdr_get img" and ?n = "length img"
  let ?phs = "map (elf64_phdr_get img) [0..<e_phnum ?eh]"
  have entry: "entry_in (e_entry ?eh) ph \<longleftrightarrow> p_flags ph AND PF_X \<noteq> 0 \<and> p_vaddr ph \<le> e_entry ?eh \<and> e_entry ?eh < p_vaddr ph + p_filesz ph"
    if "seg_ok ?n va_min va_limit ph" "loadable ph" for ph
  proof -
    have "p_vaddr ph + p_filesz ph < 2 ^ 64" using that assms(2) by (auto simp: seg_ok_def loadable_def)
    then show ?thesis by (simp add: entry_in_def u64_def)
  qed
  have "(\<exists>loads. validate_phdrs ?n va_min va_limit (e_entry ?eh) ?phs [] False = Inr (loads, True) \<and> loads \<noteq> []) \<longleftrightarrow>
      (\<forall>ph \<in> set ?phs. seg_ok ?n va_min va_limit ph)
      \<and> sorted_wrt (\<lambda>a b. \<not> overlaps a b) (map span (filter loadable ?phs))
      \<and> (\<exists>ph \<in> set ?phs. loadable ph \<and> p_flags ph AND PF_X \<noteq> 0 \<and> p_vaddr ph \<le> e_entry ?eh
             \<and> e_entry ?eh < p_vaddr ph + p_filesz ph)"
    using entry unfolding validate_phdrs_iff [OF assms(2)] by (fastforce simp: filter_empty_conv)
  also have "\<dots> \<longleftrightarrow> (\<forall>ph \<in> set ?phs. seg_ok ?n va_min va_limit ph)
      \<and> (\<forall>i < length ?phs. \<forall>j < length ?phs. i \<noteq> j \<longrightarrow> loadable (?phs ! i) \<longrightarrow> loadable (?phs ! j) \<longrightarrow>
           seg_pages (?phs ! i) \<inter> seg_pages (?phs ! j) = {})
      \<and> (\<exists>ph \<in> set ?phs. loadable ph \<and> p_flags ph AND PF_X \<noteq> 0 \<and> p_vaddr ph \<le> e_entry ?eh
             \<and> e_entry ?eh < p_vaddr ph + p_filesz ph)"
    by (intro conj_cong refl) (rule disjoint_spans_iff [OF assms(1,2)])
  finally show ?thesis
    unfolding elf64_validate_unfold [OF True] elf_loadable_def Let_def by (simp only: True conj_assoc simp_thms)
next
  case False
  then show ?thesis by (simp add: elf64_validate_def elf_loadable_def)
qed

text \<open>
  C25. The validator accepts exactly the loadable images. For page-aligned bounds, an image is
  accepted if and only if its header is that of a static x86_64 executable, the program header table
  lies in the file, every loadable segment has its bytes in the file and its memory within the
  bounds with the file offset congruent to the address, none is writable and executable, no two
  share a page, and the entry point is a file byte of an executable segment. The information
  returned is the entry point and the number of headers.
\<close>

theorem elf64_validate_exact:
  assumes "va_limit mod ELF64_PAGE = 0" "va_limit < 2 ^ 64"
  shows "elf64_validate img va_min va_limit = Inr info \<longleftrightarrow>
    elf_loadable img va_min va_limit \<and> info = \<lparr>info_entry = e_entry (ehdr_get img), info_phnum = e_phnum (ehdr_get img)\<rparr>"
  by (rule elf64_validate_iff [OF assms])

text \<open>An image of 120 bytes: both headers, mapped readable and executable at 4 MiB.\<close>

definition elf_example :: "byte list" where
  "elf_example = [0x7F, 69, 76, 70, 2, 1, 1] @ zeros 9 @ le_bytes 2 ET_EXEC @ le_bytes 2 EM_X86_64 @ le_bytes 4 EV_CURRENT
     @ le_bytes 8 0x400040 @ le_bytes 8 64 @ zeros 14 @ le_bytes 2 PHDR_SIZE @ le_bytes 2 1 @ zeros 6
     @ le_bytes 4 PT_LOAD @ le_bytes 4 5 @ le_bytes 8 0 @ le_bytes 8 0x400000 @ zeros 8 @ le_bytes 8 120 @ le_bytes 8 120 @ zeros 8"

lemma elf_example_valid: "elf64_validate elf_example 4096 (2 ^ 47) = Inr \<lparr>info_entry = 0x400040, info_phnum = 1\<rparr>"
  by code_simp

theorem elf64_validate_exact_witness: "elf_loadable elf_example 4096 (2 ^ 47)"
proof -
  show ?thesis
    using elf_example_valid elf64_validate_exact [of "2 ^ 47" elf_example 4096 "\<lparr>info_entry = 0x400040, info_phnum = 1\<rparr>"] by simp
qed

end
