(* ===== verification/Pmm.thy ===== *)
theory Pmm
  imports Pmm_Core Mem_Page
begin

text \<open>
  The kernel side of the frame allocator (\<^verbatim>\<open>kernel/mm/pmm.c\<close>): building the frame map from the E820
  table, and the wrappers that turn frame numbers into physical addresses. The end of the kernel image
  is a parameter, as is the memory in which the bitmap is placed. A panic is \<open>None\<close>. The interrupt
  flag, which makes each core operation atomic, is not modelled.
\<close>

abbreviation (input) E820_TYPE_USABLE :: nat where "E820_TYPE_USABLE \<equiv> 1"
abbreviation (input) BOOT_MAPPED_LIMIT :: nat where "BOOT_MAPPED_LIMIT \<equiv> 0x40000000"

record e820_entry =
  e8_base :: nat
  e8_len :: nat
  e8_type :: nat
  e8_attr :: nat

section \<open>Operations\<close>

definition highest_usable_end :: "e820_entry list \<Rightarrow> nat" where
  "highest_usable_end bi = fold (\<lambda>e hi. if e8_type e = E820_TYPE_USABLE \<and> u64 (e8_base e + e8_len e) > hi
     then u64 (e8_base e + e8_len e) else hi) bi 0"

definition place_bitmap_step :: "nat \<Rightarrow> nat \<Rightarrow> e820_entry \<Rightarrow> nat \<Rightarrow> nat" where
  "place_bitmap_step sz min_addr e best =
     (if e8_type e \<noteq> E820_TYPE_USABLE then best
      else let start = page_up (if e8_base e < min_addr then min_addr else e8_base e);
               hi = page_down (u64 (e8_base e + e8_len e));
               hi = (if hi > BOOT_MAPPED_LIMIT then BOOT_MAPPED_LIMIT else hi) in
        if start \<ge> hi \<or> hi - start < sz then best
        else if best = 0 \<or> start < best then start else best)"

definition place_bitmap :: "e820_entry list \<Rightarrow> nat \<Rightarrow> nat \<Rightarrow> nat" where
  "place_bitmap bi sz min_addr = fold (place_bitmap_step sz min_addr) bi 0"

definition free_usable :: "e820_entry \<Rightarrow> pmm \<Rightarrow> pmm" where
  "free_usable e p =
     (if e8_type e \<noteq> E820_TYPE_USABLE then p
      else let start = page_up (e8_base e); hi = page_down (u64 (e8_base e + e8_len e)) in
        if start < hi then pmm_core_mark_free p (start div PAGE_SIZE) ((hi - start) div PAGE_SIZE) else p)"

definition reserve_unusable :: "e820_entry \<Rightarrow> pmm \<Rightarrow> pmm" where
  "reserve_unusable e p =
     (if e8_type e = E820_TYPE_USABLE then p
      else let start = page_down (e8_base e); hi = page_up (u64 (e8_base e + e8_len e)) in
        pmm_core_mark_used p (start div PAGE_SIZE) (sub64 hi start div PAGE_SIZE))"

definition pmm_init :: "nat \<Rightarrow> byte list \<Rightarrow> e820_entry list \<Rightarrow> (pmm \<times> nat) option" where
  "pmm_init kernel_end_phys mem bi =
     (let mem_end = highest_usable_end bi in
      if mem_end = 0 then None
      else let nframes = page_up mem_end div PAGE_SIZE;
               bitmap_size = pmm_core_bitmap_size nframes;
               bitmap_phys = place_bitmap bi bitmap_size kernel_end_phys in
      if bitmap_phys = 0 then None
      else let p = pmm_core_init mem nframes;
               p = fold free_usable bi p;
               p = fold reserve_unusable bi p;
               p = pmm_core_mark_used p 0 (page_up kernel_end_phys div PAGE_SIZE);
               p = pmm_core_mark_used p (bitmap_phys div PAGE_SIZE) (page_up bitmap_size div PAGE_SIZE) in
        Some (p, bitmap_phys))"

definition pmm_alloc_frame :: "pmm \<Rightarrow> nat \<times> pmm" where
  "pmm_alloc_frame p = (case pmm_core_alloc p of (None, p) \<Rightarrow> (0, p) | (Some f, p) \<Rightarrow> (u64 (f * PAGE_SIZE), p))"

definition pmm_alloc_frames :: "nat \<Rightarrow> nat \<Rightarrow> pmm \<Rightarrow> nat \<times> pmm" where
  "pmm_alloc_frames count align_frames p =
     (case pmm_core_alloc_run p count align_frames of (None, p) \<Rightarrow> (0, p) | (Some f, p) \<Rightarrow> (u64 (f * PAGE_SIZE), p))"

definition pmm_free_frame :: "nat \<Rightarrow> pmm \<Rightarrow> pmm option" where
  "pmm_free_frame paddr p =
     (if paddr mod PAGE_SIZE \<noteq> 0 then None
      else case pmm_core_free p (paddr div PAGE_SIZE) of (ok, p) \<Rightarrow> if ok then Some p else None)"

definition pmm_total_frames :: "pmm \<Rightarrow> nat" where
  "pmm_total_frames p = pmm_nframes p"

definition pmm_free_frames :: "pmm \<Rightarrow> nat" where
  "pmm_free_frames p = pmm_free_count p"

section \<open>The frame map\<close>

text \<open>Regions that do not wrap around the end of the address space.\<close>

definition regions_ok :: "e820_entry list \<Rightarrow> bool" where
  "regions_ok bi \<longleftrightarrow> (\<forall>e \<in> set bi. e8_base e + e8_len e + PAGE_SIZE \<le> 2 ^ 64)"

text \<open>Frame \<open>f\<close> lies in a region, and frame \<open>f\<close> shares a byte with a region.\<close>

definition frame_within :: "nat \<Rightarrow> e820_entry \<Rightarrow> bool" where
  "frame_within f e \<longleftrightarrow> e8_base e \<le> f * PAGE_SIZE \<and> f * PAGE_SIZE + PAGE_SIZE \<le> e8_base e + e8_len e"

definition frame_touches :: "nat \<Rightarrow> nat \<Rightarrow> nat \<Rightarrow> bool" where
  "frame_touches f lo hi \<longleftrightarrow> lo < f * PAGE_SIZE + PAGE_SIZE \<and> f * PAGE_SIZE < hi"

text \<open>The frames a table makes usable, and the frames it takes back.\<close>

definition usable_frames :: "e820_entry list \<Rightarrow> nat set" where
  "usable_frames es = {f. \<exists>e \<in> set es. e8_type e = E820_TYPE_USABLE \<and> frame_within f e}"

definition reserved_frames :: "e820_entry list \<Rightarrow> nat set" where
  "reserved_frames es = {f. \<exists>e \<in> set es. e8_type e \<noteq> E820_TYPE_USABLE
     \<and> frame_touches f (e8_base e) (e8_base e + e8_len e)}"

lemma frames_Cons:
  "usable_frames (e # es) = usable_frames [e] \<union> usable_frames es"
  "reserved_frames (e # es) = reserved_frames [e] \<union> reserved_frames es"
  by (auto simp: usable_frames_def reserved_frames_def)

lemma frames_Nil [simp]: "usable_frames [] = {}" "reserved_frames [] = {}"
  by (simp_all add: usable_frames_def reserved_frames_def)

lemma page_up_small: "a + PAGE_SIZE \<le> 2 ^ 64 \<Longrightarrow> page_up a = page_down (a + PAGE_SIZE - 1)"
  by (simp add: page_up_def u64_def add.commute)

lemma page_up_bounds:
  assumes "a + PAGE_SIZE \<le> 2 ^ 64"
  shows "a \<le> page_up a" "page_up a < a + PAGE_SIZE" "page_up a mod PAGE_SIZE = 0"
  using page_down_le [of "a + 4095"] page_up_small [OF assms] by (simp_all add: add.commute)

lemma frame_cmp:
  assumes "A mod PAGE_SIZE = 0"
  shows "A div PAGE_SIZE \<le> f \<longleftrightarrow> A \<le> f * PAGE_SIZE" "f < A div PAGE_SIZE \<longleftrightarrow> f * PAGE_SIZE < A"
    "f < A div PAGE_SIZE \<longleftrightarrow> f * PAGE_SIZE + PAGE_SIZE \<le> A"
proof -
  obtain k where "A = 4096 * k" using assms by (metis mod_eq_0_iff_dvd dvdE)
  then show "A div PAGE_SIZE \<le> f \<longleftrightarrow> A \<le> f * PAGE_SIZE" "f < A div PAGE_SIZE \<longleftrightarrow> f * PAGE_SIZE < A"
    "f < A div PAGE_SIZE \<longleftrightarrow> f * PAGE_SIZE + PAGE_SIZE \<le> A" by auto
qed

lemma page_up_le_iff:
  assumes "a + PAGE_SIZE \<le> 2 ^ 64"
  shows "page_up a \<le> f * PAGE_SIZE \<longleftrightarrow> a \<le> f * PAGE_SIZE"
proof -
  note u = page_up_bounds [OF assms]
  show ?thesis using u(1,2) page_less [OF u(3), of "f * 4096"] by auto
qed

lemma le_page_down_iff: "f * PAGE_SIZE + PAGE_SIZE \<le> page_down a \<longleftrightarrow> f * PAGE_SIZE + PAGE_SIZE \<le> a"
proof -
  note d = page_down_le [of a]
  show ?thesis using d(1,3) page_less [OF _ d(2), of "(f + 1) * 4096"] by auto
qed

lemma mark_nframes:
  assumes "pmm_inv p"
  shows "pmm_nframes (pmm_core_mark_used p first count) = pmm_nframes p"
    "pmm_nframes (pmm_core_mark_free p first count) = pmm_nframes p"
  using pmm_mark_used_from_run [OF assms] pmm_mark_free_from_run [OF assms]
  by (simp_all add: pmm_core_mark_used_def pmm_core_mark_free_def)

lemma mark_free_pages:
  assumes inv: "pmm_inv p" and pages: "start mod PAGE_SIZE = 0" "hi mod PAGE_SIZE = 0" "start < hi" "hi < 2 ^ 64"
  shows "pmm_inv (pmm_core_mark_free p (start div PAGE_SIZE) ((hi - start) div PAGE_SIZE))
    \<and> pmm_free_set (pmm_core_mark_free p (start div PAGE_SIZE) ((hi - start) div PAGE_SIZE))
        = pmm_free_set p \<union> {f. start \<le> f * PAGE_SIZE \<and> f * PAGE_SIZE + PAGE_SIZE \<le> hi} \<inter> {..<pmm_nframes p}"
proof -
  obtain a b where ab: "start = 4096 * a" "hi = 4096 * b" using pages(1,2) by (metis mod_eq_0_iff_dvd dvdE)
  have c: "(hi - start) div 4096 = b - a" using ab by (simp flip: diff_mult_distrib2)
  have s: "start div 4096 + (hi - start) div 4096 = hi div 4096" using pages(3) c ab by simp
  then have "start div 4096 + (hi - start) div 4096 < 2 ^ 64" using pages(4) ab by simp
  from pmm_core_mark_free_run [OF inv this] show ?thesis
    unfolding s using frame_cmp [OF pages(1)] frame_cmp [OF pages(2)] by auto
qed

lemma free_usable_run:
  assumes inv: "pmm_inv p" and e: "e8_base e + e8_len e + PAGE_SIZE \<le> 2 ^ 64"
  shows "pmm_inv (free_usable e p) \<and> pmm_nframes (free_usable e p) = pmm_nframes p
    \<and> pmm_free_set (free_usable e p) = pmm_free_set p \<union> usable_frames [e] \<inter> {..<pmm_nframes p}"
proof -
  let ?s = "page_up (e8_base e)" and ?h = "page_down (e8_base e + e8_len e)"
  have b: "e8_base e + 4096 \<le> 2 ^ 64" using e by simp
  have u: "u64 (e8_base e + e8_len e) = e8_base e + e8_len e" using e by (simp add: u64_def)
  have h: "?h < 2 ^ 64" using page_down_le(1) [of "e8_base e + e8_len e"] e by linarith
  have us: "usable_frames [e] = (if e8_type e = E820_TYPE_USABLE then {f. ?s \<le> f * 4096 \<and> f * 4096 + 4096 \<le> ?h} else {})"
    by (simp only: page_up_le_iff [OF b] le_page_down_iff usable_frames_def frame_within_def) simp
  show ?thesis
  proof (cases "e8_type e = E820_TYPE_USABLE \<and> ?s < ?h")
    case True
    then have eq: "free_usable e p = pmm_core_mark_free p (?s div 4096) ((?h - ?s) div 4096)"
      by (simp add: free_usable_def u Let_def)
    show ?thesis
      using mark_free_pages [OF inv page_up_bounds(3) [OF b] page_down_le(2) conjunct2 [OF True] h] True
      unfolding eq us by (simp add: mark_nframes inv)
  next
    case False
    then have "usable_frames [e] = {}" unfolding us by auto
    then show ?thesis using inv False by (auto simp: free_usable_def u Let_def)
  qed
qed

lemma fold_free_usable:
  assumes "pmm_inv p" "\<forall>e \<in> set es. e8_base e + e8_len e + PAGE_SIZE \<le> 2 ^ 64"
  shows "pmm_inv (fold free_usable es p) \<and> pmm_nframes (fold free_usable es p) = pmm_nframes p
    \<and> pmm_free_set (fold free_usable es p) = pmm_free_set p \<union> usable_frames es \<inter> {..<pmm_nframes p}"
  using assms
proof (induction es arbitrary: p)
  case (Cons e es)
  then show ?case using free_usable_run [OF Cons.prems(1), of e] Cons.IH [of "free_usable e p"]
    by (auto simp: frames_Cons [of e es])
qed simp

lemma mark_used_pages:
  assumes inv: "pmm_inv p" and pages: "start mod PAGE_SIZE = 0" "hi mod PAGE_SIZE = 0" "start \<le> hi" "hi < 2 ^ 64 + PAGE_SIZE"
  shows "pmm_inv (pmm_core_mark_used p (start div PAGE_SIZE) ((hi - start) div PAGE_SIZE))
    \<and> pmm_free_set (pmm_core_mark_used p (start div PAGE_SIZE) ((hi - start) div PAGE_SIZE))
        = pmm_free_set p - {f. start \<le> f * PAGE_SIZE \<and> f * PAGE_SIZE < hi}"
proof -
  obtain a b where ab: "start = 4096 * a" "hi = 4096 * b" using pages(1,2) by (metis mod_eq_0_iff_dvd dvdE)
  have c: "(hi - start) div 4096 = b - a" using ab by (simp flip: diff_mult_distrib2)
  have s: "start div 4096 + (hi - start) div 4096 = hi div 4096" using pages(3) c ab by simp
  then have "start div 4096 + (hi - start) div 4096 < 2 ^ 64" using pages(4) ab by simp
  from pmm_core_mark_used_run [OF inv this] show ?thesis
    unfolding s using frame_cmp [OF pages(1)] frame_cmp [OF pages(2)] by auto
qed

lemma reserve_unusable_run:
  assumes inv: "pmm_inv p" and e: "e8_base e + e8_len e + PAGE_SIZE \<le> 2 ^ 64"
  shows "pmm_inv (reserve_unusable e p) \<and> pmm_nframes (reserve_unusable e p) = pmm_nframes p
    \<and> pmm_free_set (reserve_unusable e p) = pmm_free_set p - reserved_frames [e]"
proof (cases "e8_type e = E820_TYPE_USABLE")
  case False
  let ?s = "page_down (e8_base e)" and ?h = "page_up (e8_base e + e8_len e)"
  have u: "u64 (e8_base e + e8_len e) = e8_base e + e8_len e" using e by (simp add: u64_def)
  note pu = page_up_bounds [OF e] and pd = page_down_le [of "e8_base e"]
  have le: "?s \<le> ?h" using pu(1) pd(1) by linarith
  have h: "?h < 2 ^ 64 + 4096" using pu(2) e by linarith
  have "?h < 2 ^ 64" using pu(2) e by linarith
  then have sub: "sub64 ?h ?s = ?h - ?s" using le by simp
  have r: "reserve_unusable e p = pmm_core_mark_used p (?s div 4096) ((?h - ?s) div 4096)"
    using False by (simp add: reserve_unusable_def u sub Let_def)
  have t: "?s \<le> f * 4096 \<longleftrightarrow> e8_base e < f * 4096 + 4096" for f
    using pd(1,3) page_less [OF pd(2), of "f * 4096"] page_less [of "f * 4096" ?s] pd(2) by auto
  have "f * 4096 < ?h \<longleftrightarrow> f * 4096 < e8_base e + e8_len e" for f
    using page_up_le_iff [OF e, of f] by auto
  then show ?thesis unfolding r using mark_used_pages [OF inv pd(2) pu(3) le h] False
    by (simp add: t mark_nframes [OF inv] reserved_frames_def frame_touches_def)
qed (use inv in \<open>simp add: reserve_unusable_def reserved_frames_def\<close>)

lemma fold_reserve_unusable:
  assumes "pmm_inv p" "\<forall>e \<in> set es. e8_base e + e8_len e + PAGE_SIZE \<le> 2 ^ 64"
  shows "pmm_inv (fold reserve_unusable es p) \<and> pmm_nframes (fold reserve_unusable es p) = pmm_nframes p
    \<and> pmm_free_set (fold reserve_unusable es p) = pmm_free_set p - reserved_frames es"
  using assms
proof (induction es arbitrary: p)
  case (Cons e es)
  then show ?case using reserve_unusable_run [OF Cons.prems(1), of e] Cons.IH [of "reserve_unusable e p"]
    by (auto simp: frames_Cons [of e es])
qed simp

definition bitmap_home :: "e820_entry list \<Rightarrow> nat \<Rightarrow> nat \<Rightarrow> nat \<Rightarrow> bool" where
  "bitmap_home bi sz min_addr best \<longleftrightarrow> best mod PAGE_SIZE = 0 \<and> min_addr \<le> best \<and> best + sz \<le> BOOT_MAPPED_LIMIT
     \<and> (\<exists>e \<in> set bi. e8_type e = E820_TYPE_USABLE \<and> e8_base e \<le> best \<and> best + sz \<le> e8_base e + e8_len e)"

lemma place_bitmap_step_run:
  assumes e: "e8_base e + e8_len e + PAGE_SIZE \<le> 2 ^ 64" and m: "min_addr + PAGE_SIZE \<le> 2 ^ 64"
  shows "place_bitmap_step sz min_addr e best = best
    \<or> bitmap_home [e] sz min_addr (place_bitmap_step sz min_addr e best)"
proof -
  let ?a = "if e8_base e < min_addr then min_addr else e8_base e"
  let ?h = "page_down (e8_base e + e8_len e)"
  let ?hi = "if ?h > BOOT_MAPPED_LIMIT then BOOT_MAPPED_LIMIT else ?h"
  have u: "u64 (e8_base e + e8_len e) = e8_base e + e8_len e" using e by (simp add: u64_def)
  have a: "?a + 4096 \<le> 2 ^ 64" using e m by simp
  note pu = page_up_bounds [OF a] and pd = page_down_le(1) [of "e8_base e + e8_len e"]
  have "bitmap_home [e] sz min_addr (page_up ?a)" if "e8_type e = E820_TYPE_USABLE" "page_up ?a < ?hi" "sz \<le> ?hi - page_up ?a"
  proof -
    have "min_addr \<le> ?a" "e8_base e \<le> ?a" by simp_all
    then have "min_addr \<le> page_up ?a" "e8_base e \<le> page_up ?a" using pu(1) by linarith+
    moreover have "page_up ?a + sz \<le> ?hi" using that(2,3) by linarith
    moreover have "?hi \<le> BOOT_MAPPED_LIMIT" "?hi \<le> e8_base e + e8_len e" using pd by auto
    ultimately show ?thesis using that(1) pu(3) unfolding bitmap_home_def by auto
  qed
  then show ?thesis unfolding place_bitmap_step_def Let_def u by (auto simp: not_less)
qed

lemma place_bitmap_run:
  assumes "\<forall>e \<in> set es. e8_base e + e8_len e + PAGE_SIZE \<le> 2 ^ 64" "min_addr + PAGE_SIZE \<le> 2 ^ 64"
  shows "fold (place_bitmap_step sz min_addr) es b = b \<or> bitmap_home es sz min_addr (fold (place_bitmap_step sz min_addr) es b)"
  using assms(1)
proof (induction es arbitrary: b)
  case (Cons e es)
  let ?b = "place_bitmap_step sz min_addr e b"
  have "?b = b \<or> bitmap_home [e] sz min_addr ?b" using place_bitmap_step_run [OF _ assms(2)] Cons.prems by simp
  moreover have "fold (place_bitmap_step sz min_addr) es ?b = ?b
      \<or> bitmap_home es sz min_addr (fold (place_bitmap_step sz min_addr) es ?b)" using Cons by simp
  ultimately show ?case unfolding fold_simps(2) o_apply bitmap_home_def by auto
qed simp

text \<open>The number of frames covers every usable region.\<close>

lemma highest_usable_run:
  assumes "\<forall>e \<in> set es. e8_base e + e8_len e + PAGE_SIZE \<le> 2 ^ 64" "hi + PAGE_SIZE \<le> 2 ^ 64"
  shows "let r = fold (\<lambda>e hi. if e8_type e = E820_TYPE_USABLE \<and> u64 (e8_base e + e8_len e) > hi
       then u64 (e8_base e + e8_len e) else hi) es hi in
     r + PAGE_SIZE \<le> 2 ^ 64 \<and> hi \<le> r \<and> (\<forall>e \<in> set es. e8_type e = E820_TYPE_USABLE \<longrightarrow> e8_base e + e8_len e \<le> r)"
  using assms
proof (induction es arbitrary: hi)
  case (Cons e es)
  let ?hi = "if e8_type e = E820_TYPE_USABLE \<and> u64 (e8_base e + e8_len e) > hi then u64 (e8_base e + e8_len e) else hi"
  have u: "u64 (e8_base e + e8_len e) = e8_base e + e8_len e" using Cons.prems(1) by (simp add: u64_def)
  have "?hi + 4096 \<le> 2 ^ 64" using Cons.prems by (simp add: u)
  from Cons.IH [OF _ this] Cons.prems(1) show ?case by (auto simp: u Let_def split: if_splits)
qed simp

lemma usable_frames_bound:
  assumes "\<forall>e \<in> set bi. e8_base e + e8_len e + PAGE_SIZE \<le> 2 ^ 64" "f \<in> usable_frames bi"
  shows "f < page_up (highest_usable_end bi) div PAGE_SIZE"
proof -
  let ?m = "highest_usable_end bi"
  obtain e where e: "e \<in> set bi" "e8_type e = E820_TYPE_USABLE" "f * 4096 + 4096 \<le> e8_base e + e8_len e"
    using assms(2) by (auto simp: usable_frames_def frame_within_def)
  have m: "?m + 4096 \<le> 2 ^ 64" "e8_base e + e8_len e \<le> ?m"
    using highest_usable_run [OF assms(1), of 0] e(1,2) by (auto simp: highest_usable_end_def Let_def)
  note u = page_up_bounds [OF m(1)]
  show ?thesis using e(3) m(2) u(1) unfolding frame_cmp(3) [OF u(3)] by linarith
qed


definition e820_example :: "e820_entry list" where
  "e820_example = [\<lparr>e8_base = 0, e8_len = 0x9FC00, e8_type = 1, e8_attr = 1\<rparr>,
     \<lparr>e8_base = 0x9FC00, e8_len = 0x60400, e8_type = 2, e8_attr = 1\<rparr>,
     \<lparr>e8_base = 0x100000, e8_len = 0x100800, e8_type = 1, e8_attr = 1\<rparr>,
     \<lparr>e8_base = 0x1F0000, e8_len = 16, e8_type = 3, e8_attr = 1\<rparr>]"

lemma e820_example_init:
  "regions_ok e820_example" "page_up (highest_usable_end e820_example) div PAGE_SIZE = 513"
  "pmm_core_bitmap_size 513 = 65" "place_bitmap e820_example 65 0x180000 = 0x180000"
  by (simp_all add: e820_example_def regions_ok_def highest_usable_end_def page_up_def page_down_def u64_def
      pmm_core_bitmap_size_def place_bitmap_def place_bitmap_step_def)


end
