(* ===== verification/Paging.thy ===== *)
theory Paging
  imports Pmm Lib_Le "HOL-Library.Sublist"
begin

text \<open>
  Page tables (\<^verbatim>\<open>kernel/arch/x86_64/paging.c\<close>). Physical memory is a map from frame numbers to pages of
  bytes; a table entry is the little-endian 64-bit word at its address, so tables and the data of
  mapped pages live in one memory and may alias. The direct map through which the C code reaches a
  frame (\<^verbatim>\<open>phys_to_virt\<close>) is the identity here, and loading \<^verbatim>\<open>CR3\<close> is not modelled.
\<close>

section \<open>Entries and memory\<close>

abbreviation (input) PTE_P :: nat where "PTE_P \<equiv> 0x1"
abbreviation (input) PTE_W :: nat where "PTE_W \<equiv> 0x2"
abbreviation (input) PTE_US :: nat where "PTE_US \<equiv> 0x4"
abbreviation (input) PTE_PCD :: nat where "PTE_PCD \<equiv> 0x10"
abbreviation (input) PTE_PS :: nat where "PTE_PS \<equiv> 0x80"
abbreviation (input) PTE_G :: nat where "PTE_G \<equiv> 0x100"
abbreviation (input) PTE_NX :: nat where "PTE_NX \<equiv> 0x8000000000000000"
abbreviation (input) PTE_ADDR_MASK :: nat where "PTE_ADDR_MASK \<equiv> 0x000FFFFFFFFFF000"

abbreviation (input) PAGING_OK :: int where "PAGING_OK \<equiv> 0"
abbreviation (input) PAGING_ENOMEM :: int where "PAGING_ENOMEM \<equiv> - 1"
abbreviation (input) PAGING_EEXIST :: int where "PAGING_EEXIST \<equiv> - 2"
abbreviation (input) PAGING_EALIGN :: int where "PAGING_EALIGN \<equiv> - 3"

abbreviation (input) ENTRIES :: nat where "ENTRIES \<equiv> 512"
abbreviation (input) SIZE_4K :: nat where "SIZE_4K \<equiv> 0x1000"
abbreviation (input) SIZE_2M :: nat where "SIZE_2M \<equiv> 0x200000"
abbreviation (input) TABLE_FLAGS :: nat where "TABLE_FLAGS \<equiv> PTE_P OR PTE_W"

record addrspace =
  pml4_phys :: nat

record kmem =
  km_pmm :: pmm
  km_mem :: "nat \<Rightarrow> byte list"

text \<open>\<^verbatim>\<open>table_virt(table)[index]\<close>, read and written.\<close>

definition pte_get :: "(nat \<Rightarrow> byte list) \<Rightarrow> nat \<Rightarrow> nat \<Rightarrow> nat" where
  "pte_get m table index = (let pa = table + 8 * index in le_get 8 (m (pa div PAGE_SIZE)) (pa mod PAGE_SIZE))"

definition pte_set :: "nat \<Rightarrow> nat \<Rightarrow> nat \<Rightarrow> (nat \<Rightarrow> byte list) \<Rightarrow> nat \<Rightarrow> byte list" where
  "pte_set table index e m = (let pa = table + 8 * index in
     m(pa div PAGE_SIZE := le_put 8 (m (pa div PAGE_SIZE)) (pa mod PAGE_SIZE) e))"

definition km_frame :: "nat \<Rightarrow> byte list \<Rightarrow> kmem \<Rightarrow> kmem" where
  "km_frame pa page k = k\<lparr>km_mem := (km_mem k)(pa div PAGE_SIZE := page)\<rparr>"

definition km_alloc :: "kmem \<Rightarrow> nat \<times> kmem" where
  "km_alloc k = (case pmm_alloc_frame (km_pmm k) of (f, p) \<Rightarrow> (f, k\<lparr>km_pmm := p\<rparr>))"

definition km_free :: "nat \<Rightarrow> kmem \<Rightarrow> kmem option" where
  "km_free paddr k = map_option (\<lambda>p. k\<lparr>km_pmm := p\<rparr>) (pmm_free_frame paddr (km_pmm k))"

definition km_set :: "nat \<Rightarrow> nat \<Rightarrow> nat \<Rightarrow> kmem \<Rightarrow> kmem" where
  "km_set table index e k = k\<lparr>km_mem := pte_set table index e (km_mem k)\<rparr>"

section \<open>Operations\<close>

definition index_at :: "nat \<Rightarrow> nat \<Rightarrow> nat" where
  "index_at virt level = drop_bit (12 + 9 * (level - 1)) virt AND 0x1FF"

definition next_table :: "nat \<Rightarrow> nat \<Rightarrow> nat \<Rightarrow> kmem \<Rightarrow> nat \<times> kmem" where
  "next_table table index user_flag k =
     (let entry = pte_get (km_mem k) table index in
      if entry AND PTE_P \<noteq> 0 then
        (entry AND PTE_ADDR_MASK,
         if user_flag \<noteq> 0 \<and> entry AND PTE_US = 0 then km_set table index (entry OR PTE_US) k else k)
      else case km_alloc k of (frame, k) \<Rightarrow>
        if frame = 0 then (0, k)
        else (frame, km_set table index (frame OR TABLE_FLAGS OR user_flag) (km_frame frame (zeros SIZE_4K) k)))"

definition paging_addrspace_create :: "kmem \<Rightarrow> (int + addrspace) \<times> kmem" where
  "paging_addrspace_create k =
     (case km_alloc k of (frame, k) \<Rightarrow>
        if frame = 0 then (Inl PAGING_ENOMEM, k)
        else (Inr \<lparr>pml4_phys = frame\<rparr>, km_frame frame (zeros SIZE_4K) k))"

text \<open>The descent of \<^verbatim>\<open>map_common\<close> through the levels; 0 when a table could not be allocated.\<close>

fun descend :: "nat \<Rightarrow> nat \<Rightarrow> nat list \<Rightarrow> nat \<Rightarrow> kmem \<Rightarrow> nat \<times> kmem" where
  "descend virt user_flag [] table k = (table, k)"
| "descend virt user_flag (level # levels) table k =
     (case next_table table (index_at virt level) user_flag k of (table, k) \<Rightarrow>
        if table = 0 then (0, k) else descend virt user_flag levels table k)"

definition map_common :: "addrspace \<Rightarrow> nat \<Rightarrow> nat \<Rightarrow> nat \<Rightarrow> nat \<Rightarrow> nat \<Rightarrow> kmem \<Rightarrow> int \<times> kmem" where
  "map_common as virt phys flags leaf_level page_size k =
     (if virt AND (page_size - 1) \<noteq> 0 \<or> phys AND (page_size - 1) \<noteq> 0 then (PAGING_EALIGN, k)
      else case descend virt (flags AND PTE_US) (rev [leaf_level + 1..<5]) (pml4_phys as) k of (table, k) \<Rightarrow>
        if table = 0 then (PAGING_ENOMEM, k)
        else let idx = index_at virt leaf_level in
          if pte_get (km_mem k) table idx AND PTE_P \<noteq> 0 then (PAGING_EEXIST, k)
          else let ps = (if leaf_level = 2 then PTE_PS else 0) in
            (PAGING_OK, km_set table idx (phys AND PTE_ADDR_MASK OR flags OR ps OR PTE_P) k))"

definition paging_map_4k :: "addrspace \<Rightarrow> nat \<Rightarrow> nat \<Rightarrow> nat \<Rightarrow> kmem \<Rightarrow> int \<times> kmem" where
  "paging_map_4k as virt phys flags k = map_common as virt phys flags 1 SIZE_4K k"

definition paging_map_2m :: "addrspace \<Rightarrow> nat \<Rightarrow> nat \<Rightarrow> nat \<Rightarrow> kmem \<Rightarrow> int \<times> kmem" where
  "paging_map_2m as virt phys flags k = map_common as virt phys flags 2 SIZE_2M k"

text \<open>
  The lookup loop, by level. The result is the leaf entry and the translated address, which the C
  code stores in \<^verbatim>\<open>*phys_out\<close>; \<open>None\<close> is the return value 0. Clearing the low bits of an address
  subtracts the remainder.
\<close>

fun lookup_from :: "(nat \<Rightarrow> byte list) \<Rightarrow> nat \<Rightarrow> nat \<Rightarrow> nat \<Rightarrow> (nat \<times> nat) option" where
  "lookup_from m virt table 0 = None"
| "lookup_from m virt table (Suc l) =
     (let level = Suc l; entry = pte_get m table (index_at virt level) in
      if entry AND PTE_P = 0 then None
      else if level = 1 \<or> level = 2 \<and> entry AND PTE_PS \<noteq> 0 then
        let page_size = (if level = 2 then SIZE_2M else SIZE_4K); a = entry AND PTE_ADDR_MASK in
          Some (entry, (a - a mod page_size) OR (virt AND (page_size - 1)))
      else lookup_from m virt (entry AND PTE_ADDR_MASK) l)"

definition paging_lookup :: "addrspace \<Rightarrow> nat \<Rightarrow> kmem \<Rightarrow> (nat \<times> nat) option" where
  "paging_lookup as virt k = lookup_from (km_mem k) virt (pml4_phys as) 4"

section \<open>Bits of entries\<close>

declare and_one_eq [simp del] one_and_eq [simp del] and_Suc_0_eq [simp del] Suc_0_and_eq [simp del]

lemma and_or_nat: "(a OR b) AND c = (a AND c) OR (b AND c)" for a b c :: nat
  by (rule bit_eqI) (auto simp: bit_simps)

lemma or_and_nat: "a AND (b OR c) = (a AND b) OR (a AND c)" for a b c :: nat
  by (rule bit_eqI) (auto simp: bit_simps)

lemma or_eq_0_nat [simp]: "a OR b = 0 \<longleftrightarrow> a = 0 \<and> b = 0" for a b :: nat
  by (auto simp: or_eq_0_iff)

lemma or_less_nat: "a < 2 ^ n \<Longrightarrow> b < 2 ^ n \<Longrightarrow> a OR b < 2 ^ n" for a b :: nat
  by (simp flip: take_bit_nat_eq_self_iff add: take_bit_or)

lemma and_exp_nat: "a AND 2 ^ n = (if bit a n then 2 ^ n else 0)" for a :: nat
  by (rule bit_eqI) (auto simp: bit_simps)

lemma and_mask_mod: "a AND (2 ^ n - 1) = a mod 2 ^ n" for a :: nat
  unfolding mask_eq_exp_minus_1 [symmetric] take_bit_eq_mask [symmetric] by (rule take_bit_eq_mod)

lemma addr_mask: "(PTE_ADDR_MASK :: nat) = push_bit 12 (mask 40)"
  by (simp add: mask_eq_exp_minus_1 push_bit_eq_mult)

lemma bit_addr_mask: "bit (PTE_ADDR_MASK :: nat) k \<longleftrightarrow> 12 \<le> k \<and> k < 52"
  unfolding addr_mask by (auto simp: bit_simps)

lemma and_addr_mask: "a AND PTE_ADDR_MASK = a div PAGE_SIZE mod 2 ^ 40 * PAGE_SIZE"
proof -
  have "a AND PTE_ADDR_MASK = push_bit 12 (take_bit 40 (drop_bit 12 a))"
    unfolding addr_mask by (rule bit_eqI) (auto simp: bit_simps)
  then show ?thesis by (simp add: push_bit_eq_mult take_bit_eq_mod drop_bit_eq_div)
qed

lemma page_and_mask [simp]: "a mod PAGE_SIZE = 0 \<Longrightarrow> a < 2 ^ 52 \<Longrightarrow> a AND PTE_ADDR_MASK = a"
  unfolding and_addr_mask by (auto simp: mod_eq_0_iff_dvd elim!: dvdE)

lemma masked_page [simp]: "(a AND PTE_ADDR_MASK) mod PAGE_SIZE = 0" "a AND PTE_ADDR_MASK < 2 ^ 52"
  unfolding and_addr_mask by simp_all

lemma page_and_low: "a mod PAGE_SIZE = 0 \<Longrightarrow> c < PAGE_SIZE \<Longrightarrow> a AND c = 0"
proof -
  assume a: "a mod PAGE_SIZE = 0" and c: "c < PAGE_SIZE"
  have "take_bit 12 a = 0" "take_bit 12 c = c" using a c by (simp_all add: take_bit_eq_mod)
  moreover have "a AND take_bit 12 c = take_bit 12 a AND c" by (rule bit_eqI) (auto simp: bit_simps)
  ultimately show "a AND c = 0" by simp
qed

text \<open>What the walk reads of an entry: present, large, and the address below.\<close>

definition same_link :: "nat \<Rightarrow> nat \<Rightarrow> bool" where
  "same_link e e' \<longleftrightarrow> (e AND PTE_P = 0 \<longleftrightarrow> e' AND PTE_P = 0) \<and> (e AND PTE_PS = 0 \<longleftrightarrow> e' AND PTE_PS = 0)
     \<and> e AND PTE_ADDR_MASK = e' AND PTE_ADDR_MASK"

lemma same_link_user: "same_link e (e OR PTE_US)"
proof -
  have "(PTE_US :: nat) AND PTE_P = 0" "(PTE_US :: nat) AND PTE_PS = 0" "(PTE_US :: nat) AND PTE_ADDR_MASK = 0" by simp_all
  then show ?thesis unfolding same_link_def and_or_nat by simp
qed

lemma table_entry:
  assumes "f mod PAGE_SIZE = 0" "f < 2 ^ 52" "uf = 0 \<or> uf = PTE_US"
  defines "e \<equiv> f OR TABLE_FLAGS OR uf"
  shows "e AND PTE_P \<noteq> 0" "e AND PTE_PS = 0" "e AND PTE_ADDR_MASK = f" "e < 2 ^ 64"
proof -
  have "f AND PTE_PS = 0" by (rule page_and_low [OF assms(1)]) simp
  moreover have "f OR 3 OR uf < 2 ^ 64" using assms(2,3) by (intro or_less_nat) auto
  moreover have "(3 :: nat) AND PTE_P = 1" by simp
  ultimately show "e AND PTE_P \<noteq> 0" "e AND PTE_PS = 0" "e AND PTE_ADDR_MASK = f" "e < 2 ^ 64"
    using assms(1-3) unfolding e_def and_or_nat by auto
qed

lemma user_flag_cases: "flags AND PTE_US = 0 \<or> flags AND PTE_US = PTE_US" for flags :: nat
  using and_exp_nat [of flags 2] by simp

section \<open>Reading and writing entries\<close>

definition km_wf :: "kmem \<Rightarrow> bool" where
  "km_wf k \<longleftrightarrow> pmm_inv (km_pmm k) \<and> 0 \<notin> pmm_free_set (km_pmm k) \<and> pmm_nframes (km_pmm k) * PAGE_SIZE \<le> 2 ^ 52
     \<and> (\<forall>f. length (km_mem k f) = PAGE_SIZE)"

abbreviation free_frames :: "kmem \<Rightarrow> nat set" where
  "free_frames k \<equiv> pmm_free_set (km_pmm k)"

lemma entry_place:
  assumes "t mod PAGE_SIZE = 0" "i < ENTRIES"
  shows "(t + 8 * i) div PAGE_SIZE = t div PAGE_SIZE" "(t + 8 * i) mod PAGE_SIZE = 8 * i"
proof -
  obtain q where t: "t = 4096 * q" using assms(1) by (metis mod_eq_0_iff_dvd dvdE)
  then show "(t + 8 * i) div PAGE_SIZE = t div PAGE_SIZE" "(t + 8 * i) mod PAGE_SIZE = 8 * i"
    using assms(2) by simp_all
qed

lemma pte_get_less: "pte_get m t i < 2 ^ 64"
  using le_get_less [of 8] by (simp add: pte_get_def Let_def)

lemma pte_get_set:
  assumes "\<forall>f. length (m f) = PAGE_SIZE" "t mod PAGE_SIZE = 0" "i < ENTRIES" "t' mod PAGE_SIZE = 0" "i' < ENTRIES" "e < 2 ^ 64"
  shows "pte_get (pte_set t i e m) t' i' = (if t' = t \<and> i' = i then e else pte_get m t' i')"
proof -
  have "t = t div 4096 * 4096" "t' = t' div 4096 * 4096"
    using div_mult_mod_eq [of t 4096] div_mult_mod_eq [of t' 4096] assms(2,4) by linarith+
  then have d: "t' div 4096 = t div 4096 \<longleftrightarrow> t' = t" by metis
  have "i' \<noteq> i \<Longrightarrow> 8 * i' + 8 \<le> 8 * i \<or> 8 * i + 8 \<le> 8 * i'" by linarith
  then show ?thesis
    using assms(1,3,5,6) d by (auto simp: pte_get_def pte_set_def Let_def entry_place [OF assms(2,3)] entry_place [OF assms(4,5)]
        le_get_put_disjoint)
qed

lemma pte_set_length: "\<forall>f. length (m f) = PAGE_SIZE \<Longrightarrow> t mod PAGE_SIZE = 0 \<Longrightarrow> i < ENTRIES \<Longrightarrow>
    length (pte_set t i e m f) = PAGE_SIZE"
  by (auto simp: pte_set_def Let_def entry_place)

lemma pte_set_other: "t mod PAGE_SIZE = 0 \<Longrightarrow> i < ENTRIES \<Longrightarrow> f \<noteq> t div PAGE_SIZE \<Longrightarrow> pte_set t i e m f = m f"
  by (auto simp: pte_set_def Let_def entry_place)

lemma km_set_wf: "km_wf k \<Longrightarrow> t mod PAGE_SIZE = 0 \<Longrightarrow> i < ENTRIES \<Longrightarrow> km_wf (km_set t i e k)"
  by (auto simp: km_wf_def km_set_def pte_set_length)

lemma km_frame_wf: "km_wf k \<Longrightarrow> length page = PAGE_SIZE \<Longrightarrow> km_wf (km_frame f page k)"
  by (auto simp: km_wf_def km_frame_def)

lemma km_fields [simp]:
  "km_pmm (km_set t i e k) = km_pmm k" "km_mem (km_set t i e k) = pte_set t i e (km_mem k)"
  "km_pmm (km_frame f page k) = km_pmm k" "km_mem (km_frame f page k) = (km_mem k)(f div PAGE_SIZE := page)"
  by (simp_all add: km_set_def km_frame_def)

lemma km_alloc_run:
  assumes wf: "km_wf k" and run: "km_alloc k = (f, k')"
  shows "km_mem k' = km_mem k" "km_wf k' \<and> pmm_nframes (km_pmm k') = pmm_nframes (km_pmm k)"
    and "f = 0 \<Longrightarrow> k' = k \<and> free_frames k = {}"
    and "f \<noteq> 0 \<Longrightarrow> f mod PAGE_SIZE = 0 \<and> f < 2 ^ 52 \<and> f div PAGE_SIZE \<in> free_frames k
           \<and> free_frames k' = free_frames k - {f div PAGE_SIZE}"
proof -
  obtain r p where al: "pmm_core_alloc (km_pmm k) = (r, p)" by fastforce
  have inv: "pmm_inv (km_pmm k)" "0 \<notin> free_frames k" "pmm_nframes (km_pmm k) * 4096 \<le> 2 ^ 52" using wf by (simp_all add: km_wf_def)
  show "km_mem k' = km_mem k" using run by (auto simp: km_alloc_def split: prod.splits)
  have step: "km_wf k' \<and> pmm_nframes (km_pmm k') = pmm_nframes (km_pmm k) \<and> (f = 0 \<longrightarrow> k' = k \<and> free_frames k = {}) \<and> (f \<noteq> 0 \<longrightarrow> f mod 4096 = 0 \<and> f < 2 ^ 52
      \<and> f div 4096 \<in> free_frames k \<and> free_frames k' = free_frames k - {f div 4096})"
  proof (cases r)
    case None
    then have "k' = k" "f = 0" "free_frames k = {}"
      using pool.al_None [OF inv(1)] al run by (auto simp: km_alloc_def pmm_alloc_frame_def)
    then show ?thesis using wf by simp
  next
    case (Some g)
    note a = pool.al_Some [OF inv(1), of g p] 
    have g: "g \<in> free_frames k" "pmm_free_set p = free_frames k - {g}" "pmm_nframes p = pmm_nframes (km_pmm k)" "pmm_inv p"
      using a al Some by simp_all
    have "g < pmm_nframes (km_pmm k)" using g(1) by (simp add: pmm_free_set_eq)
    moreover have "g \<noteq> 0" using g(1) inv(2) by metis
    ultimately have "g < pmm_nframes (km_pmm k)" "g \<noteq> 0" by simp_all
    then have "g * 4096 < 2 ^ 52" "g * 4096 \<noteq> 0" using inv(3) by simp_all
    then have "f = g * 4096" "k' = k\<lparr>km_pmm := p\<rparr>"
      using run al Some by (simp_all add: km_alloc_def pmm_alloc_frame_def)
    then show ?thesis using g wf \<open>g * 4096 < 2 ^ 52\<close> \<open>g \<noteq> 0\<close> by (auto simp: km_wf_def)
  qed
  then show "km_wf k' \<and> pmm_nframes (km_pmm k') = pmm_nframes (km_pmm k)" "f = 0 \<Longrightarrow> k' = k \<and> free_frames k = {}"
    "f \<noteq> 0 \<Longrightarrow> f mod PAGE_SIZE = 0 \<and> f < 2 ^ 52 \<and> f div PAGE_SIZE \<in> free_frames k
           \<and> free_frames k' = free_frames k - {f div PAGE_SIZE}" by blast+
qed

section \<open>The tree of tables\<close>

text \<open>
  The table reached from the table \<open>t\<close> of a level along a list of indices, and the leaf entries of an
  address space: a path of three indices and a fourth, or of two and a third whose entry is large.
\<close>

definition links :: "nat \<Rightarrow> nat \<Rightarrow> bool" where
  "links l e \<longleftrightarrow> e AND PTE_P \<noteq> 0 \<and> \<not> (l = 2 \<and> e AND PTE_PS \<noteq> 0)"

fun table_at :: "(nat \<Rightarrow> byte list) \<Rightarrow> nat \<Rightarrow> nat \<Rightarrow> nat list \<Rightarrow> nat option" where
  "table_at m l t [] = Some t"
| "table_at m l t (i # is) = (let e = pte_get m t i in
     if links l e then table_at m (l - 1) (e AND PTE_ADDR_MASK) is else None)"

definition is_leaf :: "nat list \<Rightarrow> nat \<Rightarrow> bool" where
  "is_leaf p e \<longleftrightarrow> e AND PTE_P \<noteq> 0 \<and> (length p = 3 \<or> length p = 2 \<and> e AND PTE_PS \<noteq> 0)"

definition leaf_at :: "(nat \<Rightarrow> byte list) \<Rightarrow> nat \<Rightarrow> nat list \<Rightarrow> nat \<Rightarrow> nat option" where
  "leaf_at m root p i = (case table_at m 4 root p of None \<Rightarrow> None
     | Some t \<Rightarrow> let e = pte_get m t i in if is_leaf p e then Some e else None)"

definition is_path :: "nat list \<Rightarrow> bool" where
  "is_path p \<longleftrightarrow> length p \<le> 3 \<and> (\<forall>i \<in> set p. i < ENTRIES)"

definition tree :: "(nat \<Rightarrow> byte list) \<Rightarrow> nat set \<Rightarrow> nat \<Rightarrow> bool" where
  "tree m free root \<longleftrightarrow>
     (\<forall>p t. is_path p \<longrightarrow> table_at m 4 root p = Some t \<longrightarrow> t mod PAGE_SIZE = 0 \<and> t \<noteq> 0 \<and> t div PAGE_SIZE \<notin> free)
     \<and> (\<forall>p q t. is_path p \<longrightarrow> is_path q \<longrightarrow> table_at m 4 root p = Some t \<longrightarrow> table_at m 4 root q = Some t \<longrightarrow> p = q)"

definition pt_inv :: "kmem \<Rightarrow> nat \<Rightarrow> bool" where
  "pt_inv k root \<longleftrightarrow> km_wf k \<and> tree (km_mem k) (free_frames k) root"

lemma table_at_snoc:
  "table_at m l t (is @ [i]) = (case table_at m l t is of None \<Rightarrow> None
     | Some u \<Rightarrow> let e = pte_get m u i in if links (l - length is) e then Some (e AND PTE_ADDR_MASK) else None)"
  by (induction "is" arbitrary: l t) (auto simp: Let_def split: option.splits)

lemma treeD:
  assumes "tree m free root" "is_path p" "table_at m 4 root p = Some t"
  shows "t mod PAGE_SIZE = 0" "t \<noteq> 0" "t div PAGE_SIZE \<notin> free"
    and "is_path q \<Longrightarrow> table_at m 4 root q = Some t \<Longrightarrow> q = p"
  using assms unfolding tree_def by blast+

lemma is_path_snoc: "is_path (p @ [i]) \<longleftrightarrow> length p \<le> 2 \<and> is_path p \<and> i < ENTRIES"
  by (auto simp: is_path_def)

lemma is_path_prefix: "is_path p \<Longrightarrow> prefix q p \<Longrightarrow> is_path q"
  by (auto simp: is_path_def prefix_def)

lemma pte_get_frame: "t mod PAGE_SIZE = 0 \<Longrightarrow> i < ENTRIES \<Longrightarrow> m' (t div PAGE_SIZE) = m (t div PAGE_SIZE) \<Longrightarrow>
    pte_get m' t i = pte_get m t i"
  by (simp add: pte_get_def Let_def entry_place)

text \<open>Memory that no table occupies does not matter.\<close>

lemma table_at_frame:
  assumes "\<And>q t. is_path q \<Longrightarrow> table_at m 4 root q = Some t \<Longrightarrow> t mod PAGE_SIZE = 0 \<and> m' (t div PAGE_SIZE) = m (t div PAGE_SIZE)"
    and "is_path p"
  shows "table_at m' 4 root p = table_at m 4 root p"
  using assms(2)
proof (induction p rule: rev_induct)
  case (snoc i p)
  then have p: "is_path p" "i < ENTRIES" by (simp_all add: is_path_snoc)
  show ?case
  proof (cases "table_at m 4 root p")
    case (Some t)
    then have "pte_get m' t i = pte_get m t i" using assms(1) [OF p(1) Some] p(2) by (intro pte_get_frame) simp_all
    then show ?thesis using Some snoc.IH p(1) by (simp add: table_at_snoc)
  qed (use snoc.IH p(1) in \<open>simp add: table_at_snoc\<close>)
qed simp

text \<open>Writing an entry changes the tables below it only.\<close>

lemma table_at_set:
  assumes m: "\<forall>f. length (m f) = PAGE_SIZE" and tr: "tree m free root"
    and p: "is_path p" "table_at m 4 root p = Some t" "i < ENTRIES" and e: "e < 2 ^ 64"
    and q: "is_path q" "\<not> prefix (p @ [i]) q"
  shows "table_at (pte_set t i e m) 4 root q = table_at m 4 root q"
  using q
proof (induction q rule: rev_induct)
  case (snoc j q)
  then have q: "is_path q" "j < ENTRIES" "\<not> prefix (p @ [i]) q" by (auto simp: is_path_snoc)
  note t = treeD [OF tr p(1,2)]
  show ?case
  proof (cases "table_at m 4 root q")
    case (Some u)
    note u = treeD [OF tr q(1) Some]
    have "u = t \<and> j = i \<Longrightarrow> q @ [j] = p @ [i]" using u(4) [OF p(1)] p(2) by simp
    then have "\<not> (u = t \<and> j = i)" using snoc.prems(2) by auto
    then have "pte_get (pte_set t i e m) u j = pte_get m u j" by (auto simp: pte_get_set [OF m t(1) p(3) u(1) q(2) e])
    then show ?thesis using Some snoc.IH [OF q(1,3)] by (simp add: table_at_snoc)
  qed (use snoc.IH [OF q(1,3)] in \<open>simp add: table_at_snoc\<close>)
qed simp

lemma table_at_set_same:
  assumes m: "\<forall>f. length (m f) = PAGE_SIZE" and t: "t mod PAGE_SIZE = 0" "i < ENTRIES" "e < 2 ^ 64" "same_link (pte_get m t i) e"
    and "root mod PAGE_SIZE = 0" "\<forall>j \<in> set q. j < ENTRIES"
  shows "table_at (pte_set t i e m) l root q = table_at m l root q"
  using assms(6,7)
proof (induction q arbitrary: l root)
  case (Cons j q)
  have "links l e = links l (pte_get m t i)" "e AND PTE_ADDR_MASK = pte_get m t i AND PTE_ADDR_MASK"
    using t(4) by (auto simp: same_link_def links_def)
  then show ?case using Cons.prems Cons.IH by (simp add: Let_def pte_get_set [OF m t(1,2) _ _ t(3)])
qed simp

section \<open>Descending\<close>

text \<open>
  What a descent along the path \<open>full\<close> does to an address space: no leaf changes, tables are only
  added, from free frames and on the path, and only tables on the path are written.
\<close>

definition grew :: "nat list \<Rightarrow> nat \<Rightarrow> kmem \<Rightarrow> kmem \<Rightarrow> bool" where
  "grew full root k k' \<longleftrightarrow> pt_inv k' root \<and> free_frames k' \<subseteq> free_frames k
     \<and> pmm_nframes (km_pmm k') = pmm_nframes (km_pmm k)
     \<and> (\<forall>p i. is_path p \<longrightarrow> i < ENTRIES \<longrightarrow> leaf_at (km_mem k') root p i = leaf_at (km_mem k) root p i)
     \<and> (\<forall>p t. is_path p \<longrightarrow> table_at (km_mem k) 4 root p = Some t \<longrightarrow> table_at (km_mem k') 4 root p = Some t)
     \<and> (\<forall>p t. is_path p \<longrightarrow> table_at (km_mem k') 4 root p = Some t \<longrightarrow> table_at (km_mem k) 4 root p = Some t
          \<or> prefix p full \<and> t div PAGE_SIZE \<in> free_frames k - free_frames k')
     \<and> (\<forall>f. km_mem k' f \<noteq> km_mem k f \<or> f \<in> free_frames k - free_frames k'
          \<longrightarrow> (\<exists>p t. prefix p full \<and> table_at (km_mem k') 4 root p = Some t \<and> f = t div PAGE_SIZE))"

lemma grew_refl: "pt_inv k root \<Longrightarrow> grew full root k k"
  by (simp add: grew_def)

lemma grewD:
  assumes "grew full root k k'"
  shows "pt_inv k' root" "free_frames k' \<subseteq> free_frames k"
    and "is_path p \<Longrightarrow> i < ENTRIES \<Longrightarrow> leaf_at (km_mem k') root p i = leaf_at (km_mem k) root p i"
    and "is_path p \<Longrightarrow> table_at (km_mem k) 4 root p = Some t \<Longrightarrow> table_at (km_mem k') 4 root p = Some t"
    and "is_path p \<Longrightarrow> table_at (km_mem k') 4 root p = Some t \<Longrightarrow> table_at (km_mem k) 4 root p = Some t
          \<or> prefix p full \<and> t div PAGE_SIZE \<in> free_frames k - free_frames k'"
    and "km_mem k' f \<noteq> km_mem k f \<or> f \<in> free_frames k - free_frames k' \<Longrightarrow>
          \<exists>p t. prefix p full \<and> table_at (km_mem k') 4 root p = Some t \<and> f = t div PAGE_SIZE"
    and "pmm_nframes (km_pmm k') = pmm_nframes (km_pmm k)"
  using assms unfolding grew_def by (elim conjE; simp)+

lemma grewI:
  assumes "pt_inv k' root" "free_frames k' \<subseteq> free_frames k"
    and "\<And>p i. is_path p \<Longrightarrow> i < ENTRIES \<Longrightarrow> leaf_at (km_mem k') root p i = leaf_at (km_mem k) root p i"
    and "\<And>p t. is_path p \<Longrightarrow> table_at (km_mem k) 4 root p = Some t \<Longrightarrow> table_at (km_mem k') 4 root p = Some t"
    and "\<And>p t. is_path p \<Longrightarrow> table_at (km_mem k') 4 root p = Some t \<Longrightarrow> table_at (km_mem k) 4 root p = Some t
          \<or> prefix p full \<and> t div PAGE_SIZE \<in> free_frames k - free_frames k'"
    and "\<And>f. km_mem k' f \<noteq> km_mem k f \<or> f \<in> free_frames k - free_frames k' \<Longrightarrow>
          \<exists>p t. prefix p full \<and> table_at (km_mem k') 4 root p = Some t \<and> f = t div PAGE_SIZE"
    and "pmm_nframes (km_pmm k') = pmm_nframes (km_pmm k)"
  shows "grew full root k k'"
  unfolding grew_def using assms by simp

lemma grew_trans:
  assumes full: "is_path full" and a: "grew full root k k'" and b: "grew full root k' k''"
  shows "grew full root k k''"
proof (rule grewI)
  show "pt_inv k'' root" by (rule grewD(1) [OF b])
  show "pmm_nframes (km_pmm k'') = pmm_nframes (km_pmm k)" using grewD(7) [OF a] grewD(7) [OF b] by simp
  show "free_frames k'' \<subseteq> free_frames k" using grewD(2) [OF a] grewD(2) [OF b] by (rule subset_trans [rotated])
next
  fix p i assume "is_path p" "i < ENTRIES"
  then show "leaf_at (km_mem k'') root p i = leaf_at (km_mem k) root p i" using grewD(3) [OF a] grewD(3) [OF b] by simp
next
  fix p t assume "is_path p" "table_at (km_mem k) 4 root p = Some t"
  then show "table_at (km_mem k'') 4 root p = Some t" using grewD(4) [OF a] grewD(4) [OF b] by simp
next
  fix p t assume p: "is_path p" "table_at (km_mem k'') 4 root p = Some t"
  from grewD(5) [OF b p] show "table_at (km_mem k) 4 root p = Some t
      \<or> prefix p full \<and> t div PAGE_SIZE \<in> free_frames k - free_frames k''"
  proof
    assume "table_at (km_mem k') 4 root p = Some t"
    from grewD(5) [OF a p(1) this] show ?thesis using grewD(2) [OF b] by auto
  qed (use grewD(2) [OF a] in auto)
next
  fix f assume f: "km_mem k'' f \<noteq> km_mem k f \<or> f \<in> free_frames k - free_frames k''"
  show "\<exists>p t. prefix p full \<and> table_at (km_mem k'') 4 root p = Some t \<and> f = t div PAGE_SIZE"
  proof (cases "km_mem k'' f \<noteq> km_mem k' f \<or> f \<in> free_frames k' - free_frames k''")
    case False
    then obtain p t where "prefix p full" "table_at (km_mem k') 4 root p = Some t" "f = t div PAGE_SIZE"
      using f grewD(6) [OF a, of f] by auto
    then show ?thesis using grewD(4) [OF b is_path_prefix [OF full]] by blast
  qed (rule grewD(6) [OF b])
qed

text \<open>Setting the user bit of a link.\<close>

lemma grew_user:
  assumes inv: "pt_inv k root" and p: "is_path (p @ [i])" "table_at (km_mem k) 4 root p = Some t" "prefix p full"
    and none: "\<not> is_leaf p (pte_get (km_mem k) t i)"
  shows "grew full root k (km_set t i (pte_get (km_mem k) t i OR PTE_US) k)"
proof -
  let ?m = "km_mem k" and ?e = "pte_get (km_mem k) t i"
  have wf: "km_wf k" "\<forall>f. length (?m f) = 4096" and tr: "tree ?m (free_frames k) root"
    using inv by (simp_all add: pt_inv_def km_wf_def)
  have i: "i < 512" "is_path p" using p(1) by (simp_all add: is_path_snoc)
  note t = treeD [OF tr i(2) p(2)]
  have r: "root mod 4096 = 0" using treeD(1) [OF tr, of "[]"] by (simp add: is_path_def)
  have e: "?e OR 4 < 2 ^ 64" using pte_get_less [of ?m t i] by (intro or_less_nat) simp_all
  have same: "table_at (pte_set t i (?e OR 4) ?m) 4 root q = table_at ?m 4 root q" if "is_path q" for q
    using that by (intro table_at_set_same [OF wf(2) t(1) i(1) e same_link_user r]) (simp add: is_path_def)
  have leaf: "leaf_at (pte_set t i (?e OR 4) ?m) root q j = leaf_at ?m root q j" if q: "is_path q" "j < 512" for q j
  proof (cases "table_at ?m 4 root q")
    case (Some u)
    note u = treeD [OF tr q(1) Some]
    have "pte_get (pte_set t i (?e OR 4) ?m) u j = (if u = t \<and> j = i then ?e OR 4 else pte_get ?m u j)"
      by (rule pte_get_set [OF wf(2) t(1) i(1) u(1) q(2) e])
    moreover have "u = t \<Longrightarrow> q = p" using u(4) [OF i(2)] p(2) by simp
    moreover have "is_leaf p (?e OR 4) = is_leaf p ?e" using same_link_user [of ?e] by (auto simp: same_link_def is_leaf_def)
    ultimately show ?thesis using Some same [OF q(1)] none by (auto simp: leaf_at_def Let_def)
  qed (simp add: leaf_at_def same [OF q(1)])
  have "tree (pte_set t i (?e OR 4) ?m) (free_frames k) root" using tr same unfolding tree_def by metis
  then have inv': "pt_inv (km_set t i (?e OR 4) k) root" using wf(1) t(1) i(1) by (simp add: pt_inv_def km_set_wf)
  show "grew full root k (km_set t i (pte_get (km_mem k) t i OR PTE_US) k)"
  proof (rule grewI)
    fix f assume "km_mem (km_set t i (?e OR 4) k) f \<noteq> km_mem k f
      \<or> f \<in> free_frames k - free_frames (km_set t i (?e OR 4) k)"
    then have "f = t div 4096" using pte_set_other [OF t(1) i(1)] by (cases "f = t div 4096") simp_all
    then show "\<exists>p t'. prefix p full \<and> table_at (km_mem (km_set t i (?e OR 4) k)) 4 root p = Some t' \<and> f = t' div 4096"
      using p(2,3) same [OF i(2)] by auto
  qed (use inv' leaf same in simp_all)
qed

text \<open>Adding a table.\<close>

lemma table_at_append:
  "table_at m l t (a @ b) = (case table_at m l t a of None \<Rightarrow> None | Some u \<Rightarrow> table_at m (l - length a) u b)"
  by (induction a arbitrary: l t) (auto simp: Let_def split: option.splits)

lemma pte_get_zeros: "t mod PAGE_SIZE = 0 \<Longrightarrow> i < ENTRIES \<Longrightarrow> m (t div PAGE_SIZE) = zeros PAGE_SIZE \<Longrightarrow> pte_get m t i = 0"
  by (simp add: pte_get_def Let_def entry_place)

lemma tree_mono: "tree m free root \<Longrightarrow> free' \<subseteq> free \<Longrightarrow> tree m free' root"
  unfolding tree_def by blast

lemma table_at_absent:
  assumes "table_at m 4 root p = Some t" "pte_get m t i AND PTE_P = 0" "prefix (p @ [i]) q"
  shows "table_at m 4 root q = None"
  using assms by (auto simp: prefix_def table_at_append links_def Let_def)

lemma table_at_add:
  assumes m: "\<forall>f. length (m f) = PAGE_SIZE" and tr: "tree m free root"
    and p: "is_path (p @ [i])" "table_at m 4 root p = Some t" "pte_get m t i AND PTE_P = 0"
    and f: "f mod PAGE_SIZE = 0" "f < 2 ^ 52" "f div PAGE_SIZE \<in> free" "uf = 0 \<or> uf = PTE_US"
  defines "m1 \<equiv> m(f div PAGE_SIZE := zeros PAGE_SIZE)"
  defines "m2 \<equiv> pte_set t i (f OR TABLE_FLAGS OR uf) m1"
  shows "is_path q \<Longrightarrow> table_at m2 4 root q = (if q = p @ [i] then Some f else table_at m 4 root q)"
    and "is_path q \<Longrightarrow> j < ENTRIES \<Longrightarrow> table_at m2 4 root q = Some u \<Longrightarrow>
      pte_get m2 u j = (if q = p \<and> j = i then f OR TABLE_FLAGS OR uf else if q = p @ [i] then 0 else pte_get m u j)"
proof -
  have i: "i < 512" "is_path p" using p(1) by (simp_all add: is_path_snoc)
  have m1: "\<forall>f. length (m1 f) = 4096" using m by (simp add: m1_def)
  have away: "u mod 4096 = 0 \<and> u \<noteq> f \<and> m1 (u div 4096) = m (u div 4096)" if "is_path q" "table_at m 4 root q = Some u" for q u
    using treeD [OF tr that] f(3) by (auto simp: m1_def)
  have T1: "table_at m1 4 root q = table_at m 4 root q" if "is_path q" for q
    by (rule table_at_frame [OF _ that]) (use away in blast)
  have tr1: "tree m1 free root" using tr T1 unfolding tree_def by metis
  have t: "t mod 4096 = 0" "t \<noteq> f" "m1 (t div 4096) = m (t div 4096)" using away [OF i(2) p(2)] by simp_all
  note e = table_entry [OF f(1,2,4)]
  have p1: "table_at m1 4 root p = Some t" using T1 [OF i(2)] p(2) by simp
  have T2: "table_at m2 4 root q = table_at m1 4 root q" if "is_path q" "\<not> prefix (p @ [i]) q" for q
    unfolding m2_def by (rule table_at_set [OF m1 tr1 i(2) p1 i(1) e(4) that])
  have get: "pte_get m2 u j = (if u = t \<and> j = i then f OR TABLE_FLAGS OR uf else pte_get m1 u j)" if "u mod 4096 = 0" "j < 512" for u j
    unfolding m2_def by (rule pte_get_set [OF m1 t(1) i(1) that e(4)])
  have zero: "pte_get m2 f j = 0" if "j < 512" for j
    using that t(2) pte_get_zeros [OF f(1) that, of m1] by (simp add: get [OF f(1)] m1_def)
  have "\<not> prefix (p @ [i]) p" using prefix_length_le by fastforce
  then have T3: "table_at m2 4 root (p @ [i]) = Some f"
    using T2 [OF i(2)] p1 e(1-3) by (simp add: table_at_snoc get [OF t(1) i(1)] links_def Let_def)
  show T: "table_at m2 4 root q = (if q = p @ [i] then Some f else table_at m 4 root q)" if q: "is_path q" for q
  proof (cases "prefix (p @ [i]) q")
    case True
    then obtain r where r: "q = (p @ [i]) @ r" by (auto simp: prefix_def)
    have "table_at m 4 root q = None" by (rule table_at_absent [OF p(2,3) True])
    moreover have "table_at m2 4 root q = None" if "r = j # r'" for j r'
    proof -
      have "j < 512" using q r that by (simp add: is_path_def)
      then show ?thesis unfolding r that table_at_append [of m2 4 root "p @ [i]"] T3 using zero by (simp add: links_def)
    qed
    ultimately show ?thesis using T3 r by (cases r) auto
  qed (use T2 [OF q] T1 [OF q] in auto)
  show "pte_get m2 u j = (if q = p \<and> j = i then f OR TABLE_FLAGS OR uf else if q = p @ [i] then 0 else pte_get m u j)"
    if q: "is_path q" "j < ENTRIES" "table_at m2 4 root q = Some u" for q j u
  proof (cases "q = p @ [i]")
    case True
    then show ?thesis using q T3 zero by simp
  next
    case False
    then have u: "table_at m 4 root q = Some u" using q(3) T [OF q(1)] by simp
    then have "u = t \<longleftrightarrow> q = p" using treeD(4) [OF tr q(1) u i(2)] p(2) by auto
    then show ?thesis using False away [OF q(1) u] q(2) pte_get_frame [of u j m1 m] by (auto simp: get)
  qed
qed

lemma grew_add:
  assumes inv: "pt_inv k root" and p: "is_path (p @ [i])" "table_at (km_mem k) 4 root p = Some t"
    and absent: "pte_get (km_mem k) t i AND PTE_P = 0" and full: "prefix (p @ [i]) full"
    and al: "km_alloc k = (f, k1)" "f \<noteq> 0" and uf: "uf = 0 \<or> uf = PTE_US"
  defines "k2 \<equiv> km_set t i (f OR TABLE_FLAGS OR uf) (km_frame f (zeros SIZE_4K) k1)"
  shows "grew full root k k2" "table_at (km_mem k2) 4 root (p @ [i]) = Some f"
proof -
  let ?m = "km_mem k"
  have wf: "km_wf k" "\<forall>f. length (?m f) = 4096" and tr: "tree ?m (free_frames k) root"
    using inv by (simp_all add: pt_inv_def km_wf_def)
  note a = km_alloc_run [OF wf(1) al(1)]
  have f: "f mod 4096 = 0" "f < 2 ^ 52" "f div 4096 \<in> free_frames k" "free_frames k1 = free_frames k - {f div 4096}"
    using a(4) [OF al(2)] by simp_all
  have i: "i < 512" "is_path p" "length p \<le> 2" using p(1) by (simp_all add: is_path_snoc)
  note t = treeD [OF tr i(2) p(2)]
  note e = table_entry [OF f(1,2) uf]
  have m2: "km_mem k2 = pte_set t i (f OR TABLE_FLAGS OR uf) (?m(f div 4096 := zeros 4096))"
    and fr: "free_frames k2 = free_frames k - {f div 4096}" by (simp_all add: k2_def a(1) f(4))
  have nf: "pmm_nframes (km_pmm k2) = pmm_nframes (km_pmm k)" using a(2) by (simp add: k2_def)
  note T = table_at_add [OF wf(2) tr p absent f(1-3) uf, folded m2]
  show "table_at (km_mem k2) 4 root (p @ [i]) = Some f" using T(1) [OF p(1)] by simp
  have none: "table_at ?m 4 root (p @ [i]) = None" by (rule table_at_absent [OF p(2) absent]) simp
  have away: "u \<noteq> f" if "is_path q" "table_at ?m 4 root q = Some u" for q u
    using treeD(3) [OF tr that] f(3) by auto
  have "tree (km_mem k2) (free_frames k2) root"
    unfolding tree_def fr
  proof (intro conjI allI impI)
    fix q u assume q: "is_path q" "table_at (km_mem k2) 4 root q = Some u"
    show "u mod 4096 = 0" "u \<noteq> 0" "u div 4096 \<notin> free_frames k - {f div 4096}"
      using q(2) T(1) [OF q(1)] f(1) al(2) treeD(1-3) [OF tr q(1), of u] by (auto split: if_splits)
  next
    fix q r u assume q: "is_path q" "is_path r" "table_at (km_mem k2) 4 root q = Some u" "table_at (km_mem k2) 4 root r = Some u"
    then show "q = r" using T(1) [OF q(1)] T(1) [OF q(2)] away [OF q(1), of u] away [OF q(2), of u] treeD(4) [OF tr q(1), of u r]
      by (auto split: if_splits)
  qed
  moreover have "km_wf k2" unfolding k2_def using a(2) t(1) i(1) by (simp add: km_set_wf km_frame_wf)
  ultimately have inv2: "pt_inv k2 root" by (simp add: pt_inv_def)
  show "grew full root k k2"
  proof (rule grewI)
    fix q j assume q: "is_path q" "j < (512 :: nat)"
    have "\<not> is_leaf q 0" by (simp add: is_leaf_def)
    moreover have "\<not> is_leaf p (f OR TABLE_FLAGS OR uf)" "\<not> is_leaf p (pte_get ?m t i)"
      using i(3) e(2) absent by (auto simp: is_leaf_def)
    ultimately show "leaf_at (km_mem k2) root q j = leaf_at ?m root q j"
      using T(1) [OF q(1)] T(2) [OF q] none p(2)
      by (auto simp: leaf_at_def Let_def split: option.splits if_splits)
  next
    fix g assume g: "km_mem k2 g \<noteq> km_mem k g \<or> g \<in> free_frames k - free_frames k2"
    have "g = f div 4096" if "g \<in> free_frames k - free_frames k2" using that unfolding fr by blast
    moreover have "g = t div 4096 \<or> g = f div 4096" if "km_mem k2 g \<noteq> km_mem k g"
      using that pte_set_other [OF t(1) i(1), of g] by (cases "g = t div 4096") (auto simp: m2 split: if_splits)
    ultimately have "g = t div 4096 \<or> g = f div 4096" using g by blast
    moreover have "table_at (km_mem k2) 4 root p = Some t" "table_at (km_mem k2) 4 root (p @ [i]) = Some f"
      using T(1) [OF i(2)] T(1) [OF p(1)] p(2) by simp_all
    moreover have "prefix p full" using full by (meson append_prefixD)
    ultimately show "\<exists>q u. prefix q full \<and> table_at (km_mem k2) 4 root q = Some u \<and> g = u div 4096" using full by blast
  qed (use inv2 fr nf T(1) none full f(3) in \<open>auto split: if_splits\<close>)
qed

lemma next_table_grew:
  assumes inv: "pt_inv k root" and p: "is_path (p @ [i])" "table_at (km_mem k) 4 root p = Some t"
    and full: "prefix (p @ [i]) full" and none: "leaf_at (km_mem k) root p i = None" and uf: "uf = 0 \<or> uf = PTE_US"
    and run: "next_table t i uf k = (t', k')"
  shows "grew full root k k'" "t' = 0 \<Longrightarrow> free_frames k' = {}" "t' \<noteq> 0 \<Longrightarrow> table_at (km_mem k') 4 root (p @ [i]) = Some t'"
proof -
  let ?e = "pte_get (km_mem k) t i"
  have wf: "km_wf k" and tr: "tree (km_mem k) (free_frames k) root" using inv by (simp_all add: pt_inv_def)
  have pre: "prefix p full" using full by (meson append_prefixD)
  have nl: "\<not> is_leaf p ?e" using none p(2) by (simp add: leaf_at_def Let_def split: if_splits)
  have "grew full root k k' \<and> (t' = 0 \<longrightarrow> free_frames k' = {}) \<and> (t' \<noteq> 0 \<longrightarrow> table_at (km_mem k') 4 root (p @ [i]) = Some t')"
  proof (cases "?e AND PTE_P = 0")
    case True
    obtain f k1 where al: "km_alloc k = (f, k1)" by fastforce
    note a = km_alloc_run [OF wf al]
    show ?thesis
    proof (cases "f = 0")
      case True
      then have "k' = k" "t' = 0" "free_frames k = {}" using run \<open>?e AND PTE_P = 0\<close> al a(3) by (simp_all add: next_table_def Let_def)
      then show ?thesis using grew_refl [OF inv] by simp
    next
      case False
      then have r: "k' = km_set t i (f OR TABLE_FLAGS OR uf) (km_frame f (zeros SIZE_4K) k1)" "t' = f"
        using run True al by (auto simp: next_table_def Let_def)
      from grew_add [OF inv p True full al False uf] show ?thesis unfolding r using False by blast
    qed
  next
    case False
    have "links (4 - length p) ?e" using False nl p(1) by (auto simp: links_def is_leaf_def is_path_def)
    then have T: "table_at (km_mem k) 4 root (p @ [i]) = Some (?e AND PTE_ADDR_MASK)" using p(2) by (simp add: table_at_snoc)
    have t': "t' = ?e AND PTE_ADDR_MASK" "k' = (if uf \<noteq> 0 \<and> ?e AND PTE_US = 0 then km_set t i (?e OR PTE_US) k else k)"
      using run False by (auto simp: next_table_def Let_def)
    have g: "grew full root k k'" unfolding t'(2) using grew_user [OF inv p pre nl] grew_refl [OF inv] by simp
    moreover have "t' \<noteq> 0" using treeD(2) [OF tr p(1) T] t' by simp
    ultimately show ?thesis using grewD(4) [OF g p(1) T] t'(1) by simp
  qed
  then show "grew full root k k'" "t' = 0 \<Longrightarrow> free_frames k' = {}" "t' \<noteq> 0 \<Longrightarrow> table_at (km_mem k') 4 root (p @ [i]) = Some t'" by blast+
qed

lemma index_at_eq: "index_at virt l = virt div 2 ^ (12 + 9 * (l - 1)) mod 512"
  using and_mask_mod [of "virt div 2 ^ (12 + 9 * (l - 1))" 9] by (simp add: index_at_def drop_bit_eq_div)

lemma index_at_less [simp]: "index_at virt l < ENTRIES"
  by (simp add: index_at_eq)

lemma descend_grew:
  assumes "pt_inv k root" "table_at (km_mem k) 4 root p = Some t" "is_path (p @ map (index_at virt) levels)"
    and "\<And>q j. prefix (q @ [j]) (p @ map (index_at virt) levels) \<Longrightarrow> leaf_at (km_mem k) root q j = None"
    and "uf = 0 \<or> uf = PTE_US" "t \<noteq> 0" "descend virt uf levels t k = (t', k')"
  shows "grew (p @ map (index_at virt) levels) root k k' \<and> (t' = 0 \<longrightarrow> free_frames k' = {})
    \<and> (t' \<noteq> 0 \<longrightarrow> table_at (km_mem k') 4 root (p @ map (index_at virt) levels) = Some t')"
  using assms
proof (induction levels arbitrary: p t k)
  case Nil
  then show ?case by (simp add: grew_refl)
next
  case (Cons l levels)
  let ?i = "index_at virt l" and ?full = "p @ map (index_at virt) (l # levels)"
  have full: "?full = (p @ [?i]) @ map (index_at virt) levels" by simp
  then have pre: "prefix (p @ [?i]) ?full" by (simp only: prefix_def) blast
  have pi: "is_path (p @ [?i])" by (rule is_path_prefix [OF Cons.prems(3) pre])
  obtain u k1 where nt: "next_table t ?i uf k = (u, k1)" by fastforce
  note n = next_table_grew [OF Cons.prems(1) pi Cons.prems(2) pre Cons.prems(4) [OF pre] Cons.prems(5) nt]
  show ?case
  proof (cases "u = 0")
    case True
    then show ?thesis using Cons.prems(7) nt n(1,2) by simp
  next
    case False
    have leaf: "leaf_at (km_mem k1) root q j = None" if "prefix (q @ [j]) ((p @ [?i]) @ map (index_at virt) levels)" for q j
    proof -
      have qj: "is_path (q @ [j])" using is_path_prefix [OF Cons.prems(3)] that full by simp
      then show ?thesis using grewD(3) [OF n(1), of q j] Cons.prems(4) [of q j] that full by (simp add: is_path_snoc)
    qed
    have d: "descend virt uf levels u k1 = (t', k')" using Cons.prems(7) nt False by simp
    have p': "is_path ((p @ [?i]) @ map (index_at virt) levels)" using Cons.prems(3) by simp
    from Cons.IH [OF grewD(1) [OF n(1)] n(3) [OF False] p' leaf Cons.prems(5) False d] show ?thesis
      using grew_trans [OF Cons.prems(3) n(1)] full by simp
  qed
qed

section \<open>Mapping a page\<close>

text \<open>Writing a leaf.\<close>

lemma leaf_set:
  assumes inv: "pt_inv k root" and p: "is_path p" "table_at (km_mem k) 4 root p = Some t" "i < ENTRIES"
    and absent: "pte_get (km_mem k) t i AND PTE_P = 0" and e: "is_leaf p e" "e < 2 ^ 64"
  shows "pt_inv (km_set t i e k) root"
    and "is_path q \<Longrightarrow> table_at (km_mem (km_set t i e k)) 4 root q = table_at (km_mem k) 4 root q"
    and "is_path q \<Longrightarrow> j < ENTRIES \<Longrightarrow> leaf_at (km_mem (km_set t i e k)) root q j
           = (if q = p \<and> j = i then Some e else leaf_at (km_mem k) root q j)"
proof -
  let ?m = "km_mem k"
  have wf: "km_wf k" "\<forall>f. length (?m f) = 4096" and tr: "tree ?m (free_frames k) root"
    using inv by (simp_all add: pt_inv_def km_wf_def)
  note t = treeD [OF tr p(1,2)]
  have get: "pte_get (pte_set t i e ?m) u j = (if u = t \<and> j = i then e else pte_get ?m u j)" if "u mod 4096 = 0" "j < 512" for u j
    by (rule pte_get_set [OF wf(2) t(1) p(3) that e(2)])
  have cut: "table_at (pte_set t i e ?m) 4 root q = table_at ?m 4 root q" if "is_path q" "\<not> prefix (p @ [i]) q" for q
    by (rule table_at_set [OF wf(2) tr p e(2) that])
  have T: "table_at (pte_set t i e ?m) 4 root q = table_at ?m 4 root q" if q: "is_path q" for q
  proof (cases "prefix (p @ [i]) q")
    case True
    then obtain r where r: "q = p @ i # r" by (auto simp: prefix_def)
    have "table_at ?m 4 root q = None" by (rule table_at_absent [OF p(2) absent True])
    moreover have "\<not> prefix (p @ [i]) p" using prefix_length_le by fastforce
    then have "table_at (pte_set t i e ?m) 4 root p = Some t" using cut [OF p(1)] p(2) by simp
    moreover have "\<not> links (4 - length p) e" using e(1) q r by (auto simp: links_def is_leaf_def is_path_def)
    ultimately show ?thesis unfolding r by (simp add: table_at_append get [OF t(1) p(3)])
  qed (rule cut [OF q])
  then show "is_path q \<Longrightarrow> table_at (km_mem (km_set t i e k)) 4 root q = table_at (km_mem k) 4 root q" by simp
  have "tree (pte_set t i e ?m) (free_frames k) root" using tr T unfolding tree_def by metis
  then show "pt_inv (km_set t i e k) root" using wf(1) t(1) p(3) by (simp add: pt_inv_def km_set_wf)
  show "leaf_at (km_mem (km_set t i e k)) root q j = (if q = p \<and> j = i then Some e else leaf_at ?m root q j)" if q: "is_path q" "j < ENTRIES"
  proof (cases "table_at ?m 4 root q")
    case (Some u)
    note u = treeD [OF tr q(1) Some]
    have "u = t \<longleftrightarrow> q = p" using u(4) [OF p(1)] p(2) Some by auto
    then show ?thesis using Some T [OF q(1)] e(1) by (auto simp: leaf_at_def Let_def get [OF u(1) q(2)])
  qed (use T [OF q(1)] p(2) in \<open>auto simp: leaf_at_def\<close>)
qed

text \<open>A descent that ends in a new leaf: the leaves change at one place, and the rest as for a descent.\<close>

definition installed :: "nat list \<Rightarrow> nat \<Rightarrow> nat \<Rightarrow> nat \<Rightarrow> kmem \<Rightarrow> kmem \<Rightarrow> bool" where
  "installed full i e root k k' \<longleftrightarrow> (\<exists>k1 t. grew full root k k1 \<and> table_at (km_mem k1) 4 root full = Some t
     \<and> pte_get (km_mem k1) t i AND PTE_P = 0 \<and> k' = km_set t i e k1)"

lemma installedD:
  assumes ins: "installed full i e root k k'" and full: "is_path full" "i < ENTRIES" and e: "is_leaf full e" "e < 2 ^ 64"
  shows "pt_inv k' root" "free_frames k' \<subseteq> free_frames k" "leaf_at (km_mem k) root full i = None"
    and "is_path p \<Longrightarrow> j < ENTRIES \<Longrightarrow> leaf_at (km_mem k') root p j
           = (if p = full \<and> j = i then Some e else leaf_at (km_mem k) root p j)"
    and "is_path p \<Longrightarrow> table_at (km_mem k) 4 root p = Some t \<Longrightarrow> table_at (km_mem k') 4 root p = Some t"
    and "is_path p \<Longrightarrow> table_at (km_mem k') 4 root p = Some t \<Longrightarrow> table_at (km_mem k) 4 root p = Some t
          \<or> prefix p full \<and> t div PAGE_SIZE \<in> free_frames k - free_frames k'"
    and "km_mem k' f \<noteq> km_mem k f \<or> f \<in> free_frames k - free_frames k' \<Longrightarrow>
          \<exists>p t. prefix p full \<and> table_at (km_mem k') 4 root p = Some t \<and> f = t div PAGE_SIZE"
    and "pmm_nframes (km_pmm k') = pmm_nframes (km_pmm k)"
proof -
  obtain k1 t1 where g: "grew full root k k1" and t1: "table_at (km_mem k1) 4 root full = Some t1"
    and a: "pte_get (km_mem k1) t1 i AND PTE_P = 0" and k': "k' = km_set t1 i e k1"
    using ins by (auto simp: installed_def)
  note L = leaf_set [OF grewD(1) [OF g] full(1) t1 full(2) a e, folded k']
  have t1p: "t1 mod 4096 = 0" using treeD(1) [OF _ full(1) t1] grewD(1) [OF g] by (auto simp: pt_inv_def)
  show "pt_inv k' root" by (rule L(1))
  show "pmm_nframes (km_pmm k') = pmm_nframes (km_pmm k)" using grewD(7) [OF g] by (simp add: k')
  show "free_frames k' \<subseteq> free_frames k" using grewD(2) [OF g] by (simp add: k')
  have "leaf_at (km_mem k1) root full i = None" using t1 a by (simp add: leaf_at_def is_leaf_def)
  then show "leaf_at (km_mem k) root full i = None" using grewD(3) [OF g full] by simp
  show "leaf_at (km_mem k') root p j = (if p = full \<and> j = i then Some e else leaf_at (km_mem k) root p j)"
    if "is_path p" "j < ENTRIES" using L(3) [OF that] grewD(3) [OF g that] by simp
  show "table_at (km_mem k') 4 root p = Some t" if "is_path p" "table_at (km_mem k) 4 root p = Some t"
    using L(2) [OF that(1)] grewD(4) [OF g that] by simp
  show "table_at (km_mem k) 4 root p = Some t \<or> prefix p full \<and> t div PAGE_SIZE \<in> free_frames k - free_frames k'"
    if "is_path p" "table_at (km_mem k') 4 root p = Some t"
    using L(2) [OF that(1)] grewD(5) [OF g that(1), of t] that(2) by (simp add: k')
  show "\<exists>p t. prefix p full \<and> table_at (km_mem k') 4 root p = Some t \<and> f = t div PAGE_SIZE"
    if "km_mem k' f \<noteq> km_mem k f \<or> f \<in> free_frames k - free_frames k'"
  proof (cases "f = t1 div 4096")
    case True
    then show ?thesis using L(2) [OF full(1)] t1 by auto
  next
    case False
    then have "km_mem k1 f \<noteq> km_mem k f \<or> f \<in> free_frames k - free_frames k1"
      using that pte_set_other [OF t1p full(2)] by (simp add: k')
    from grewD(6) [OF g this] obtain p t where "prefix p full" "table_at (km_mem k1) 4 root p = Some t" "f = t div 4096" by blast
    then show ?thesis using L(2) [OF is_path_prefix [OF full(1)]] by metis
  qed
qed

definition vpath :: "nat \<Rightarrow> nat \<Rightarrow> nat list" where
  "vpath virt level = map (index_at virt) (rev [level + 1..<5])"

lemma vpath_simps: "vpath virt 1 = [index_at virt 4, index_at virt 3, index_at virt 2]"
  "vpath virt (Suc 0) = [index_at virt 4, index_at virt 3, index_at virt 2]"
  "vpath virt 2 = [index_at virt 4, index_at virt 3]"
  by (simp_all add: vpath_def upt_rec eval_nat_numeral)

lemma vpath_path [simp]: "level = 1 \<or> level = 2 \<Longrightarrow> is_path (vpath virt level)"
  by (auto simp: vpath_simps is_path_def)

definition leaf_entry :: "nat \<Rightarrow> nat \<Rightarrow> nat \<Rightarrow> nat" where
  "leaf_entry level phys flags = phys OR flags OR (if level = 2 then PTE_PS else 0) OR PTE_P"

lemma leaf_entry_facts:
  assumes "phys mod PAGE_SIZE = 0" "phys < 2 ^ 52" "flags AND PTE_ADDR_MASK = 0" "flags < 2 ^ 64" "level = 1 \<or> level = 2"
  shows "is_leaf (vpath virt level) (leaf_entry level phys flags)" "leaf_entry level phys flags < 2 ^ 64"
    "leaf_entry level phys flags AND PTE_ADDR_MASK = phys"
proof -
  let ?ps = "if level = 2 then PTE_PS else 0"
  have ps: "?ps AND PTE_ADDR_MASK = 0" "(1 :: nat) AND PTE_ADDR_MASK = 0" "(1 :: nat) AND PTE_P \<noteq> 0" "?ps < 2 ^ 64" by simp_all
  show "is_leaf (vpath virt level) (leaf_entry level phys flags)"
    using assms(5) ps(3) unfolding is_leaf_def leaf_entry_def and_or_nat by (auto simp: vpath_simps)
  show "leaf_entry level phys flags < 2 ^ 64"
    unfolding leaf_entry_def using assms(2,4) ps(4) by (intro or_less_nat) simp_all
  show "leaf_entry level phys flags AND PTE_ADDR_MASK = phys"
    unfolding leaf_entry_def and_or_nat assms(3) ps(1,2) using assms(1,2) by simp
qed

lemma map_common_run:
  assumes inv: "pt_inv k (pml4_phys as)" and level: "level = 1 \<or> level = 2"
    and above: "\<And>q j. prefix (q @ [j]) (vpath virt level) \<Longrightarrow> leaf_at (km_mem k) (pml4_phys as) q j = None"
    and phys: "phys < 2 ^ 52" and run: "map_common as virt phys flags level (2 ^ n) k = (rc, k')" and n: "12 \<le> n"
  shows "rc = PAGING_EALIGN \<and> k' = k \<and> (virt mod 2 ^ n \<noteq> 0 \<or> phys mod 2 ^ n \<noteq> 0)
    \<or> virt mod 2 ^ n = 0 \<and> phys mod 2 ^ n = 0 \<and>
      (rc = PAGING_ENOMEM \<and> grew (vpath virt level) (pml4_phys as) k k' \<and> free_frames k' = {}
       \<or> rc = PAGING_EEXIST \<and> grew (vpath virt level) (pml4_phys as) k k'
          \<and> (\<exists>t. table_at (km_mem k') 4 (pml4_phys as) (vpath virt level) = Some t
               \<and> pte_get (km_mem k') t (index_at virt level) AND PTE_P \<noteq> 0)
       \<or> rc = PAGING_OK \<and> installed (vpath virt level) (index_at virt level) (leaf_entry level phys flags) (pml4_phys as) k k')"
proof (cases "virt mod 2 ^ n = 0 \<and> phys mod 2 ^ n = 0")
  case True
  let ?root = "pml4_phys as" and ?i = "index_at virt level"
  have tr: "tree (km_mem k) (free_frames k) ?root" using inv by (simp add: pt_inv_def)
  have root: "?root \<noteq> 0" "table_at (km_mem k) 4 ?root [] = Some ?root" using treeD(2) [OF tr, of "[]"] by (simp_all add: is_path_def)
  obtain t k1 where d: "descend virt (flags AND PTE_US) (rev [level + 1..<5]) ?root k = (t, k1)" by fastforce
  have "is_path ([] @ map (index_at virt) (rev [level + 1..<5]))" using vpath_path [OF level] by (simp add: vpath_def)
  from descend_grew [OF inv root(2) this _ user_flag_cases root(1) d] above
  have g: "grew (vpath virt level) ?root k k1" "t = 0 \<Longrightarrow> free_frames k1 = {}"
    "t \<noteq> 0 \<Longrightarrow> table_at (km_mem k1) 4 ?root (vpath virt level) = Some t" by (simp_all add: vpath_def)
  have dvd: "(2 :: nat) ^ 12 dvd 2 ^ n" using n by (rule le_imp_power_dvd)
  have "phys mod 4096 = 0" using dvd True by (auto intro: dvd_trans)
  then have pm: "phys AND PTE_ADDR_MASK = phys" using phys by simp
  have mc: "map_common as virt phys flags level (2 ^ n) k = (if t = 0 then (PAGING_ENOMEM, k1)
      else if pte_get (km_mem k1) t ?i AND PTE_P \<noteq> 0 then (PAGING_EEXIST, k1)
      else (PAGING_OK, km_set t ?i (leaf_entry level phys flags) k1))"
    unfolding map_common_def and_mask_mod d using True by (simp add: pm leaf_entry_def Let_def)
  show ?thesis using run g True unfolding mc installed_def by (auto split: if_splits)
next
  case False
  then have "map_common as virt phys flags level (2 ^ n) k = (PAGING_EALIGN, k)"
    unfolding map_common_def and_mask_mod by auto
  then show ?thesis using run False by auto
qed

section \<open>Lookup\<close>

text \<open>The lookup in terms of leaves, with the address each kind of leaf translates to.\<close>

definition leaf_phys :: "nat \<Rightarrow> nat \<Rightarrow> nat \<Rightarrow> nat" where
  "leaf_phys sz e virt = (let a = e AND PTE_ADDR_MASK in (a - a mod sz) OR (virt AND (sz - 1)))"

lemma lookup_step:
  assumes "0 < level"
  shows "lookup_from m virt table level =
     (let entry = pte_get m table (index_at virt level) in
      if entry AND PTE_P = 0 then None
      else if level = 1 \<or> level = 2 \<and> entry AND PTE_PS \<noteq> 0
        then Some (entry, leaf_phys (if level = 2 then SIZE_2M else SIZE_4K) entry virt)
      else lookup_from m virt (entry AND PTE_ADDR_MASK) (level - 1))"
  using assms by (cases level) (auto simp: Let_def leaf_phys_def)

lemma paging_lookup_leaf:
  "paging_lookup as virt k =
     (case leaf_at (km_mem k) (pml4_phys as) (vpath virt 2) (index_at virt 2) of
        Some e \<Rightarrow> Some (e, leaf_phys SIZE_2M e virt)
      | None \<Rightarrow> map_option (\<lambda>e. (e, leaf_phys SIZE_4K e virt))
          (leaf_at (km_mem k) (pml4_phys as) (vpath virt 1) (index_at virt 1)))"
proof -
  have "lookup_from m virt t 4 = (case leaf_at m t (vpath virt 2) (index_at virt 2) of
      Some e \<Rightarrow> Some (e, leaf_phys SIZE_2M e virt)
    | None \<Rightarrow> map_option (\<lambda>e. (e, leaf_phys SIZE_4K e virt)) (leaf_at m t (vpath virt 1) (index_at virt 1)))" for m t
    by (simp add: lookup_step vpath_simps leaf_at_def is_leaf_def links_def Let_def del: lookup_from.simps)
  then show ?thesis by (simp only: paging_lookup_def)
qed

definition same_page :: "nat \<Rightarrow> nat \<Rightarrow> bool" where
  "same_page v w \<longleftrightarrow> v div PAGE_SIZE mod 2 ^ 36 = w div PAGE_SIZE mod 2 ^ 36"

lemma digits4:
  "a mod 2 ^ 36 = b mod 2 ^ 36 \<longleftrightarrow> a mod 512 = b mod 512 \<and> a div 512 mod 512 = b div 512 mod 512
     \<and> a div 512 div 512 mod 512 = b div 512 div 512 mod 512
     \<and> a div 512 div 512 div 512 mod 512 = b div 512 div 512 div 512 mod 512" for a b :: nat
proof -
  have split: "x mod (512 * n) = y mod (512 * n) \<longleftrightarrow> x mod 512 = y mod 512 \<and> x div 512 mod n = y div 512 mod n" for x y n :: nat
  proof -
    have "x mod (512 * n) mod 512 = x mod 512" "x mod (512 * n) div 512 = x div 512 mod n" for x
      by (simp_all add: mod_mult2_eq)
    then show ?thesis by (metis mod_mult2_eq)
  qed
  have "a mod 2 ^ 36 = b mod 2 ^ 36 \<longleftrightarrow> a mod (512 * (512 * (512 * 512))) = b mod (512 * (512 * (512 * 512)))" by simp
  then show ?thesis unfolding split by blast
qed

lemma same_page_vpath: "same_page v w \<longleftrightarrow> vpath v 1 = vpath w 1 \<and> index_at v 1 = index_at w 1"
proof -
  have d: "index_at x 1 = x div 4096 mod 512" "index_at x 2 = x div 4096 div 512 mod 512"
    "index_at x 3 = x div 4096 div 512 div 512 mod 512" "index_at x 4 = x div 4096 div 512 div 512 div 512 mod 512" for x
    by (simp_all add: index_at_eq flip: div_mult2_eq)
  show ?thesis unfolding same_page_def digits4 vpath_simps d by auto
qed

text \<open>No 2 MiB page maps the address.\<close>

definition no_2m :: "addrspace \<Rightarrow> nat \<Rightarrow> kmem \<Rightarrow> bool" where
  "no_2m as virt k \<longleftrightarrow> leaf_at (km_mem k) (pml4_phys as) (vpath virt 2) (index_at virt 2) = None"

lemma no_2m_above:
  assumes "no_2m as virt k" "prefix (q @ [j]) (vpath virt 1)"
  shows "leaf_at (km_mem k) (pml4_phys as) q j = None"
proof -
  consider "length q \<le> 1" | "q = vpath virt 2 \<and> j = index_at virt 2"
    using assms(2) by (auto simp: vpath_simps prefix_Cons append_eq_Cons_conv) 
  then show ?thesis
    using assms(1) by cases (auto simp: no_2m_def leaf_at_def is_leaf_def Let_def split: option.splits)
qed

lemma grew_lookup: "grew full (pml4_phys as) k k' \<Longrightarrow> paging_lookup as v k' = paging_lookup as v k"
  by (simp add: paging_lookup_leaf grewD(3) cong: option.case_cong)

lemma leaf_phys_4k:
  assumes "e AND PTE_ADDR_MASK = phys" "phys mod PAGE_SIZE = 0"
  shows "leaf_phys SIZE_4K e v = phys + v mod PAGE_SIZE"
proof -
  have "v AND 4095 = v mod 4096" using and_mask_mod [of v 12] by simp
  moreover have "phys OR v mod 4096 = phys + v mod 4096"
    using page_and_low [OF assms(2), of "v mod 4096"] by (simp add: disjunctive_add_eq_or)
  ultimately show ?thesis by (simp add: leaf_phys_def assms)
qed

lemma map_4k_run:
  assumes inv: "pt_inv k (pml4_phys as)" and no: "no_2m as virt k" and phys: "phys < 2 ^ 52"
    and flags: "flags AND PTE_ADDR_MASK = 0" "flags < 2 ^ 64" and run: "paging_map_4k as virt phys flags k = (rc, k')"
  shows "rc = PAGING_EALIGN \<and> k' = k \<and> (virt mod PAGE_SIZE \<noteq> 0 \<or> phys mod PAGE_SIZE \<noteq> 0)
    \<or> virt mod PAGE_SIZE = 0 \<and> phys mod PAGE_SIZE = 0 \<and>
      (rc = PAGING_ENOMEM \<and> grew (vpath virt 1) (pml4_phys as) k k' \<and> free_frames k' = {}
       \<or> rc = PAGING_EEXIST \<and> grew (vpath virt 1) (pml4_phys as) k k' \<and> paging_lookup as virt k \<noteq> None
       \<or> rc = PAGING_OK \<and> installed (vpath virt 1) (index_at virt 1) (leaf_entry 1 phys flags) (pml4_phys as) k k')"
proof -
  have above: "prefix (q @ [j]) (vpath virt 1) \<Longrightarrow> leaf_at (km_mem k) (pml4_phys as) q j = None" for q j by (rule no_2m_above [OF no])
  have "map_common as virt phys flags 1 (2 ^ 12) k = (rc, k')" using run by (simp add: paging_map_4k_def)
  from map_common_run [OF inv _ above phys this] have r: "rc = PAGING_EALIGN \<and> k' = k \<and> (virt mod 4096 \<noteq> 0 \<or> phys mod 4096 \<noteq> 0)
    \<or> virt mod 4096 = 0 \<and> phys mod 4096 = 0 \<and>
      (rc = PAGING_ENOMEM \<and> grew (vpath virt 1) (pml4_phys as) k k' \<and> free_frames k' = {}
       \<or> rc = PAGING_EEXIST \<and> grew (vpath virt 1) (pml4_phys as) k k'
          \<and> (\<exists>t. table_at (km_mem k') 4 (pml4_phys as) (vpath virt 1) = Some t
               \<and> pte_get (km_mem k') t (index_at virt 1) AND PTE_P \<noteq> 0)
       \<or> rc = PAGING_OK \<and> installed (vpath virt 1) (index_at virt 1) (leaf_entry 1 phys flags) (pml4_phys as) k k')" by simp
  have "paging_lookup as virt k \<noteq> None" if g: "grew (vpath virt 1) (pml4_phys as) k k'"
    and t: "table_at (km_mem k') 4 (pml4_phys as) (vpath virt 1) = Some t" "pte_get (km_mem k') t (index_at virt 1) AND PTE_P \<noteq> 0" for t
  proof -
    have "leaf_at (km_mem k') (pml4_phys as) (vpath virt 1) (index_at virt 1) \<noteq> None"
      using t by (simp add: leaf_at_def is_leaf_def vpath_simps Let_def)
    then have "paging_lookup as virt k' \<noteq> None" by (auto simp: paging_lookup_leaf split: option.splits)
    then show ?thesis by (simp add: grew_lookup [OF g])
  qed
  then show ?thesis using r by blast
qed

lemma installed_lookup:
  assumes ins: "installed (vpath virt 1) (index_at virt 1) (leaf_entry 1 phys flags) (pml4_phys as) k k'"
    and no: "no_2m as virt k" and phys: "phys mod PAGE_SIZE = 0" "phys < 2 ^ 52" and flags: "flags AND PTE_ADDR_MASK = 0" "flags < 2 ^ 64"
  shows "paging_lookup as v k' = (if same_page v virt then Some (phys OR flags OR PTE_P, phys + v mod PAGE_SIZE) else paging_lookup as v k)"
    and "paging_lookup as virt k = None"
proof -
  note le = leaf_entry_facts [OF phys flags, of 1]
  note I = installedD [OF ins _ _ le(1,2), simplified]
  have e: "leaf_entry 1 phys flags = phys OR flags OR PTE_P" by (simp add: leaf_entry_def)
  have two: "leaf_at (km_mem k') (pml4_phys as) (vpath v 2) (index_at v 2) = leaf_at (km_mem k) (pml4_phys as) (vpath v 2) (index_at v 2)"
  proof -
    have "length (vpath v 2) \<noteq> length (vpath virt 1)" by (simp add: vpath_simps)
    then have "vpath v 2 \<noteq> vpath virt 1" by metis
    then show ?thesis using I(4) [of "vpath v 2" "index_at v 2"] by simp
  qed
  have sp: "same_page v virt \<Longrightarrow> leaf_at (km_mem k) (pml4_phys as) (vpath v 2) (index_at v 2) = None"
    using no by (simp add: same_page_vpath vpath_simps no_2m_def)
  have one: "leaf_at (km_mem k') (pml4_phys as) (vpath v 1) (index_at v 1)
      = (if same_page v virt then Some (leaf_entry 1 phys flags) else leaf_at (km_mem k) (pml4_phys as) (vpath v 1) (index_at v 1))"
    using I(4) [of "vpath v 1" "index_at v 1"] by (simp add: same_page_vpath)
  show "paging_lookup as v k' = (if same_page v virt then Some (phys OR flags OR PTE_P, phys + v mod PAGE_SIZE) else paging_lookup as v k)"
    unfolding paging_lookup_leaf two one using sp leaf_phys_4k [OF le(3) phys(1)] e by simp
  show "paging_lookup as virt k = None" using no I(3) by (simp add: paging_lookup_leaf no_2m_def)
qed

section \<open>A new address space\<close>

lemma prefix_Nil_eq: "is_path q \<Longrightarrow> q \<noteq> [] \<Longrightarrow> \<exists>j r. q = j # r \<and> j < ENTRIES"
  by (cases q) (auto simp: is_path_def)

lemma addrspace_create_run:
  assumes wf: "km_wf k" and run: "paging_addrspace_create k = (Inr as, k')"
  shows "pt_inv k' (pml4_phys as)" "paging_lookup as v k' = None" "no_2m as v k'"
    "pml4_phys as div PAGE_SIZE \<in> free_frames k" "free_frames k' = free_frames k - {pml4_phys as div PAGE_SIZE}"
proof -
  let ?r = "pml4_phys as"
  obtain f k1 where al: "km_alloc k = (f, k1)" by fastforce
  then have f: "f \<noteq> 0" "?r = f" "k' = km_frame f (zeros 4096) k1"
    using run by (auto simp: paging_addrspace_create_def split: if_splits)
  note a = km_alloc_run [OF wf al]
  note b = a(4) [OF f(1)]
  have m: "km_mem k' = (km_mem k)(f div 4096 := zeros 4096)" by (simp add: f(3) a(1))
  have z: "pte_get (km_mem k') f j = 0" if "j < 512" for j
    using b that by (intro pte_get_zeros) (simp_all add: m)
  have T: "table_at (km_mem k') 4 ?r q = (if q = [] then Some f else None)" if "is_path q" for q
    using prefix_Nil_eq [OF that] z by (cases q) (auto simp: f(2) links_def)
  have "tree (km_mem k') (free_frames k') ?r"
    unfolding tree_def using T b f(1) by (auto simp: f(3) split: if_splits)
  moreover have "km_wf k'" unfolding f(3) using a(2) by (simp add: km_frame_wf)
  ultimately show "pt_inv k' ?r" by (simp add: pt_inv_def)
  have L: "leaf_at (km_mem k') ?r (vpath v l) i = None" if "l = 1 \<or> l = 2" for v l i
    using T [of "vpath v l"] that by (auto simp: leaf_at_def vpath_simps is_leaf_def)
  show "paging_lookup as v k' = None" "no_2m as v k'" by (simp_all add: paging_lookup_leaf no_2m_def L)
  show "?r div PAGE_SIZE \<in> free_frames k" "free_frames k' = free_frames k - {?r div PAGE_SIZE}" using b by (simp_all add: f(2,3))
qed

text \<open>A descent takes at most one frame for each table on its path.\<close>

lemma grew_budget:
  assumes "grew full root k k'"
  shows "card (free_frames k - free_frames k') \<le> Suc (length full)"
proof -
  let ?g = "\<lambda>p. the (table_at (km_mem k') 4 root p) div 4096"
  have "free_frames k - free_frames k' \<subseteq> ?g ` set (prefixes full)"
  proof
    fix f assume "f \<in> free_frames k - free_frames k'"
    from grewD(6) [OF assms disjI2, OF this] obtain p t
      where "prefix p full" "table_at (km_mem k') 4 root p = Some t" "f = t div 4096" by blast
    then show "f \<in> ?g ` set (prefixes full)" by (auto simp: image_iff intro!: bexI [of _ p])
  qed
  then have "card (free_frames k - free_frames k') \<le> card (?g ` set (prefixes full))" by (intro card_mono) simp_all
  also have "\<dots> \<le> card (set (prefixes full))" by (intro card_image_le) simp
  also have "\<dots> \<le> length (prefixes full)" by (rule card_length)
  finally show ?thesis by simp
qed

lemma map_4k_succeeds:
  assumes inv: "pt_inv k (pml4_phys as)" and no: "no_2m as virt k" and none: "paging_lookup as virt k = None"
    and phys: "phys < 2 ^ 52" "phys mod PAGE_SIZE = 0" and virt: "virt mod PAGE_SIZE = 0"
    and flags: "flags AND PTE_ADDR_MASK = 0" "flags < 2 ^ 64" and free: "4 < card (free_frames k)"
  shows "fst (paging_map_4k as virt phys flags k) = PAGING_OK"
proof -
  obtain rc k' where run: "paging_map_4k as virt phys flags k = (rc, k')" by fastforce
  have "\<not> (grew (vpath virt 1) (pml4_phys as) k k' \<and> free_frames k' = {})"
    using grew_budget [of "vpath virt 1" "pml4_phys as" k k'] free by (auto simp: vpath_simps)
  then show ?thesis using map_4k_run [OF inv no phys(1) flags run] none phys(2) virt run by auto
qed



text \<open>A machine with sixteen frames, all but the first free.\<close>

definition ex_kmem :: kmem where
  "ex_kmem = \<lparr>km_pmm = pmm_core_mark_free (pmm_core_init (zeros 2) 16) 1 15, km_mem = \<lambda>_. zeros PAGE_SIZE\<rparr>"

lemma ex_kmem_wf: "km_wf ex_kmem" "free_frames ex_kmem = {1..<16}"
proof -
  have z: "pmm_core_bitmap_size 16 \<le> length (zeros 2)" by (simp add: pmm_core_bitmap_size_def)
  note i = pmm_init_inv [of 16 "zeros 2", OF _ z]
  have n: "pmm_nframes (pmm_core_init (zeros 2) 16) = 16" by (simp add: pmm_core_init_def)
  have r: "pmm_inv (km_pmm ex_kmem) \<and> free_frames ex_kmem = {1..<16} \<and> pmm_nframes (km_pmm ex_kmem) = 16"
    using pmm_mark_free_from_run [OF i(1), of 1 16] i(2) n by (auto simp: ex_kmem_def pmm_core_mark_free_def)
  then show "km_wf ex_kmem" "free_frames ex_kmem = {1..<16}" by (simp_all add: km_wf_def) (simp add: ex_kmem_def)
qed

lemma ex_addrspace: "\<exists>as k. paging_addrspace_create ex_kmem = (Inr as, k)"
proof -
  obtain f k1 where al: "km_alloc ex_kmem = (f, k1)" by fastforce
  then have "f \<noteq> 0" using km_alloc_run(3) [OF ex_kmem_wf(1) al] ex_kmem_wf(2) by auto
  then show ?thesis using al by (simp add: paging_addrspace_create_def)
qed


end
