(* ===== verification/Page_Install.thy ===== *)
theory Page_Install
  imports Paging
begin

text \<open>
  Giving an address space a fresh page: the steps shared by the program loader and by the copy of an
  address space at a fork. A frame is allocated, filled and mapped; the lemmas say what this does to
  lookups, to the frames that hold the data of pages mapped before, and to all other memory.
\<close>

definition install_page :: "addrspace \<Rightarrow> nat \<Rightarrow> byte list \<Rightarrow> nat \<Rightarrow> kmem \<Rightarrow> nat \<times> int \<times> kmem" where
  "install_page as virt page flags k =
     (case km_alloc k of (frame, k) \<Rightarrow>
        if frame = 0 then (0, PAGING_ENOMEM, k)
        else (frame, paging_map_4k as virt frame flags (km_frame frame page k)))"

text \<open>Frames that are neither free nor tables of the address space.\<close>

definition data_frames :: "kmem \<Rightarrow> nat \<Rightarrow> nat set \<Rightarrow> bool" where
  "data_frames k root D \<longleftrightarrow> (\<forall>g \<in> D. g \<notin> free_frames k
     \<and> (\<forall>p t. is_path p \<longrightarrow> table_at (km_mem k) 4 root p = Some t \<longrightarrow> t div PAGE_SIZE \<noteq> g))"

lemma km_frame_tables:
  assumes inv: "pt_inv k root" and al: "km_alloc k = (f, k1)" "f \<noteq> 0" and page: "length page = PAGE_SIZE"
  shows "pt_inv (km_frame f page k1) root"
    and "is_path p \<Longrightarrow> table_at (km_mem (km_frame f page k1)) 4 root p = table_at (km_mem k) 4 root p"
    and "is_path p \<Longrightarrow> i < ENTRIES \<Longrightarrow> leaf_at (km_mem (km_frame f page k1)) root p i = leaf_at (km_mem k) root p i"
proof -
  have wf: "km_wf k" and tr: "tree (km_mem k) (free_frames k) root" using inv by (simp_all add: pt_inv_def)
  note a = km_alloc_run [OF wf al(1)]
  note b = a(4) [OF al(2)]
  let ?k = "km_frame f page k1"
  have away: "t mod 4096 = 0 \<and> km_mem ?k (t div 4096) = km_mem k (t div 4096)"
    if "is_path q" "table_at (km_mem k) 4 root q = Some t" for q t
  proof -
    have "t div 4096 \<noteq> f div 4096" using treeD(3) [OF tr that] b by metis
    then show ?thesis using treeD(1) [OF tr that] a(1) by (simp only: km_fields fun_upd_apply if_False simp_thms)
  qed
  show T: "table_at (km_mem ?k) 4 root p = table_at (km_mem k) 4 root p" if "is_path p" for p
    by (rule table_at_frame [OF _ that]) (use away in blast)
  have "tree (km_mem ?k) (free_frames k) root" using tr T unfolding tree_def by metis
  then have "tree (km_mem ?k) (free_frames ?k) root" by (rule tree_mono) (use b in \<open>simp only: km_fields; blast\<close>)
  then show "pt_inv ?k root" using a(2) page by (simp add: pt_inv_def km_frame_wf)
  show "leaf_at (km_mem ?k) root p i = leaf_at (km_mem k) root p i" if p: "is_path p" "i < ENTRIES"
  proof (cases "table_at (km_mem k) 4 root p")
    case (Some t)
    then have "pte_get (km_mem ?k) t i = pte_get (km_mem k) t i"
      using away [OF p(1) Some] p(2) by (intro pte_get_frame) simp_all
    then show ?thesis using Some T [OF p(1)] by (simp add: leaf_at_def)
  qed (use T [OF p(1)] in \<open>simp add: leaf_at_def del: km_fields\<close>)
qed

lemma leaf_lookup:
  assumes "\<And>p i. is_path p \<Longrightarrow> i < ENTRIES \<Longrightarrow> leaf_at (km_mem k') (pml4_phys as) p i = leaf_at (km_mem k) (pml4_phys as) p i"
  shows "paging_lookup as v k' = paging_lookup as v k" "no_2m as v k' = no_2m as v k"
  using assms by (simp_all add: paging_lookup_leaf no_2m_def cong: option.case_cong)

text \<open>What a descent, with or without a new leaf, has in common: the tables it adds and the memory it writes.\<close>

definition touched :: "nat list \<Rightarrow> nat \<Rightarrow> kmem \<Rightarrow> kmem \<Rightarrow> bool" where
  "touched full root k k' \<longleftrightarrow> pt_inv k' root \<and> free_frames k' \<subseteq> free_frames k
     \<and> pmm_nframes (km_pmm k') = pmm_nframes (km_pmm k)
     \<and> (\<forall>p t. is_path p \<longrightarrow> table_at (km_mem k') 4 root p = Some t \<longrightarrow> table_at (km_mem k) 4 root p = Some t
          \<or> prefix p full \<and> t div PAGE_SIZE \<in> free_frames k)
     \<and> (\<forall>f. km_mem k' f \<noteq> km_mem k f \<longrightarrow> (\<exists>p t. prefix p full \<and> table_at (km_mem k') 4 root p = Some t \<and> f = t div PAGE_SIZE))"

lemma grew_touched: "grew full root k k' \<Longrightarrow> touched full root k k'"
  unfolding touched_def using grewD(1,2,5,6,7) [of full root k k'] by blast

lemma installed_touched:
  assumes "installed full i e root k k'" "is_path full" "i < ENTRIES" "is_leaf full e" "e < 2 ^ 64"
  shows "touched full root k k'"
  unfolding touched_def using installedD(1,2,6,7,8) [OF assms] by blast

lemma touchedD:
  assumes "touched full root k k'" "is_path full"
  shows "pt_inv k' root" "free_frames k' \<subseteq> free_frames k"
    and "is_path p \<Longrightarrow> table_at (km_mem k') 4 root p = Some t \<Longrightarrow> table_at (km_mem k) 4 root p = Some t
          \<or> prefix p full \<and> t div PAGE_SIZE \<in> free_frames k"
    and "g \<notin> free_frames k \<Longrightarrow> (\<forall>p t. prefix p full \<longrightarrow> table_at (km_mem k) 4 root p = Some t \<longrightarrow> t div PAGE_SIZE \<noteq> g)
          \<Longrightarrow> km_mem k' g = km_mem k g"
    and "data_frames k root D \<Longrightarrow> data_frames k' root D" "pmm_nframes (km_pmm k') = pmm_nframes (km_pmm k)"
proof -
  show a: "pt_inv k' root" "free_frames k' \<subseteq> free_frames k" "pmm_nframes (km_pmm k') = pmm_nframes (km_pmm k)" using assms(1) by (simp_all add: touched_def)
  show b: "table_at (km_mem k) 4 root p = Some t \<or> prefix p full \<and> t div PAGE_SIZE \<in> free_frames k"
    if "is_path p" "table_at (km_mem k') 4 root p = Some t" for p t
    using assms(1) that unfolding touched_def by blast
  show "km_mem k' g = km_mem k g" if g: "g \<notin> free_frames k"
    "\<forall>p t. prefix p full \<longrightarrow> table_at (km_mem k) 4 root p = Some t \<longrightarrow> t div PAGE_SIZE \<noteq> g"
  proof (rule ccontr)
    assume "km_mem k' g \<noteq> km_mem k g"
    then obtain p t where p: "prefix p full" "table_at (km_mem k') 4 root p = Some t" "g = t div PAGE_SIZE"
      using assms(1) unfolding touched_def by blast
    from b [OF is_path_prefix [OF assms(2) p(1)] p(2)] show False using g p(1,3) by blast
  qed
  show "data_frames k' root D" if "data_frames k root D"
    using that a(2) b unfolding data_frames_def by blast
qed

lemma install_page_cases:
  assumes inv: "pt_inv k (pml4_phys as)" and no: "no_2m as virt k" and none: "paging_lookup as virt k = None"
    and virt: "virt mod PAGE_SIZE = 0" and flags: "flags AND PTE_ADDR_MASK = 0" "flags < 2 ^ 64"
    and page: "length page = PAGE_SIZE" and run: "install_page as virt page flags k = (f, rc, k')"
  obtains (nothing) "rc = PAGING_ENOMEM" "k' = k" "free_frames k = {}"
    | (nomem) k1 where "km_alloc k = (f, k1)" "f \<noteq> 0" "rc = PAGING_ENOMEM"
        "grew (vpath virt 1) (pml4_phys as) (km_frame f page k1) k'" "free_frames k' = {}"
    | (ok) k1 where "km_alloc k = (f, k1)" "f \<noteq> 0" "rc = PAGING_OK"
        "installed (vpath virt 1) (index_at virt 1) (leaf_entry 1 f flags) (pml4_phys as) (km_frame f page k1) k'"
proof -
  obtain f1 k1 where al: "km_alloc k = (f1, k1)" by fastforce
  have wf: "km_wf k" using inv by (simp add: pt_inv_def)
  note a = km_alloc_run [OF wf al]
  show thesis
  proof (cases "f1 = 0")
    case True
    then have "rc = PAGING_ENOMEM" "k' = k" "free_frames k = {}" using run al a(3) by (auto simp: install_page_def)
    then show thesis by (rule nothing)
  next
    case False
    then have f: "f = f1" "paging_map_4k as virt f flags (km_frame f page k1) = (rc, k')"
      using run al by (auto simp: install_page_def)
    note K = km_frame_tables [OF inv al False page]
    have p: "f mod 4096 = 0" "f < 2 ^ 52" using a(4) [OF False] f(1) by simp_all
    have lk: "paging_lookup as virt (km_frame f page k1) = None" "no_2m as virt (km_frame f page k1)"
      using leaf_lookup [of "km_frame f1 page k1" as k virt] K(3) none no f(1) by simp_all
    from map_4k_run [OF K(1) [folded f(1)] lk(2) p(2) flags f(2)]
    have "rc = PAGING_ENOMEM \<and> grew (vpath virt 1) (pml4_phys as) (km_frame f page k1) k' \<and> free_frames k' = {}
      \<or> rc = PAGING_OK \<and> installed (vpath virt 1) (index_at virt 1) (leaf_entry 1 f flags) (pml4_phys as) (km_frame f page k1) k'"
      using lk(1) virt p(1) by metis
    then show thesis using nomem ok al f(1) False by metis
  qed
qed

lemma install_page_run:
  assumes inv: "pt_inv k (pml4_phys as)" and no: "no_2m as virt k" and none: "paging_lookup as virt k = None"
    and virt: "virt mod PAGE_SIZE = 0" and flags: "flags AND PTE_ADDR_MASK = 0" "flags < 2 ^ 64"
    and page: "length page = PAGE_SIZE" and run: "install_page as virt page flags k = (f, rc, k')"
  shows "pt_inv k' (pml4_phys as)" "free_frames k' \<subseteq> free_frames k" "rc = PAGING_OK \<or> rc = PAGING_ENOMEM"
    and "rc = PAGING_ENOMEM \<Longrightarrow> free_frames k' = {} \<and> (\<forall>v. paging_lookup as v k' = paging_lookup as v k)"
    and "no_2m as v k' = no_2m as v k"
    and "rc = PAGING_OK \<Longrightarrow> paging_lookup as v k'
           = (if same_page v virt then Some (f OR flags OR PTE_P, f + v mod PAGE_SIZE) else paging_lookup as v k)"
    and "rc = PAGING_OK \<Longrightarrow> f mod PAGE_SIZE = 0 \<and> f < 2 ^ 52 \<and> f div PAGE_SIZE \<in> free_frames k \<and> km_mem k' (f div PAGE_SIZE) = page"
    and "f \<noteq> 0 \<Longrightarrow> data_frames k (pml4_phys as) D \<Longrightarrow> data_frames k' (pml4_phys as) (insert (f div PAGE_SIZE) D)"
    and "g \<notin> free_frames k \<Longrightarrow> (\<forall>p t. prefix p (vpath virt 1) \<longrightarrow> table_at (km_mem k) 4 (pml4_phys as) p = Some t \<longrightarrow> t div PAGE_SIZE \<noteq> g)
           \<Longrightarrow> km_mem k' g = km_mem k g"
    and "is_path p \<Longrightarrow> table_at (km_mem k') 4 (pml4_phys as) p = Some t \<Longrightarrow>
           table_at (km_mem k) 4 (pml4_phys as) p = Some t \<or> prefix p (vpath virt 1) \<and> t div PAGE_SIZE \<in> free_frames k"
    and "pmm_nframes (km_pmm k') = pmm_nframes (km_pmm k)"
    and "f \<noteq> 0 \<Longrightarrow> f mod PAGE_SIZE = 0 \<and> f div PAGE_SIZE \<in> free_frames k" "rc = PAGING_OK \<Longrightarrow> f \<noteq> 0"
    "f = 0 \<Longrightarrow> k' = k \<and> free_frames k = {}"
proof -
  let ?root = "pml4_phys as" and ?full = "vpath virt 1"
  have wf: "km_wf k" and tr: "tree (km_mem k) (free_frames k) ?root" using inv by (simp_all add: pt_inv_def)
  have full: "is_path ?full" by simp
  have frame: "pt_inv k' ?root \<and> free_frames k' \<subseteq> free_frames k
      \<and> (\<forall>p t. is_path p \<longrightarrow> table_at (km_mem k') 4 ?root p = Some t \<longrightarrow> table_at (km_mem k) 4 ?root p = Some t
           \<or> prefix p ?full \<and> t div PAGE_SIZE \<in> free_frames k)
      \<and> (\<forall>g. g \<notin> free_frames k \<longrightarrow> (\<forall>p t. prefix p ?full \<longrightarrow> table_at (km_mem k) 4 ?root p = Some t \<longrightarrow> t div PAGE_SIZE \<noteq> g)
           \<longrightarrow> km_mem k' g = km_mem k g)
      \<and> km_mem k' (f div PAGE_SIZE) = page \<and> data_frames k' ?root {f div PAGE_SIZE}
      \<and> (\<forall>D. data_frames k ?root D \<longrightarrow> data_frames k' ?root D)"
    if al: "km_alloc k = (f, k1)" "f \<noteq> 0" and t: "touched ?full ?root (km_frame f page k1) k'" for k1
  proof -
    note a = km_alloc_run [OF wf al(1)]
    note b = a(4) [OF al(2)]
    have bf: "f div PAGE_SIZE \<in> free_frames k" using b by (elim conjE)
    note K = km_frame_tables [OF inv al page]
    note T = touchedD [OF t full]
    have fr: "free_frames (km_frame f page k1) = free_frames k - {f div PAGE_SIZE}" using b by (simp only: km_fields)
    have mem: "km_mem (km_frame f page k1) g = (if g = f div PAGE_SIZE then page else km_mem k g)" for g
      by (simp only: km_fields fun_upd_apply a(1))
    have pre: "is_path p" if "prefix p ?full" for p by (rule is_path_prefix [OF full that])
    have new: "data_frames (km_frame f page k1) ?root (insert (f div PAGE_SIZE) D)" if "data_frames k ?root D" for D
      unfolding data_frames_def fr
    proof (intro ballI conjI allI impI)
      fix g assume g: "g \<in> insert (f div PAGE_SIZE) D"
      then show "g \<notin> free_frames k - {f div PAGE_SIZE}" using that unfolding data_frames_def by blast
      fix p t assume p: "is_path p" "table_at (km_mem (km_frame f page k1)) 4 ?root p = Some t"
      then have "table_at (km_mem k) 4 ?root p = Some t" using K(2) [OF p(1)] by metis
      then have "t div PAGE_SIZE \<notin> free_frames k" "g \<in> D \<Longrightarrow> t div PAGE_SIZE \<noteq> g"
        using treeD(3) [OF tr p(1)] that p(1) unfolding data_frames_def by blast+
      then show "t div PAGE_SIZE \<noteq> g" using g bf by (metis insert_iff)
    qed
    have "data_frames k' ?root (insert (f div PAGE_SIZE) D)" if "data_frames k ?root D" for D
      by (rule T(5) [OF new [OF that]])
    moreover have "data_frames k ?root {}" by (simp add: data_frames_def)
    ultimately have D: "data_frames k' ?root {f div PAGE_SIZE}" "data_frames k ?root D \<Longrightarrow> data_frames k' ?root D" for D
      unfolding data_frames_def by blast+
    have tab: "table_at (km_mem k) 4 ?root p = Some t" "t div PAGE_SIZE \<notin> free_frames k"
      if "prefix p ?full" "table_at (km_mem (km_frame f page k1)) 4 ?root p = Some t" for p t
      using K(2) [OF pre [OF that(1)]] that(2) treeD(3) [OF tr pre [OF that(1)]] by metis+
    have "f div PAGE_SIZE \<notin> free_frames (km_frame f page k1)" unfolding fr by simp
    moreover have "\<forall>p t. prefix p ?full \<longrightarrow> table_at (km_mem (km_frame f page k1)) 4 ?root p = Some t \<longrightarrow> t div PAGE_SIZE \<noteq> f div PAGE_SIZE"
      using tab(2) bf by metis
    ultimately have "km_mem k' (f div PAGE_SIZE) = km_mem (km_frame f page k1) (f div PAGE_SIZE)" by (rule T(4))
    then have F: "km_mem k' (f div PAGE_SIZE) = page" by (simp only: mem if_True simp_thms)
    have G: "km_mem k' g = km_mem k g" if g: "g \<notin> free_frames k"
      "\<forall>p t. prefix p ?full \<longrightarrow> table_at (km_mem k) 4 ?root p = Some t \<longrightarrow> t div PAGE_SIZE \<noteq> g" for g
    proof -
      have "g \<notin> free_frames (km_frame f page k1)" unfolding fr using g(1) by simp
      moreover have "\<forall>p t. prefix p ?full \<longrightarrow> table_at (km_mem (km_frame f page k1)) 4 ?root p = Some t \<longrightarrow> t div PAGE_SIZE \<noteq> g"
        using tab(1) g(2) by metis
      ultimately have "km_mem k' g = km_mem (km_frame f page k1) g" by (rule T(4))
      moreover have "g \<noteq> f div PAGE_SIZE" using g(1) bf by metis
      ultimately show ?thesis by (simp only: mem if_False)
    qed
    have "free_frames k' \<subseteq> free_frames k" using T(2) fr by blast
    moreover have "table_at (km_mem k) 4 ?root p = Some t \<or> prefix p ?full \<and> t div PAGE_SIZE \<in> free_frames k"
      if "is_path p" "table_at (km_mem k') 4 ?root p = Some t" for p t
      using T(3) [OF that] K(2) [OF that(1)] fr by (metis Diff_iff)
    ultimately show ?thesis using T(1) D F G by blast
  qed
  note cases = install_page_cases [OF assms, case_names nothing nomem ok]
  have entry: "is_leaf ?full (leaf_entry 1 f flags)" "leaf_entry 1 f flags < 2 ^ 64" "f mod PAGE_SIZE = 0" "f < 2 ^ 52"
    "f div PAGE_SIZE \<in> free_frames k" if "km_alloc k = (f, k1)" "f \<noteq> 0" for k1
    using km_alloc_run(4) [OF wf that] leaf_entry_facts(1,2) [where phys = f and level = 1, OF _ _ flags] by simp_all
  have old: "paging_lookup as v (km_frame f page k1) = paging_lookup as v k" "no_2m as v (km_frame f page k1) = no_2m as v k"
    if "km_alloc k = (f, k1)" "f \<noteq> 0" for k1 v
    using leaf_lookup [of "km_frame f page k1" as k v] km_frame_tables(3) [OF inv that page] by simp_all
  have same: "pt_inv k' ?root \<and> free_frames k' \<subseteq> free_frames k
      \<and> (\<forall>p t. is_path p \<longrightarrow> table_at (km_mem k') 4 ?root p = Some t \<longrightarrow> table_at (km_mem k) 4 ?root p = Some t
           \<or> prefix p ?full \<and> t div PAGE_SIZE \<in> free_frames k)
      \<and> (\<forall>g. g \<notin> free_frames k \<longrightarrow> (\<forall>p t. prefix p ?full \<longrightarrow> table_at (km_mem k) 4 ?root p = Some t \<longrightarrow> t div PAGE_SIZE \<noteq> g)
           \<longrightarrow> km_mem k' g = km_mem k g)"
  proof (cases rule: cases)
    case (ok k1)
    then show ?thesis using frame [OF ok(1,2) installed_touched [OF ok(4) full _ entry(1,2) [OF ok(1,2)]]] by simp
  next
    case (nomem k1)
    then show ?thesis using frame [OF nomem(1,2) grew_touched [OF nomem(4)]] by blast
  qed (use inv in simp)
  show "pt_inv k' ?root" "free_frames k' \<subseteq> free_frames k" using same by blast+
  show "pmm_nframes (km_pmm k') = pmm_nframes (km_pmm k)"
  proof (cases rule: cases)
    case (ok k1)
    then show ?thesis using touchedD(6) [OF installed_touched [OF ok(4) full _ entry(1,2) [OF ok(1,2)]] full] km_alloc_run(2) [OF wf ok(1)] by simp
  next
    case (nomem k1)
    then show ?thesis using touchedD(6) [OF grew_touched [OF nomem(4)] full] km_alloc_run(2) [OF wf nomem(1)] by simp
  qed simp
  have okf: "f mod PAGE_SIZE = 0 \<and> f < 2 ^ 52 \<and> f div PAGE_SIZE \<in> free_frames k \<and> km_mem k' (f div PAGE_SIZE) = page
      \<and> data_frames k' ?root {f div PAGE_SIZE} \<and> (\<forall>D. data_frames k ?root D \<longrightarrow> data_frames k' ?root D)" if "f \<noteq> 0"
  proof (cases rule: cases)
    case nothing
    then show ?thesis using run km_alloc_run(3,4) [OF wf] that by (auto simp: install_page_def split: prod.splits if_splits)
  next
    case (ok k1)
    then show ?thesis using frame [OF ok(1,2) installed_touched [OF ok(4) full _ entry(1,2) [OF ok(1,2)]]] entry(3-5) [OF ok(1,2)] by simp
  next
    case (nomem k1)
    then show ?thesis using frame [OF nomem(1,2) grew_touched [OF nomem(4)]] entry(3-5) [OF nomem(1,2)] by simp
  qed
  show "k' = k \<and> free_frames k = {}" if "f = 0" by (cases rule: cases) (use that in simp_all)
  show nz: "f \<noteq> 0" if "rc = PAGING_OK" by (cases rule: cases) (use that in simp_all)
  show "f mod PAGE_SIZE = 0 \<and> f div PAGE_SIZE \<in> free_frames k" if "f \<noteq> 0" using okf [OF that] by simp
  show "is_path p \<Longrightarrow> table_at (km_mem k') 4 ?root p = Some t \<Longrightarrow> table_at (km_mem k) 4 ?root p = Some t
      \<or> prefix p ?full \<and> t div PAGE_SIZE \<in> free_frames k" using same by blast
  show "g \<notin> free_frames k \<Longrightarrow> \<forall>p t. prefix p ?full \<longrightarrow> table_at (km_mem k) 4 ?root p = Some t \<longrightarrow> t div PAGE_SIZE \<noteq> g
      \<Longrightarrow> km_mem k' g = km_mem k g" using same by blast
  show "rc = PAGING_OK \<or> rc = PAGING_ENOMEM" by (cases rule: cases) simp_all
  show "free_frames k' = {} \<and> (\<forall>v. paging_lookup as v k' = paging_lookup as v k)" if "rc = PAGING_ENOMEM"
  proof (cases rule: cases)
    case (nomem k1)
    then show ?thesis using grew_lookup [OF nomem(4)] old(1) [OF nomem(1,2)] by simp
  qed (use that in simp_all)
  show "no_2m as v k' = no_2m as v k"
  proof (cases rule: cases)
    case (nomem k1)
    then show ?thesis using leaf_lookup(2) [of k' as "km_frame f page k1" v] grewD(3) [OF nomem(4)] old(2) [OF nomem(1,2)] by simp
  next
    case (ok k1)
    have "length (vpath v 2) \<noteq> length ?full" by (simp add: vpath_simps)
    then have "vpath v 2 \<noteq> ?full" by metis
    then have "no_2m as v k' = no_2m as v (km_frame f page k1)"
      using installedD(4) [OF ok(4) full _ entry(1,2) [OF ok(1,2)], of "vpath v 2" "index_at v 2"] by (simp add: no_2m_def del: km_fields)
    then show ?thesis using old(2) [OF ok(1,2)] by simp
  qed simp
  show "paging_lookup as v k' = (if same_page v virt then Some (f OR flags OR PTE_P, f + v mod PAGE_SIZE) else paging_lookup as v k)"
    if "rc = PAGING_OK"
  proof (cases rule: cases)
    case (ok k1)
    have "no_2m as virt (km_frame f page k1)" using old(2) [OF ok(1,2)] no by simp
    from installed_lookup(1) [OF ok(4) this entry(3,4) [OF ok(1,2)] flags, of v] show ?thesis using old(1) [OF ok(1,2)] by simp
  qed (use that in simp_all)
  show "f mod PAGE_SIZE = 0 \<and> f < 2 ^ 52 \<and> f div PAGE_SIZE \<in> free_frames k \<and> km_mem k' (f div PAGE_SIZE) = page" if "rc = PAGING_OK"
    using okf [OF nz [OF that]] by simp
  show "data_frames k' ?root (insert (f div PAGE_SIZE) D)" if "f \<noteq> 0" "data_frames k ?root D"
    using okf [OF that(1)] that(2) unfolding data_frames_def by simp
qed

text \<open>Giving a data frame back.\<close>

lemma km_free_run:
  assumes wf: "km_wf k" and f: "f mod PAGE_SIZE = 0" "f \<noteq> 0" "f div PAGE_SIZE < pmm_nframes (km_pmm k)" "f div PAGE_SIZE \<notin> free_frames k"
  shows "\<exists>k'. km_free f k = Some k' \<and> km_mem k' = km_mem k \<and> km_wf k' \<and> free_frames k' = insert (f div PAGE_SIZE) (free_frames k)"
proof -
  obtain ok p where fr: "pmm_core_free (km_pmm k) (f div 4096) = (ok, p)" by fastforce
  have "pmm_inv (km_pmm k)" using wf by (simp add: km_wf_def)
  from pool.fr_used [OF this _ fr] f(3,4) have r: "ok" "pmm_free_set p = insert (f div 4096) (free_frames k)"
    "{..<pmm_nframes p} = {..<pmm_nframes (km_pmm k)}" "pmm_inv p" by simp_all
  have "f div 4096 \<noteq> 0" using f(1,2) by (metis div_mult_mod_eq add.right_neutral mult_zero_left)
  then have "km_wf (k\<lparr>km_pmm := p\<rparr>)" using wf r(2-4) by (auto simp: km_wf_def)
  moreover have "km_free f k = Some (k\<lparr>km_pmm := p\<rparr>)" using f(1) fr r(1) by (simp add: km_free_def pmm_free_frame_def)
  ultimately show ?thesis using r(2) by simp
qed

lemma lookup_mem: "km_mem k' = km_mem k \<Longrightarrow> paging_lookup as v k' = paging_lookup as v k \<and> no_2m as v k' = no_2m as v k"
  by (simp add: paging_lookup_def no_2m_def)

lemma data_frame_freed:
  assumes inv: "pt_inv k root" and D: "data_frames k root (insert g D)" "g \<notin> D"
    and k': "km_mem k' = km_mem k" "km_wf k'" "free_frames k' = insert g (free_frames k)"
  shows "pt_inv k' root" "data_frames k' root D"
proof -
  have tr: "tree (km_mem k) (free_frames k) root" using inv by (simp add: pt_inv_def)
  have "t div PAGE_SIZE \<noteq> g" if "is_path p" "table_at (km_mem k) 4 root p = Some t" for p t
    using D(1) that unfolding data_frames_def by blast
  then have "tree (km_mem k) (insert g (free_frames k)) root" using tr unfolding tree_def by (metis insert_iff)
  then show "pt_inv k' root" using k' by (simp add: pt_inv_def)
  show "data_frames k' root D" using D unfolding data_frames_def k'(1,3) by (metis insert_iff)
qed

lemma data_frames_subset: "data_frames k root D \<Longrightarrow> D' \<subseteq> D \<Longrightarrow> data_frames k root D'"
  unfolding data_frames_def by blast

end
