(* ===== verification/Elf_Load.thy ===== *)
theory Elf_Load
  imports Lib_Elf64 Page_Install
begin

text \<open>
  The program loader (\<^verbatim>\<open>kernel/proc/elf_load.c\<close>): the segments of a validated image are copied into
  fresh frames and mapped. A failed \<^verbatim>\<open>KASSERT\<close> and a panic of the frame allocator are \<open>None\<close>.
\<close>

abbreviation (input) USER_VA_LIMIT :: nat where "USER_VA_LIMIT \<equiv> 0x0000800000000000"

definition seg_pte_flags :: "nat \<Rightarrow> nat" where
  "seg_pte_flags pf =
     (let flags = PTE_US;
          flags = (if pf AND PF_W \<noteq> 0 then flags OR PTE_W else flags)
      in if pf AND PF_X = 0 then flags OR PTE_NX else flags)"

definition fill_page :: "byte list \<Rightarrow> nat \<Rightarrow> byte list \<Rightarrow> elf64_phdr \<Rightarrow> byte list" where
  "fill_page dst page_va img ph =
     (let lo = (if page_va > p_vaddr ph then page_va else p_vaddr ph);
          file_end = u64 (p_vaddr ph + p_filesz ph);
          hi = (if u64 (page_va + PAGE_SIZE) < file_end then u64 (page_va + PAGE_SIZE) else file_end) in
      if hi > lo then bsplice (lo - page_va) (bslice (p_offset ph + (lo - p_vaddr ph)) (hi - lo) img) dst else dst)"

text \<open>One page of a segment.\<close>

definition load_page :: "addrspace \<Rightarrow> byte list \<Rightarrow> elf64_phdr \<Rightarrow> nat \<Rightarrow> nat \<Rightarrow> kmem \<Rightarrow> ((elf64_err + unit) \<times> kmem) option" where
  "load_page as img ph flags page k =
     (case km_alloc k of (frame, k) \<Rightarrow>
        if frame = 0 then Some (Inl ELF64_ENOMEM, k)
        else let k = km_frame frame (fill_page (zeros PAGE_SIZE) page img ph) k in
          case paging_map_4k as page frame flags k of (rc, k) \<Rightarrow>
            if rc = PAGING_ENOMEM then map_option (\<lambda>k. (Inl ELF64_ENOMEM, k)) (km_free frame k)
            else if rc \<noteq> PAGING_OK then None
            else Some (Inr (), k))"

text \<open>The loop over the pages. A validated segment ends below \<^verbatim>\<open>USER_VA_LIMIT\<close>, so \<^verbatim>\<open>page\<close> does not wrap.\<close>

function load_pages :: "addrspace \<Rightarrow> byte list \<Rightarrow> elf64_phdr \<Rightarrow> nat \<Rightarrow> nat \<Rightarrow> nat \<Rightarrow> kmem \<Rightarrow> ((elf64_err + unit) \<times> kmem) option" where
  "load_pages as img ph flags page seg_end k =
     (if page < seg_end
      then case load_page as img ph flags page k of
          None \<Rightarrow> None
        | Some (Inl e, k) \<Rightarrow> Some (Inl e, k)
        | Some (Inr _, k) \<Rightarrow> load_pages as img ph flags (page + PAGE_SIZE) seg_end k
      else Some (Inr (), k))"
  by pat_completeness auto
termination by (relation "measure (\<lambda>(as, img, ph, flags, page, seg_end, k). seg_end - page)") auto

declare load_pages.simps [simp del]

fun load_segments :: "addrspace \<Rightarrow> byte list \<Rightarrow> elf64_phdr list \<Rightarrow> kmem \<Rightarrow> ((elf64_err + unit) \<times> kmem) option" where
  "load_segments as img [] k = Some (Inr (), k)"
| "load_segments as img (ph # phs) k =
     (if p_type ph \<noteq> PT_LOAD \<or> p_memsz ph = 0 then load_segments as img phs k
      else case load_pages as img ph (seg_pte_flags (p_flags ph)) (page_down (p_vaddr ph)) (u64 (p_vaddr ph + p_memsz ph)) k of
          None \<Rightarrow> None
        | Some (Inl e, k) \<Rightarrow> Some (Inl e, k)
        | Some (Inr _, k) \<Rightarrow> load_segments as img phs k)"

definition elf64_load :: "addrspace \<Rightarrow> byte list \<Rightarrow> kmem \<Rightarrow> ((elf64_err + nat) \<times> kmem) option" where
  "elf64_load as img k =
     (case elf64_validate img PAGE_SIZE USER_VA_LIMIT of
        Inl e \<Rightarrow> Some (Inl e, k)
      | Inr info \<Rightarrow>
          case load_segments as img (map (elf64_phdr_get img) [0..<info_phnum info]) k of
            None \<Rightarrow> None
          | Some (Inl e, k) \<Rightarrow> Some (Inl e, k)
          | Some (Inr _, k) \<Rightarrow> Some (Inr (info_entry info), k))"

section \<open>The contents of a page\<close>

text \<open>The byte a process finds at an address of a segment.\<close>

definition seg_byte :: "byte list \<Rightarrow> elf64_phdr \<Rightarrow> nat \<Rightarrow> byte" where
  "seg_byte img ph v = (if p_vaddr ph \<le> v \<and> v < p_vaddr ph + p_filesz ph then img ! (p_offset ph + (v - p_vaddr ph)) else 0)"

lemma fill_page_run:
  assumes "p_vaddr ph + p_filesz ph < 2 ^ 64" "page + PAGE_SIZE < 2 ^ 64" "p_offset ph + p_filesz ph \<le> length img"
  shows "length (fill_page (zeros PAGE_SIZE) page img ph) = PAGE_SIZE"
    and "i < PAGE_SIZE \<Longrightarrow> fill_page (zeros PAGE_SIZE) page img ph ! i = seg_byte img ph (page + i)"
proof -
  define lo hi where "lo = max page (p_vaddr ph)" and "hi = min (page + 4096) (p_vaddr ph + p_filesz ph)"
  define s where "s = bslice (p_offset ph + (lo - p_vaddr ph)) (hi - lo) img"
  have lh: "page \<le> lo" "p_vaddr ph \<le> lo" "lo = page \<or> lo = p_vaddr ph" "hi \<le> page + 4096" "hi \<le> p_vaddr ph + p_filesz ph"
    "hi = page + 4096 \<or> hi = p_vaddr ph + p_filesz ph" by (auto simp: lo_def hi_def)
  have f: "fill_page (zeros 4096) page img ph = (if hi > lo then bsplice (lo - page) s (zeros 4096) else zeros 4096)"
    using assms(1,2) by (simp add: fill_page_def Let_def max_def min_def lo_def hi_def s_def)
  have "hi - lo \<le> length img - (p_offset ph + (lo - p_vaddr ph))" if "hi > lo" using that assms(3) lh(2,5) by linarith
  then have len: "length s = hi - lo" if "hi > lo" using that by (simp add: s_def)
  have fits: "lo - page + length s \<le> length (zeros 4096)" if "hi > lo" using len [OF that] that lh(1,4) by simp
  show "length (fill_page (zeros PAGE_SIZE) page img ph) = PAGE_SIZE" using fits by (simp add: f)
  show "fill_page (zeros PAGE_SIZE) page img ph ! i = seg_byte img ph (page + i)" if i: "i < PAGE_SIZE"
  proof (cases "hi > lo")
    case True
    have "bsplice (lo - page) s (zeros 4096) ! i
        = (if lo - page \<le> i \<and> i < lo - page + length s then s ! (i - (lo - page)) else 0)"
      using nth_splice [OF fits [OF True], of i] i by simp
    also have "\<dots> = seg_byte img ph (page + i)"
    proof (cases "p_vaddr ph \<le> page + i \<and> page + i < p_vaddr ph + p_filesz ph")
      case inside: True
      then have at: "lo - page \<le> i" "i < lo - page + length s" using len [OF True] i lh True by auto
      have "i - (lo - page) < hi - lo" "p_offset ph + (lo - p_vaddr ph) + (i - (lo - page)) < length img"
        using at len [OF True] inside assms(3) lh(1,2) by linarith+
      then have "s ! (i - (lo - page)) = img ! (p_offset ph + (lo - p_vaddr ph) + (i - (lo - page)))"
        unfolding s_def by (rule nth_slice)
      moreover have "p_offset ph + (lo - p_vaddr ph) + (i - (lo - page)) = p_offset ph + (page + i - p_vaddr ph)"
        using at(1) inside lh(1,2) by linarith
      ultimately show ?thesis using inside at by (simp add: seg_byte_def)
    next
      case False
      then have "\<not> (lo - page \<le> i \<and> i < lo - page + length s)" using len [OF True] True lh by linarith
      then show ?thesis using False by (simp only: if_False seg_byte_def)
    qed
    finally show ?thesis using True by (simp add: f)
  next
    case False
    then have "\<not> (p_vaddr ph \<le> page + i \<and> page + i < p_vaddr ph + p_filesz ph)" using i lh by linarith
    then show ?thesis using i False by (auto simp: f seg_byte_def)
  qed
qed

lemma seg_pte_flags_facts: "seg_pte_flags fl AND PTE_ADDR_MASK = 0" "seg_pte_flags fl < 2 ^ 64"
  by (simp_all add: seg_pte_flags_def Let_def and_or_nat)

section \<open>Loading pages\<close>

text \<open>
  The state of a load: the segment each page has been loaded from, if any. A loaded page is mapped with
  the flags of its segment to a frame that holds its bytes and nothing else uses.
\<close>

fun page_loaded :: "addrspace \<Rightarrow> byte list \<Rightarrow> nat set \<Rightarrow> nat \<Rightarrow> kmem \<Rightarrow> elf64_phdr option \<Rightarrow> bool" where
  "page_loaded as img D v k None \<longleftrightarrow> paging_lookup as v k = None"
| "page_loaded as img D v k (Some ph) \<longleftrightarrow> (\<exists>f. f div PAGE_SIZE \<in> D
     \<and> paging_lookup as v k = Some (f OR seg_pte_flags (p_flags ph) OR PTE_P, f + v mod PAGE_SIZE)
     \<and> f mod PAGE_SIZE = 0
     \<and> (\<forall>i < PAGE_SIZE. km_mem k (f div PAGE_SIZE) ! i = seg_byte img ph (page_down v + i)))"

definition load_inv :: "addrspace \<Rightarrow> byte list \<Rightarrow> (nat \<Rightarrow> elf64_phdr option) \<Rightarrow> kmem \<Rightarrow> bool" where
  "load_inv as img L k \<longleftrightarrow> pt_inv k (pml4_phys as) \<and> (\<forall>v < USER_VA_LIMIT. no_2m as v k)
     \<and> (\<exists>D. data_frames k (pml4_phys as) D \<and> (\<forall>v < USER_VA_LIMIT. page_loaded as img D v k (L (page_down v))))"

lemma same_page_iff:
  assumes "v < USER_VA_LIMIT" "page < USER_VA_LIMIT" "page mod PAGE_SIZE = 0"
  shows "same_page v page \<longleftrightarrow> page_down v = page"
proof -
  have "v div 4096 mod 2 ^ 36 = v div 4096" "page div 4096 mod 2 ^ 36 = page div 4096" using assms(1,2) by simp_all
  moreover have "page = page div 4096 * 4096" using div_mult_mod_eq [of page 4096] assms(3) by linarith
  ultimately show ?thesis unfolding same_page_def page_down_eq by (metis mult_cancel2 numeral_neq_zero)
qed

lemma page_loaded_mono:
  assumes "page_loaded as img D v k l" "paging_lookup as v k' = paging_lookup as v k" "D \<subseteq> D'"
    and "\<And>g. g \<in> D \<Longrightarrow> km_mem k' g = km_mem k g"
  shows "page_loaded as img D' v k' l"
proof (cases l)
  case (Some ph)
  then obtain f where f: "f div PAGE_SIZE \<in> D" "paging_lookup as v k = Some (f OR seg_pte_flags (p_flags ph) OR PTE_P, f + v mod PAGE_SIZE)"
    "f mod PAGE_SIZE = 0" "\<forall>i < PAGE_SIZE. km_mem k (f div PAGE_SIZE) ! i = seg_byte img ph (page_down v + i)"
    using assms(1) by auto
  have "km_mem k' (f div PAGE_SIZE) = km_mem k (f div PAGE_SIZE)" by (rule assms(4) [OF f(1)])
  then show ?thesis unfolding Some page_loaded.simps assms(2) using f assms(3) by (intro exI [of _ f]) auto
qed (use assms in simp)

lemma load_page_install:
  "load_page as img ph flags page k =
     (case install_page as page (fill_page (zeros PAGE_SIZE) page img ph) flags k of (f, rc, k) \<Rightarrow>
        if f = 0 then Some (Inl ELF64_ENOMEM, k)
        else if rc = PAGING_ENOMEM then map_option (\<lambda>k. (Inl ELF64_ENOMEM, k)) (km_free f k)
        else if rc \<noteq> PAGING_OK then None else Some (Inr (), k))"
proof -
  obtain f k1 where al: "km_alloc k = (f, k1)" by fastforce
  obtain rc k2 where "paging_map_4k as page f flags (km_frame f (fill_page (zeros PAGE_SIZE) page img ph) k1) = (rc, k2)" by fastforce
  then show ?thesis by (cases "f = 0") (simp_all add: load_page_def install_page_def al)
qed

lemma load_page_run:
  assumes I: "load_inv as img L k" and page: "page mod PAGE_SIZE = 0" "page < USER_VA_LIMIT" "L page = None"
    and ph: "p_vaddr ph + p_filesz ph < 2 ^ 64" "p_offset ph + p_filesz ph \<le> length img"
  shows "\<exists>r k'. load_page as img ph (seg_pte_flags (p_flags ph)) page k = Some (r, k')
    \<and> (r = Inr () \<and> load_inv as img (L(page \<mapsto> ph)) k' \<or> r = Inl ELF64_ENOMEM \<and> load_inv as img L k' \<and> card (free_frames k') \<le> 1)"
proof -
  let ?root = "pml4_phys as" and ?fl = "seg_pte_flags (p_flags ph)" and ?pg = "fill_page (zeros 4096) page img ph"
  obtain D where inv: "pt_inv k ?root" and no: "\<And>v. v < USER_VA_LIMIT \<Longrightarrow> no_2m as v k"
    and D: "data_frames k ?root D" and ld: "\<And>v. v < USER_VA_LIMIT \<Longrightarrow> page_loaded as img D v k (L (page_down v))"
    using I unfolding load_inv_def by blast
  have pd: "page_down page = page" using page(1) by (simp add: page_down_def)
  have none: "paging_lookup as page k = None" using ld [OF page(2)] page(3) by (simp add: pd)
  have "page + 4096 < 2 ^ 64" using page(2) by simp
  note F = fill_page_run [OF ph(1) this ph(2)]
  obtain f rc k' where ip: "install_page as page ?pg ?fl k = (f, rc, k')" using prod_cases3 by blast
  note N = install_page_run [OF inv no [OF page(2)] none page(1) seg_pte_flags_facts F(1) ip]
  have no': "\<And>v. v < USER_VA_LIMIT \<Longrightarrow> no_2m as v k'" using N(5) no by blast
  have mem: "km_mem k' g = km_mem k g" if "g \<in> D" for g
  proof (rule N(9))
    show "g \<notin> free_frames k" using D that unfolding data_frames_def by blast
    show "\<forall>p t. prefix p (vpath page 1) \<longrightarrow> table_at (km_mem k) 4 ?root p = Some t \<longrightarrow> t div PAGE_SIZE \<noteq> g"
      using D that is_path_prefix [OF vpath_path] unfolding data_frames_def by blast
  qed
  show ?thesis
  proof (cases "rc = PAGING_OK")
    case True
    note ok = N(7) [OF True] and nz = N(13) [OF True]
    have "page_loaded as img (insert (f div PAGE_SIZE) D) v k' ((L(page \<mapsto> ph)) (page_down v))" if v: "v < USER_VA_LIMIT" for v
    proof (cases "page_down v = page")
      case same: True
      then have "paging_lookup as v k' = Some (f OR ?fl OR PTE_P, f + v mod PAGE_SIZE)"
        using N(6) [OF True, of v] same_page_iff [OF v page(2,1)] by simp
      then show ?thesis using ok F(2) same by (auto intro!: exI [of _ f])
    next
      case False
      then have "paging_lookup as v k' = paging_lookup as v k"
        using N(6) [OF True, of v] same_page_iff [OF v page(2,1)] by simp
      from page_loaded_mono [OF ld [OF v] this _ mem] show ?thesis using False by auto
    qed
    then have "load_inv as img (L(page \<mapsto> ph)) k'"
      unfolding load_inv_def using N(1) no' N(8) [OF nz D] by blast
    moreover have "load_page as img ph ?fl page k = Some (Inr (), k')" using ip True nz by (simp add: load_page_install)
    ultimately show ?thesis by blast
  next
    case False
    then have rc: "rc = PAGING_ENOMEM" using N(3) by blast
    note nm = N(4) [OF rc]
    have keep: "page_loaded as img D v k' (L (page_down v))" if "v < USER_VA_LIMIT" for v
      by (rule page_loaded_mono [OF ld [OF that] _ subset_refl mem]) (use nm in blast)
    show ?thesis
    proof (cases "f = 0")
      case True
      then have "k' = k" "free_frames k = {}" using N(14) by blast+
      then show ?thesis using I ip True by (auto simp: load_page_install)
    next
      case nz: False
      note f = N(12) [OF nz]
      have ff: "f div PAGE_SIZE \<in> free_frames k" using f by (elim conjE)
      then have "f div PAGE_SIZE < pmm_nframes (km_pmm k')" using N(11) by (simp add: pmm_free_set_eq)
      moreover have "km_wf k'" using N(1) by (simp add: pt_inv_def)
      ultimately obtain k2 where k2: "km_free f k' = Some k2" "km_mem k2 = km_mem k'" "km_wf k2" "free_frames k2 = {f div PAGE_SIZE}"
        using km_free_run [of k' f] f nz nm by auto
      have "f div PAGE_SIZE \<notin> D" using ff D unfolding data_frames_def by blast
      from data_frame_freed [OF N(1) N(8) [OF nz D] this k2(2,3)] k2(4) nm
      have k2i: "pt_inv k2 ?root" "data_frames k2 ?root D" by simp_all
      have "page_loaded as img D v k2 (L (page_down v))" if "v < USER_VA_LIMIT" for v
        by (rule page_loaded_mono [OF keep [OF that] _ subset_refl]) (simp_all add: lookup_mem [OF k2(2)] k2(2))
      then have "load_inv as img L k2" unfolding load_inv_def using k2i no' lookup_mem [OF k2(2)] by blast
      moreover have "load_page as img ph ?fl page k = Some (Inl ELF64_ENOMEM, k2)" using ip nz rc k2(1) by (simp add: load_page_install)
      ultimately show ?thesis using k2(4) by auto
    qed
  qed
qed

lemma load_pages_run:
  assumes "load_inv as img L k" "page mod PAGE_SIZE = 0" "seg_end \<le> USER_VA_LIMIT"
    and "\<And>q. q mod PAGE_SIZE = 0 \<Longrightarrow> page \<le> q \<Longrightarrow> q < seg_end \<Longrightarrow> L q = None"
    and ph: "p_vaddr ph + p_filesz ph < 2 ^ 64" "p_offset ph + p_filesz ph \<le> length img"
  shows "\<exists>r k'. load_pages as img ph (seg_pte_flags (p_flags ph)) page seg_end k = Some (r, k')
    \<and> (r = Inr () \<and> load_inv as img (\<lambda>q. if q mod PAGE_SIZE = 0 \<and> page \<le> q \<and> q < seg_end then Some ph else L q) k'
       \<or> r = Inl ELF64_ENOMEM \<and> (\<exists>L'. load_inv as img L' k') \<and> card (free_frames k') \<le> 1)"
  using assms(1-4)
proof (induction "seg_end - page" arbitrary: page L k rule: less_induct)
  case less
  let ?run = "load_pages as img ph (seg_pte_flags (p_flags ph))"
  show ?case
  proof (cases "page < seg_end")
    case False
    then have "?run page seg_end k = Some (Inr (), k)" by (simp add: load_pages.simps)
    moreover have "(\<lambda>q. if q mod 4096 = 0 \<and> page \<le> q \<and> q < seg_end then Some ph else L q) = L" using False by (intro ext) auto
    ultimately show ?thesis using less.prems(1) by simp
  next
    case True
    then have lim: "page < USER_VA_LIMIT" using less.prems(3) by simp
    obtain r k1 where lp: "load_page as img ph (seg_pte_flags (p_flags ph)) page k = Some (r, k1)"
      "r = Inr () \<and> load_inv as img (L(page \<mapsto> ph)) k1 \<or> r = Inl ELF64_ENOMEM \<and> load_inv as img L k1 \<and> card (free_frames k1) \<le> 1"
      using load_page_run [OF less.prems(1,2) lim less.prems(4) [OF less.prems(2) _ True] ph] by auto
    show ?thesis
    proof (cases r)
      case (Inl e)
      then have "?run page seg_end k = Some (Inl e, k1)" using True lp(1) by (simp add: load_pages.simps)
      then show ?thesis using lp(2) Inl by auto
    next
      case (Inr u)
      then have run: "?run page seg_end k = ?run (page + PAGE_SIZE) seg_end k1" using True lp(1) by (simp add: load_pages.simps [of as img ph _ page])
      have I: "load_inv as img (L(page \<mapsto> ph)) k1" using lp(2) Inr by simp
      have step: "seg_end - (page + PAGE_SIZE) < seg_end - page" using True by simp
      have al: "(page + PAGE_SIZE) mod PAGE_SIZE = 0" using less.prems(2) by simp
      have nx: "page + PAGE_SIZE \<le> q \<longleftrightarrow> page \<le> q \<and> q \<noteq> page" if "q mod PAGE_SIZE = 0" for q
        using page_less [OF less.prems(2) that] page_less [OF that less.prems(2)] by linarith
      have free: "(L(page \<mapsto> ph)) q = None" if "q mod PAGE_SIZE = 0" "page + PAGE_SIZE \<le> q" "q < seg_end" for q
        using less.prems(4) [OF that(1)] that nx [OF that(1)] by simp
      have eq: "(\<lambda>q. if q mod 4096 = 0 \<and> page + PAGE_SIZE \<le> q \<and> q < seg_end then Some ph else (L(page \<mapsto> ph)) q)
          = (\<lambda>q. if q mod 4096 = 0 \<and> page \<le> q \<and> q < seg_end then Some ph else L q)"
        using nx True less.prems(2) by (intro ext) (auto simp del: mod_eq_0_iff_dvd)
      show ?thesis unfolding run using less.hyps [OF step I al less.prems(3) free] unfolding eq .
    qed
  qed
qed

section \<open>Loading an image\<close>

definition in_seg :: "nat \<Rightarrow> elf64_phdr \<Rightarrow> bool" where
  "in_seg v ph \<longleftrightarrow> loadable ph \<and> page_down v \<in> seg_pages ph"

lemma seg_pages_eq:
  "seg_pages ph = {q. q mod PAGE_SIZE = 0 \<and> page_down (p_vaddr ph) \<le> q \<and> q < p_vaddr ph + p_memsz ph}"
proof -
  have at: "p_vaddr ph < q + 4096 \<longleftrightarrow> page_down (p_vaddr ph) \<le> q" if q: "q mod 4096 = 0" for q
  proof
    assume "p_vaddr ph < q + 4096"
    then have "page_down (p_vaddr ph) < q + 4096" using page_down_le(1) [of "p_vaddr ph"] by linarith
    then show "page_down (p_vaddr ph) \<le> q" using page_less [OF page_down_le(2) q] by (rule iffD1 [rotated])
  next
    assume "page_down (p_vaddr ph) \<le> q"
    then show "p_vaddr ph < q + 4096" using page_down_le(3) [of "p_vaddr ph"] by linarith
  qed
  show ?thesis unfolding seg_pages_def by (intro Collect_cong conj_cong refl at)
qed

lemma load_segments_run:
  assumes "load_inv as img L k" "\<forall>ph \<in> set phs. seg_ok (length img) PAGE_SIZE USER_VA_LIMIT ph"
    and "sorted_wrt (\<lambda>a b. loadable a \<longrightarrow> loadable b \<longrightarrow> seg_pages a \<inter> seg_pages b = {}) phs"
    and "\<forall>ph \<in> set phs. loadable ph \<longrightarrow> (\<forall>q \<in> seg_pages ph. L q = None)"
  shows "\<exists>r k'. load_segments as img phs k = Some (r, k')
    \<and> (r = Inr () \<and> load_inv as img (\<lambda>q. case List.find (\<lambda>ph. loadable ph \<and> q \<in> seg_pages ph) phs of Some ph \<Rightarrow> Some ph | None \<Rightarrow> L q) k'
       \<or> r = Inl ELF64_ENOMEM \<and> (\<exists>L'. load_inv as img L' k') \<and> card (free_frames k') \<le> 1)"
  using assms
proof (induction phs arbitrary: L k)
  case Nil
  then show ?case by simp
next
  case (Cons ph phs)
  show ?case
  proof (cases "loadable ph")
    case False
    then have "load_segments as img (ph # phs) k = load_segments as img phs k" by (auto simp: loadable_def)
    then show ?thesis using Cons.IH [OF Cons.prems(1)] Cons.prems(2-4) False by (simp cong: option.case_cong)
  next
    case True
    have ok: "seg_ok (length img) PAGE_SIZE USER_VA_LIMIT ph" using Cons.prems(2) by simp
    then have b: "p_vaddr ph + p_memsz ph \<le> USER_VA_LIMIT" "p_offset ph + p_filesz ph \<le> length img" "p_filesz ph \<le> p_memsz ph"
      using True by (simp_all add: seg_ok_def loadable_def)
    have b64: "p_vaddr ph + p_filesz ph < 2 ^ 64" "u64 (p_vaddr ph + p_memsz ph) = p_vaddr ph + p_memsz ph" using b by simp_all
    let ?L = "\<lambda>q. if q mod PAGE_SIZE = 0 \<and> page_down (p_vaddr ph) \<le> q \<and> q < p_vaddr ph + p_memsz ph then Some ph else L q"
    have none: "L q = None" if "q mod PAGE_SIZE = 0" "page_down (p_vaddr ph) \<le> q" "q < p_vaddr ph + p_memsz ph" for q
      using Cons.prems(4) True that by (simp add: seg_pages_eq)
    have "\<exists>r k1. load_pages as img ph (seg_pte_flags (p_flags ph)) (page_down (p_vaddr ph)) (p_vaddr ph + p_memsz ph) k = Some (r, k1)
      \<and> (r = Inr () \<and> load_inv as img ?L k1 \<or> r = Inl ELF64_ENOMEM \<and> (\<exists>L'. load_inv as img L' k1) \<and> card (free_frames k1) \<le> 1)"
      by (rule load_pages_run [OF Cons.prems(1) page_down_le(2) b(1) _ b64(1) b(2)]) (rule none)
    then obtain r k1 where lp: "load_pages as img ph (seg_pte_flags (p_flags ph)) (page_down (p_vaddr ph)) (p_vaddr ph + p_memsz ph) k = Some (r, k1)"
      "r = Inr () \<and> load_inv as img ?L k1 \<or> r = Inl ELF64_ENOMEM \<and> (\<exists>L'. load_inv as img L' k1) \<and> card (free_frames k1) \<le> 1"
      by (elim exE conjE) simp
    show ?thesis
    proof (cases r)
      case (Inl e)
      then have "load_segments as img (ph # phs) k = Some (Inl e, k1)" using lp(1) True b64(2) by (simp add: loadable_def)
      then show ?thesis using lp(2) Inl by auto
    next
      case (Inr u)
      then have run: "load_segments as img (ph # phs) k = load_segments as img phs k1"
        using lp(1) True b64(2) by (simp add: loadable_def)
      have Leq: "?L = (\<lambda>q. if q \<in> seg_pages ph then Some ph else L q)" by (simp add: seg_pages_eq)
      have I: "load_inv as img (\<lambda>q. if q \<in> seg_pages ph then Some ph else L q) k1" using lp(2) Inr unfolding Leq by simp
      have ok': "\<forall>ph \<in> set phs. seg_ok (length img) PAGE_SIZE USER_VA_LIMIT ph"
        "sorted_wrt (\<lambda>a b. loadable a \<longrightarrow> loadable b \<longrightarrow> seg_pages a \<inter> seg_pages b = {}) phs" using Cons.prems(2,3) by simp_all
      have none': "\<forall>b \<in> set phs. loadable b \<longrightarrow> (\<forall>q \<in> seg_pages b. (if q \<in> seg_pages ph then Some ph else L q) = None)"
        using Cons.prems(3,4) True by auto
      have eq: "(\<lambda>q. case List.find (\<lambda>a. loadable a \<and> q \<in> seg_pages a) phs of Some a \<Rightarrow> Some a | None \<Rightarrow> if q \<in> seg_pages ph then Some ph else L q)
          = (\<lambda>q. case List.find (\<lambda>a. loadable a \<and> q \<in> seg_pages a) (ph # phs) of Some a \<Rightarrow> Some a | None \<Rightarrow> L q)"
      proof
        fix q
        have "List.find (\<lambda>a. loadable a \<and> q \<in> seg_pages a) phs = None" if "q \<in> seg_pages ph"
          using that Cons.prems(3) True by (auto simp: find_None_iff)
        then show "(case List.find (\<lambda>a. loadable a \<and> q \<in> seg_pages a) phs of Some a \<Rightarrow> Some a | None \<Rightarrow> if q \<in> seg_pages ph then Some ph else L q)
            = (case List.find (\<lambda>a. loadable a \<and> q \<in> seg_pages a) (ph # phs) of Some a \<Rightarrow> Some a | None \<Rightarrow> L q)"
          using True by (cases "q \<in> seg_pages ph") (simp_all cong: option.case_cong)
      qed
      from Cons.IH [OF I ok' none'] show ?thesis unfolding run eq .
    qed
  qed
qed

lemma elf64_load_segments:
  assumes "pt_inv k (pml4_phys as)" "\<forall>v < USER_VA_LIMIT. no_2m as v k \<and> paging_lookup as v k = None"
    and "elf_loadable img PAGE_SIZE USER_VA_LIMIT"
  defines "phs \<equiv> map (elf64_phdr_get img) [0..<e_phnum (ehdr_get img)]"
  shows "\<exists>r k'. load_segments as img phs k = Some (r, k')
    \<and> (r = Inr () \<and> load_inv as img (\<lambda>q. List.find (\<lambda>ph. loadable ph \<and> q \<in> seg_pages ph) phs) k'
       \<or> r = Inl ELF64_ENOMEM \<and> (\<exists>L'. load_inv as img L' k') \<and> card (free_frames k') \<le> 1)"
proof -
  have "load_inv as img (\<lambda>_. None) k"
    using assms(1,2) by (auto simp: load_inv_def data_frames_def intro!: exI [of _ "{}"])
  moreover have "\<forall>ph \<in> set phs. seg_ok (length img) PAGE_SIZE USER_VA_LIMIT ph"
    using assms(3) unfolding elf_loadable_def Let_def phs_def by blast
  moreover have "\<forall>i < length phs. \<forall>j < length phs. i \<noteq> j \<longrightarrow> loadable (phs ! i) \<longrightarrow> loadable (phs ! j) \<longrightarrow>
             seg_pages (phs ! i) \<inter> seg_pages (phs ! j) = {}"
    using assms(3) unfolding elf_loadable_def Let_def phs_def by blast
  then have "sorted_wrt (\<lambda>a b. loadable a \<longrightarrow> loadable b \<longrightarrow> seg_pages a \<inter> seg_pages b = {}) phs"
    unfolding sorted_wrt_iff_nth_less by (metis less_trans nat_neq_iff)
  ultimately have "\<exists>r k'. load_segments as img phs k = Some (r, k')
    \<and> (r = Inr () \<and> load_inv as img (\<lambda>q. case List.find (\<lambda>ph. loadable ph \<and> q \<in> seg_pages ph) phs of Some ph \<Rightarrow> Some ph | None \<Rightarrow> None) k'
       \<or> r = Inl ELF64_ENOMEM \<and> (\<exists>L'. load_inv as img L' k') \<and> card (free_frames k') \<le> 1)"
    by (rule load_segments_run) simp
  moreover have "(case x of Some a \<Rightarrow> Some a | None \<Rightarrow> None) = x" for x :: "elf64_phdr option" by (cases x) simp_all
  ultimately show ?thesis by (simp only:)
qed

text \<open>
  C26. A load puts exactly the image into memory. Into an address space without user mappings, a load
  never fails an assertion: an image that is not loadable is refused and nothing changes; a loadable
  one is loaded unless at most one frame is left. After a load every user address on a page of a
  segment is mapped with the permissions of that segment and holds the byte of the file, or zero past
  the file's bytes, no other user address is mapped, and the entry point is the one of the header.
\<close>

theorem elf64_load_image:
  assumes "pt_inv k (pml4_phys as)" "\<forall>v < USER_VA_LIMIT. no_2m as v k \<and> paging_lookup as v k = None"
  shows "\<exists>r k'. elf64_load as img k = Some (r, k') \<and>
    (case r of
       Inl e \<Rightarrow> \<not> elf_loadable img PAGE_SIZE USER_VA_LIMIT \<and> k' = k
         \<or> elf_loadable img PAGE_SIZE USER_VA_LIMIT \<and> e = ELF64_ENOMEM \<and> pt_inv k' (pml4_phys as) \<and> card (free_frames k') \<le> 1
     | Inr entry \<Rightarrow> elf_loadable img PAGE_SIZE USER_VA_LIMIT \<and> entry = e_entry (ehdr_get img) \<and> pt_inv k' (pml4_phys as)
         \<and> (\<forall>v < USER_VA_LIMIT.
              case List.find (in_seg v) (map (elf64_phdr_get img) [0..<e_phnum (ehdr_get img)]) of
                None \<Rightarrow> paging_lookup as v k' = None
              | Some ph \<Rightarrow> \<exists>f. paging_lookup as v k' = Some (f OR seg_pte_flags (p_flags ph) OR PTE_P, f + v mod PAGE_SIZE)
                  \<and> f mod PAGE_SIZE = 0 \<and> km_mem k' (f div PAGE_SIZE) ! (v mod PAGE_SIZE) = seg_byte img ph v))"
proof (cases "elf64_validate img PAGE_SIZE USER_VA_LIMIT")
  case (Inl e)
  then have "\<not> elf_loadable img PAGE_SIZE USER_VA_LIMIT"
    using elf64_validate_iff [of USER_VA_LIMIT img PAGE_SIZE] by auto
  then show ?thesis using Inl by (simp add: elf64_load_def)
next
  case (Inr info)
  let ?phs = "map (elf64_phdr_get img) [0..<e_phnum (ehdr_get img)]"
  have ok: "elf_loadable img PAGE_SIZE USER_VA_LIMIT" "info_entry info = e_entry (ehdr_get img)" "info_phnum info = e_phnum (ehdr_get img)"
    using Inr elf64_validate_iff [of USER_VA_LIMIT img PAGE_SIZE info] by auto
  obtain r k' where r: "load_segments as img ?phs k = Some (r, k')"
    "r = Inr () \<and> load_inv as img (\<lambda>q. List.find (\<lambda>ph. loadable ph \<and> q \<in> seg_pages ph) ?phs) k'
       \<or> r = Inl ELF64_ENOMEM \<and> (\<exists>L'. load_inv as img L' k') \<and> card (free_frames k') \<le> 1"
    using elf64_load_segments [OF assms ok(1)] by blast
  show ?thesis
  proof (cases r)
    case (Inl e)
    then have "elf64_load as img k = Some (Inl e, k')" using Inr r(1) ok by (simp add: elf64_load_def)
    then show ?thesis using r(2) Inl ok(1) by (auto simp: load_inv_def)
  next
    case u: (Inr u)
    then have run: "elf64_load as img k = Some (Inr (e_entry (ehdr_get img)), k')" using Inr r(1) ok by (simp add: elf64_load_def)
    have I: "load_inv as img (\<lambda>q. List.find (\<lambda>ph. loadable ph \<and> q \<in> seg_pages ph) ?phs) k'" using r(2) u by simp
    then obtain D where D: "pt_inv k' (pml4_phys as)"
      "\<And>v. v < USER_VA_LIMIT \<Longrightarrow> page_loaded as img D v k' (List.find (in_seg v) ?phs)"
      unfolding load_inv_def in_seg_def by blast
    have "case List.find (in_seg v) ?phs of None \<Rightarrow> paging_lookup as v k' = None
        | Some ph \<Rightarrow> \<exists>f. paging_lookup as v k' = Some (f OR seg_pte_flags (p_flags ph) OR PTE_P, f + v mod PAGE_SIZE)
            \<and> f mod PAGE_SIZE = 0 \<and> km_mem k' (f div PAGE_SIZE) ! (v mod PAGE_SIZE) = seg_byte img ph v" if v: "v < USER_VA_LIMIT" for v
    proof (cases "List.find (in_seg v) ?phs")
      case None
      then show ?thesis using D(2) [OF v] by simp
    next
      case (Some ph)
      obtain f where f: "paging_lookup as v k' = Some (f OR seg_pte_flags (p_flags ph) OR PTE_P, f + v mod PAGE_SIZE)" "f mod PAGE_SIZE = 0"
        "\<forall>i < PAGE_SIZE. km_mem k' (f div PAGE_SIZE) ! i = seg_byte img ph (page_down v + i)"
        using D(2) [OF v] Some by auto
      have "v mod 4096 < 4096" "page_down v + v mod 4096 = v" by (simp_all add: page_down_def)
      then have "km_mem k' (f div PAGE_SIZE) ! (v mod PAGE_SIZE) = seg_byte img ph v" using f(3) by metis
      then show ?thesis using Some f(1,2) by auto
    qed
    then show ?thesis using run ok(1) D(1) by simp
  qed
qed

lemma elf_example_phdr:
  "elf64_phdr_get elf_example 0 = \<lparr>p_type = PT_LOAD, p_flags = 5, p_offset = 0, p_vaddr = 0x400000, p_paddr = 0,
     p_filesz = 120, p_memsz = 120, p_align = 0\<rparr>"
  by code_simp

lemma elf_example_headers:
  "elf64_validate elf_example PAGE_SIZE USER_VA_LIMIT = Inr \<lparr>info_entry = 0x400040, info_phnum = 1\<rparr>"
  "e_phnum (ehdr_get elf_example) = 1" "elf_example ! 1 = 69" "length elf_example = 120"
  using elf_example_valid elf64_validate_iff [of "2 ^ 47" elf_example 4096 "\<lparr>info_entry = 0x400040, info_phnum = 1\<rparr>"]
  by (simp_all add: elf_example_def)

theorem elf64_load_image_witness:
  "\<exists>as k k' f. paging_addrspace_create ex_kmem = (Inr as, k) \<and> elf64_load as elf_example k = Some (Inr 0x400040, k')
     \<and> paging_lookup as 0x400001 k' = Some (f OR 5, f + 1) \<and> f mod PAGE_SIZE = 0 \<and> km_mem k' (f div PAGE_SIZE) ! 1 = 69
     \<and> paging_lookup as 0x401000 k' = None"
proof -
  note h = elf_example_headers elf_example_phdr
  let ?ph = "elf64_phdr_get elf_example 0"
  obtain as k where as: "paging_addrspace_create ex_kmem = (Inr as, k)" using ex_addrspace by blast
  note c = addrspace_create_run [OF ex_kmem_wf(1) as]
  have free: "card (free_frames k) = 14" using c(4,5) ex_kmem_wf(2) by simp
  have "\<forall>v < USER_VA_LIMIT. no_2m as v k \<and> paging_lookup as v k = None" using c(2,3) by blast
  note T = elf64_load_image [OF c(1) this, of elf_example]
  obtain f k1 where al: "km_alloc k = (f, k1)" by fastforce
  have wf: "km_wf k" using c(1) by (simp add: pt_inv_def)
  note a = km_alloc_run [OF wf al]
  have f: "f \<noteq> 0"
  proof
    assume "f = 0"
    then show False using a(3) free by simp
  qed
  let ?pg = "fill_page (zeros PAGE_SIZE) 0x400000 elf_example ?ph" and ?fl = "seg_pte_flags 5"
  have pg: "length ?pg = PAGE_SIZE" by (rule fill_page_run) (simp_all add: h)
  let ?k = "km_frame f ?pg k1"
  have "free_frames ?k = free_frames k - {f div PAGE_SIZE}" "f div PAGE_SIZE \<in> free_frames k" using a(4) [OF f] by simp_all
  then have "4 < card (free_frames ?k)" using free by (simp add: card_Diff_singleton)
  moreover have "no_2m as v ?k" "paging_lookup as v ?k = None" for v
    using leaf_lookup [of ?k as k v] km_frame_tables(3) [OF c(1) al f pg] c(2,3) by simp_all
  moreover have "f mod PAGE_SIZE = 0" "f < 2 ^ 52" using a(4) [OF f] by simp_all
  ultimately have "fst (paging_map_4k as 0x400000 f ?fl ?k) = PAGING_OK"
    using map_4k_succeeds [OF km_frame_tables(1) [OF c(1) al f pg], of "0x400000" f ?fl] seg_pte_flags_facts by simp
  then obtain k2 where m: "paging_map_4k as 0x400000 f ?fl ?k = (PAGING_OK, k2)" by (metis prod.collapse)
  have "load_page as elf_example ?ph ?fl 0x400000 k = Some (Inr (), k2)" using al f m by (simp add: load_page_def)
  then have "load_pages as elf_example ?ph ?fl 0x400000 0x400078 k = Some (Inr (), k2)"
    by (simp add: load_pages.simps [of _ _ _ _ "0x400000"] load_pages.simps [of _ _ _ _ "0x401000"])
  then have run: "elf64_load as elf_example k = Some (Inr 0x400040, k2)"
    by (simp add: elf64_load_def h page_down_def u64_def)
  have s: "in_seg 0x400001 ?ph" "\<not> in_seg 0x401000 ?ph" by (simp_all add: in_seg_def loadable_def seg_pages_def h page_down_def)
  have fl: "?fl OR PTE_P = 5" by (simp add: seg_pte_flags_def)
  have map0: "map (elf64_phdr_get elf_example) [0..<e_phnum (ehdr_get elf_example)] = [?ph]" by (simp add: h(2))
  have v: "case List.find (in_seg v) [?ph] of None \<Rightarrow> paging_lookup as v k2 = None
      | Some ph \<Rightarrow> \<exists>f. paging_lookup as v k2 = Some (f OR seg_pte_flags (p_flags ph) OR PTE_P, f + v mod PAGE_SIZE)
          \<and> f mod PAGE_SIZE = 0 \<and> km_mem k2 (f div PAGE_SIZE) ! (v mod PAGE_SIZE) = seg_byte elf_example ph v" if "v < USER_VA_LIMIT" for v
    using T that unfolding run map0 by auto
  have "seg_byte elf_example ?ph 0x400001 = 69" using h(3) by (simp add: seg_byte_def elf_example_phdr)
  then obtain g where "paging_lookup as 0x400001 k2 = Some (g OR 5, g + 1)" "g mod PAGE_SIZE = 0" "km_mem k2 (g div PAGE_SIZE) ! 1 = 69"
    using v [of "0x400001"] s(1) fl by (auto simp: h)
  moreover have "paging_lookup as 0x401000 k2 = None" using v [of "0x401000"] s(2) by simp
  ultimately show ?thesis using as run by (intro exI conjI)
qed

end
