(* ===== verification/Sched_Core.thy ===== *)
theory Sched_Core
  imports Kernel_Prelude
begin

text \<open>
  Threads and the scheduler policy core (\<^verbatim>\<open>kernel/include/thread.h\<close>, \<^verbatim>\<open>kernel/sched/sched_core.c\<close>).
  Thread control blocks live in a heap from addresses to records, address 0 is \<^verbatim>\<open>NULL\<close>, and every list
  is threaded through the one link \<^verbatim>\<open>next\<close> of the control block. \<open>path\<close> and \<open>fifo\<close> say which list of
  threads a head and a tail pointer represent.
\<close>

section \<open>Threads\<close>

datatype thread_state = THREAD_READY | THREAD_RUNNING | THREAD_SLEEPING | THREAD_BLOCKED | THREAD_ZOMBIE

text \<open>
  The saved stack of a thread that is off the processor decides what it does when it runs again. The
  model keeps that as a value: the code of its own it returns to (\<open>K_run\<close>), the rest of
  \<^verbatim>\<open>mutex_lock\<close>, \<^verbatim>\<open>thread_join\<close> or \<^verbatim>\<open>thread_exit\<close> after the call of \<^verbatim>\<open>schedule\<close>, or the head of the
  loop of a pipe or socket transfer with the values of its local variables.
\<close>

datatype cont =
    K_run
  | K_lock nat
  | K_join nat
  | K_exit
  | K_pipe_read nat nat
  | K_pipe_write nat "byte list" nat
  | K_socket_read nat nat nat
  | K_socket_write nat nat "byte list" nat

record thread =
  th_rsp :: cont
  th_id :: nat
  th_state :: thread_state
  th_name :: "byte list"
  th_wake_tick :: nat
  th_joiner :: nat
  th_next :: nat
  th_stack_base :: nat
  th_kstack_top :: nat
  th_as :: nat
  th_pid :: int

type_synonym tcbs = "nat \<Rightarrow> thread"

definition set_next :: "nat \<Rightarrow> nat \<Rightarrow> tcbs \<Rightarrow> tcbs" where
  "set_next t n th = th(t := th t\<lparr>th_next := n\<rparr>)"

definition set_state :: "nat \<Rightarrow> thread_state \<Rightarrow> tcbs \<Rightarrow> tcbs" where
  "set_state t st th = th(t := th t\<lparr>th_state := st\<rparr>)"

lemma set_fields [simp]:
  "th_rsp (set_next a n th u) = th_rsp (th u)"
  "th_id (set_next a n th u) = th_id (th u)"
  "th_name (set_next a n th u) = th_name (th u)"
  "th_wake_tick (set_next a n th u) = th_wake_tick (th u)"
  "th_joiner (set_next a n th u) = th_joiner (th u)"
  "th_stack_base (set_next a n th u) = th_stack_base (th u)"
  "th_kstack_top (set_next a n th u) = th_kstack_top (th u)"
  "th_as (set_next a n th u) = th_as (th u)"
  "th_pid (set_next a n th u) = th_pid (th u)"
  "th_state (set_next a n th u) = th_state (th u)"
  "th_rsp (set_state a st th u) = th_rsp (th u)"
  "th_id (set_state a st th u) = th_id (th u)"
  "th_name (set_state a st th u) = th_name (th u)"
  "th_wake_tick (set_state a st th u) = th_wake_tick (th u)"
  "th_joiner (set_state a st th u) = th_joiner (th u)"
  "th_stack_base (set_state a st th u) = th_stack_base (th u)"
  "th_kstack_top (set_state a st th u) = th_kstack_top (th u)"
  "th_as (set_state a st th u) = th_as (th u)"
  "th_pid (set_state a st th u) = th_pid (th u)"
  "th_next (set_state a st th u) = th_next (th u)"
  "th_next (set_next a n th u) = (if u = a then n else th_next (th u))"
  "th_state (set_state a st th u) = (if u = a then st else th_state (th u))"
  by (simp_all add: set_next_def set_state_def)

section \<open>Operations\<close>

record sched_core =
  ready_head :: nat
  ready_tail :: nat
  sleepers :: nat

definition sched_core_init :: sched_core where
  "sched_core_init = \<lparr>ready_head = 0, ready_tail = 0, sleepers = 0\<rparr>"

definition sched_core_enqueue :: "nat \<Rightarrow> sched_core \<times> tcbs \<Rightarrow> sched_core \<times> tcbs" where
  "sched_core_enqueue t = (\<lambda>(sc, th).
     let th = set_next t 0 (set_state t THREAD_READY th) in
     if ready_tail sc \<noteq> 0 then (sc\<lparr>ready_tail := t\<rparr>, set_next (ready_tail sc) t th)
     else (sc\<lparr>ready_head := t, ready_tail := t\<rparr>, th))"

definition sched_core_dequeue :: "sched_core \<times> tcbs \<Rightarrow> nat \<times> sched_core \<times> tcbs" where
  "sched_core_dequeue = (\<lambda>(sc, th).
     let t = ready_head sc in
     if t = 0 then (0, sc, th)
     else let sc = sc\<lparr>ready_head := th_next (th t)\<rparr>;
              sc = (if ready_head sc = 0 then sc\<lparr>ready_tail := 0\<rparr> else sc)
          in (t, sc, set_next t 0 th))"

definition sched_core_has_ready :: "sched_core \<Rightarrow> bool" where
  "sched_core_has_ready sc \<longleftrightarrow> ready_head sc \<noteq> 0"

text \<open>
  The loop of \<^verbatim>\<open>sched_core_sleep\<close> moves a pointer to a link: \<open>prev = 0\<close> stands for
  \<^verbatim>\<open>&sc->sleepers\<close> and any other value for \<^verbatim>\<open>&prev->next\<close>. On a list that closes on itself it
  would not end, so it is a partial function; \<open>sleep_link_run\<close> shows that it returns.
\<close>

definition get_link :: "nat \<Rightarrow> sched_core \<times> tcbs \<Rightarrow> nat" where
  "get_link prev = (\<lambda>(sc, th). if prev = 0 then sleepers sc else th_next (th prev))"

definition set_link :: "nat \<Rightarrow> nat \<Rightarrow> sched_core \<times> tcbs \<Rightarrow> sched_core \<times> tcbs" where
  "set_link prev t = (\<lambda>(sc, th). if prev = 0 then (sc\<lparr>sleepers := t\<rparr>, th) else (sc, set_next prev t th))"

partial_function (option) sleep_link :: "nat \<Rightarrow> nat \<Rightarrow> sched_core \<times> tcbs \<Rightarrow> nat option" where
  "sleep_link prev wake_tick s =
     (let link = get_link prev s in
      if link \<noteq> 0 \<and> th_wake_tick (snd s link) \<le> wake_tick then sleep_link link wake_tick s else Some prev)"

definition sched_core_sleep :: "nat \<Rightarrow> nat \<Rightarrow> sched_core \<times> tcbs \<Rightarrow> (sched_core \<times> tcbs) option" where
  "sched_core_sleep t wake_tick = (\<lambda>(sc, th).
     let th = (set_state t THREAD_SLEEPING th)(t := set_state t THREAD_SLEEPING th t\<lparr>th_wake_tick := wake_tick\<rparr>) in
     case sleep_link 0 wake_tick (sc, th) of
       None \<Rightarrow> None
     | Some link \<Rightarrow> Some (set_link link t (sc, set_next t (get_link link (sc, th)) th)))"

partial_function (option) wake_due_loop ::
  "nat \<Rightarrow> nat \<Rightarrow> sched_core \<times> tcbs \<Rightarrow> (nat \<times> sched_core \<times> tcbs) option" where
  "wake_due_loop woken now s =
     (case s of (sc, th) \<Rightarrow>
      if sleepers sc \<noteq> 0 \<and> th_wake_tick (th (sleepers sc)) \<le> now then
        (let t = sleepers sc in
         wake_due_loop (u32 (woken + 1)) now (sched_core_enqueue t (sc\<lparr>sleepers := th_next (th t)\<rparr>, th)))
      else Some (woken, s))"

definition sched_core_wake_due :: "nat \<Rightarrow> sched_core \<times> tcbs \<Rightarrow> (nat \<times> sched_core \<times> tcbs) option" where
  "sched_core_wake_due now s = wake_due_loop 0 now s"

section \<open>Lists threaded through the links\<close>

fun path :: "tcbs \<Rightarrow> nat \<Rightarrow> nat list \<Rightarrow> bool" where
  "path th p [] \<longleftrightarrow> p = 0"
| "path th p (x # xs) \<longleftrightarrow> p = x \<and> x \<noteq> 0 \<and> path th (th_next (th x)) xs"

definition fifo :: "tcbs \<Rightarrow> nat \<times> nat \<Rightarrow> nat list \<Rightarrow> bool" where
  "fifo th q xs \<longleftrightarrow> path th (fst q) xs \<and> snd q = (if xs = [] then 0 else last xs) \<and> distinct xs"

named_theorems queue_simps \<open>reading a queue through an update of the heap\<close>

lemma path_cong: "(\<And>x. x \<in> set xs \<Longrightarrow> th_next (th' x) = th_next (th x)) \<Longrightarrow> path th' p xs \<longleftrightarrow> path th p xs"
  by (induction xs arbitrary: p) auto

lemma fifo_cong: "(\<And>x. x \<in> set xs \<Longrightarrow> th_next (th' x) = th_next (th x)) \<Longrightarrow> fifo th' q xs \<longleftrightarrow> fifo th q xs"
  using path_cong [of xs th' th] by (simp add: fifo_def)

lemma path_set_next [simp, queue_simps]: "t \<notin> set xs \<Longrightarrow> path (set_next t n th) p xs \<longleftrightarrow> path th p xs"
  by (rule path_cong) (auto simp: set_next_def)

lemma fifo_set_next [simp, queue_simps]: "t \<notin> set xs \<Longrightarrow> fifo (set_next t n th) q xs \<longleftrightarrow> fifo th q xs"
  by (rule fifo_cong) (auto simp: set_next_def)

lemma path_set_state [simp, queue_simps]: "path (set_state t st th) p xs \<longleftrightarrow> path th p xs"
  by (rule path_cong) (auto simp: set_state_def)

lemma fifo_set_state [simp, queue_simps]: "fifo (set_state t st th) q xs \<longleftrightarrow> fifo th q xs"
  by (rule fifo_cong) (auto simp: set_state_def)

lemma path_0: "path th 0 xs \<longleftrightarrow> xs = []"
  by (cases xs) auto

lemma path_nonzero: "path th p xs \<Longrightarrow> 0 \<notin> set xs"
  by (induction xs arbitrary: p) auto

lemma path_unique: "path th p xs \<Longrightarrow> path th p ys \<Longrightarrow> xs = ys"
proof (induction xs arbitrary: p ys)
  case Nil
  then show ?case by (simp add: path_0)
next
  case (Cons x xs)
  then show ?case by (cases ys) auto
qed

lemma path_snoc:
  assumes "path th p xs" "distinct xs" "xs \<noteq> []" "t \<noteq> 0" "t \<notin> set xs" "th_next (th t) = 0"
  shows "path (set_next (last xs) t th) p (xs @ [t])"
  using assms
proof (induction xs arbitrary: p)
  case (Cons x xs)
  show ?case
  proof (cases "xs = []")
    case True
    with Cons.prems show ?thesis by (auto simp: set_next_def)
  next
    case False
    then have "x \<noteq> last xs" using Cons.prems(2) last_in_set by auto
    with False Cons show ?thesis by (auto simp: set_next_def)
  qed
qed simp

section \<open>First in, first out\<close>

text \<open>
  The contract of a queue of threads. A queue is a head and a tail pointer beside the heap; pushing
  appends, popping takes the oldest, and neither touches a thread outside the queue.
\<close>

locale thread_queue =
  fixes push :: "nat \<Rightarrow> 's \<Rightarrow> 's" and pop :: "'s \<Rightarrow> nat \<times> 's"
    and ends :: "'s \<Rightarrow> nat \<times> nat" and heap :: "'s \<Rightarrow> tcbs"
  assumes push_fifo: "fifo (heap s) (ends s) xs \<Longrightarrow> t \<noteq> 0 \<Longrightarrow> t \<notin> set xs \<Longrightarrow>
      fifo (heap (push t s)) (ends (push t s)) (xs @ [t])"
    and push_frame: "fifo (heap s) (ends s) xs \<Longrightarrow> u \<notin> set xs \<Longrightarrow> u \<noteq> t \<Longrightarrow> heap (push t s) u = heap s u"
    and pop_fifo: "fifo (heap s) (ends s) (x # xs) \<Longrightarrow>
      fst (pop s) = x \<and> fifo (heap (snd (pop s))) (ends (snd (pop s))) xs"
    and pop_frame: "fifo (heap s) (ends s) (x # xs) \<Longrightarrow> u \<noteq> x \<Longrightarrow> heap (snd (pop s)) u = heap s u"
    and pop_empty: "fifo (heap s) (ends s) [] \<Longrightarrow> pop s = (0, s)"
begin

fun pops :: "nat \<Rightarrow> 's \<Rightarrow> nat list" where
  "pops 0 s = []"
| "pops (Suc n) s = fst (pop s) # pops n (snd (pop s))"

lemma push_path:
  assumes "fifo (heap s) (ends s) xs" "path (heap s) p ys" "set ys \<inter> set xs = {}" "t \<notin> set ys"
  shows "path (heap (push t s)) p ys"
proof -
  have "th_next (heap (push t s) u) = th_next (heap s u)" if "u \<in> set ys" for u
    using push_frame [OF assms(1), of u t] that assms(3,4) by (metis disjoint_iff)
  then show ?thesis using assms(2) path_cong [of ys "heap (push t s)" "heap s"] by blast
qed

lemma pop_path:
  assumes "fifo (heap s) (ends s) (x # xs)" "path (heap s) p ys" "x \<notin> set ys"
  shows "path (heap (snd (pop s))) p ys"
proof -
  have "th_next (heap (snd (pop s)) u) = th_next (heap s u)" if "u \<in> set ys" for u
    using pop_frame [OF assms(1), of u] that assms(3) by metis
  then show ?thesis using assms(2) path_cong [of ys "heap (snd (pop s))" "heap s"] by blast
qed

lemma push_fifo_other:
  "fifo (heap s) (ends s) xs \<Longrightarrow> fifo (heap s) q ys \<Longrightarrow> set ys \<inter> set xs = {} \<Longrightarrow> t \<notin> set ys \<Longrightarrow>
    fifo (heap (push t s)) q ys"
  using push_path [of s xs "fst q" ys t] by (simp add: fifo_def [of _ q])

lemma pop_fifo_other:
  "fifo (heap s) (ends s) (x # xs) \<Longrightarrow> fifo (heap s) q ys \<Longrightarrow> x \<notin> set ys \<Longrightarrow> fifo (heap (snd (pop s))) q ys"
  using pop_path [of s x xs "fst q" ys] by (simp add: fifo_def [of _ q])

text \<open>Threads leave in the order in which they came.\<close>

lemma push_list:
  "fifo (heap s) (ends s) xs \<Longrightarrow> distinct (xs @ ts) \<Longrightarrow> 0 \<notin> set ts \<Longrightarrow>
    fifo (heap (fold push ts s)) (ends (fold push ts s)) (xs @ ts)"
proof (induction ts arbitrary: s xs)
  case (Cons t ts)
  then have "fifo (heap (push t s)) (ends (push t s)) (xs @ [t])" by (intro push_fifo) auto
  from Cons.IH [OF this] Cons.prems(2,3) show ?case by simp
qed simp

lemma pop_list: "fifo (heap s) (ends s) xs \<Longrightarrow> pops (length xs) s = xs"
proof (induction xs arbitrary: s)
  case (Cons x xs)
  then show ?case using pop_fifo [OF Cons.prems] Cons.IH [of "snd (pop s)"] by simp
qed simp

lemma first_in_first_out:
  assumes "fifo (heap s) (ends s) []" "distinct ts" "0 \<notin> set ts"
  shows "pops (length ts) (fold push ts s) = ts"
  using push_list [OF assms(1), of ts] assms(2,3) pop_list [of "fold push ts s" ts] by simp

end

abbreviation ready_ends :: "sched_core \<times> tcbs \<Rightarrow> nat \<times> nat" where
  "ready_ends s \<equiv> (ready_head (fst s), ready_tail (fst s))"

lemma fifo_push:
  assumes "fifo th (h, e) xs" "t \<noteq> 0" "t \<notin> set xs"
  shows "fifo (if e \<noteq> 0 then set_next e t (set_next t 0 th) else set_next t 0 th)
    (if e \<noteq> 0 then h else t, t) (xs @ [t])"
proof (cases "xs = []")
  case True
  then show ?thesis using assms by (simp add: fifo_def)
next
  case False
  have "path (set_next (last xs) t (set_next t 0 th)) h (xs @ [t])"
    by (rule path_snoc) (use assms False in \<open>auto simp: fifo_def\<close>)
  moreover have "last xs \<noteq> 0" using False assms(1) path_nonzero last_in_set by (metis fifo_def)
  ultimately show ?thesis using False assms by (auto simp: fifo_def)
qed

lemma fifo_pop:
  assumes "fifo th (h, e) (x # xs)"
  shows "h = x" "x \<noteq> 0" "fifo (set_next x 0 th) (th_next (th x), if th_next (th x) = 0 then 0 else e) xs"
proof -
  show x: "h = x" "x \<noteq> 0" using assms by (auto simp: fifo_def)
  have p: "path th (th_next (th x)) xs" "x \<notin> set xs" "distinct xs" using assms by (auto simp: fifo_def)
  then have "xs = [] \<longleftrightarrow> th_next (th x) = 0" by (cases xs) auto
  then show "fifo (set_next x 0 th) (th_next (th x), if th_next (th x) = 0 then 0 else e) xs"
    using assms p by (auto simp: fifo_def split: if_splits)
qed

interpretation ready: thread_queue sched_core_enqueue sched_core_dequeue ready_ends snd
proof
  fix s :: "sched_core \<times> tcbs" and xs :: "nat list" and t u x :: nat
  show "fifo (snd (sched_core_enqueue t s)) (ready_ends (sched_core_enqueue t s)) (xs @ [t])"
    if "fifo (snd s) (ready_ends s) xs" "t \<noteq> 0" "t \<notin> set xs"
    using fifo_push [of "set_state t THREAD_READY (snd s)" "ready_head (fst s)" "ready_tail (fst s)" xs t] that
    by (cases s) (simp add: sched_core_enqueue_def Let_def split: if_splits)
  show "snd (sched_core_enqueue t s) u = snd s u" if "fifo (snd s) (ready_ends s) xs" "u \<notin> set xs" "u \<noteq> t"
  proof -
    have "ready_tail (fst s) \<noteq> 0 \<Longrightarrow> ready_tail (fst s) \<in> set xs"
      using that(1) by (auto simp: fifo_def split: if_splits)
    then show ?thesis using that(2,3)
      by (cases s) (auto simp: sched_core_enqueue_def Let_def set_next_def set_state_def)
  qed
  show "fst (sched_core_dequeue s) = x \<and> fifo (snd (snd (sched_core_dequeue s))) (ready_ends (snd (sched_core_dequeue s))) xs"
    if "fifo (snd s) (ready_ends s) (x # xs)"
    using fifo_pop [OF that] by (cases s) (auto simp: sched_core_dequeue_def Let_def)
  show "snd (snd (sched_core_dequeue s)) u = snd s u" if "fifo (snd s) (ready_ends s) (x # xs)" "u \<noteq> x"
    using fifo_pop [OF that(1)] that(2) by (cases s) (auto simp: sched_core_dequeue_def Let_def set_next_def)
  show "sched_core_dequeue s = (0, s)" if "fifo (snd s) (ready_ends s) []"
    using that by (cases s) (simp add: sched_core_dequeue_def fifo_def)
qed

lemma enqueue_fields [simp]:
  "th_rsp (snd (sched_core_enqueue t s) u) = th_rsp (snd s u)"
  "th_id (snd (sched_core_enqueue t s) u) = th_id (snd s u)"
  "th_name (snd (sched_core_enqueue t s) u) = th_name (snd s u)"
  "th_wake_tick (snd (sched_core_enqueue t s) u) = th_wake_tick (snd s u)"
  "th_joiner (snd (sched_core_enqueue t s) u) = th_joiner (snd s u)"
  "th_stack_base (snd (sched_core_enqueue t s) u) = th_stack_base (snd s u)"
  "th_kstack_top (snd (sched_core_enqueue t s) u) = th_kstack_top (snd s u)"
  "th_as (snd (sched_core_enqueue t s) u) = th_as (snd s u)"
  "th_pid (snd (sched_core_enqueue t s) u) = th_pid (snd s u)"
  "th_state (snd (sched_core_enqueue t s) u) = (if u = t then THREAD_READY else th_state (snd s u))"
  "sleepers (fst (sched_core_enqueue t s)) = sleepers (fst s)"
  by (cases s, simp add: sched_core_enqueue_def Let_def)+

lemma dequeue_fields [simp]:
  "th_rsp (snd (snd (sched_core_dequeue s)) u) = th_rsp (snd s u)"
  "th_id (snd (snd (sched_core_dequeue s)) u) = th_id (snd s u)"
  "th_name (snd (snd (sched_core_dequeue s)) u) = th_name (snd s u)"
  "th_wake_tick (snd (snd (sched_core_dequeue s)) u) = th_wake_tick (snd s u)"
  "th_joiner (snd (snd (sched_core_dequeue s)) u) = th_joiner (snd s u)"
  "th_stack_base (snd (snd (sched_core_dequeue s)) u) = th_stack_base (snd s u)"
  "th_kstack_top (snd (snd (sched_core_dequeue s)) u) = th_kstack_top (snd s u)"
  "th_as (snd (snd (sched_core_dequeue s)) u) = th_as (snd s u)"
  "th_pid (snd (snd (sched_core_dequeue s)) u) = th_pid (snd s u)"
  "th_state (snd (snd (sched_core_dequeue s)) u) = th_state (snd s u)"
  "sleepers (fst (snd (sched_core_dequeue s))) = sleepers (fst s)"
  by (cases s, simp add: sched_core_dequeue_def Let_def)+

section \<open>The ready queue and the sleep list\<close>

text \<open>Two heaps agree on everything that the lists do not own.\<close>

definition agree :: "tcbs \<Rightarrow> tcbs \<Rightarrow> bool" where
  "agree th' th \<longleftrightarrow> (\<forall>u. th_rsp (th' u) = th_rsp (th u) \<and> th_id (th' u) = th_id (th u) \<and> th_name (th' u) = th_name (th u)
     \<and> th_joiner (th' u) = th_joiner (th u) \<and> th_stack_base (th' u) = th_stack_base (th u)
     \<and> th_kstack_top (th' u) = th_kstack_top (th u) \<and> th_as (th' u) = th_as (th u) \<and> th_pid (th' u) = th_pid (th u))"

lemma agree_trans: "agree a b \<Longrightarrow> agree b c \<Longrightarrow> agree a c"
  by (simp add: agree_def)

lemma agree_refl [simp]: "agree th th"
  by (simp add: agree_def)

lemma agree_set [simp]: "agree (set_next a n th) th" "agree (set_state a st th) th"
  by (simp_all add: agree_def)

lemma agree_core [simp]: "agree (snd (sched_core_enqueue t s)) (snd s)" "agree (snd (snd (sched_core_dequeue s))) (snd s)"
  by (simp_all add: agree_def)

definition core_rep :: "sched_core \<times> tcbs \<Rightarrow> nat list \<Rightarrow> nat list \<Rightarrow> bool" where
  "core_rep s rs ss \<longleftrightarrow> fifo (snd s) (ready_ends s) rs \<and> path (snd s) (sleepers (fst s)) ss \<and> distinct (rs @ ss)"

lemma core_repD:
  assumes "core_rep s rs ss"
  shows "fifo (snd s) (ready_ends s) rs" "path (snd s) (sleepers (fst s)) ss" "distinct rs" "distinct ss"
    "set rs \<inter> set ss = {}" "0 \<notin> set rs" "0 \<notin> set ss"
  using assms path_nonzero by (auto simp: core_rep_def fifo_def)

lemma enqueue_rep:
  assumes "core_rep s rs ss" "t \<noteq> 0" "t \<notin> set rs" "t \<notin> set ss"
  shows "core_rep (sched_core_enqueue t s) (rs @ [t]) ss"
  using ready.push_fifo [OF core_repD(1) [OF assms(1)] assms(2,3)] core_repD [OF assms(1)] assms(3,4)
    ready.push_path [OF core_repD(1,2) [OF assms(1)], of t]
  by (auto simp: core_rep_def)

lemma dequeue_rep:
  assumes "core_rep s (t # rs) ss"
  shows "fst (sched_core_dequeue s) = t" "core_rep (snd (sched_core_dequeue s)) rs ss"
  using ready.pop_fifo [OF core_repD(1) [OF assms]] core_repD [OF assms]
    ready.pop_path [OF core_repD(1,2) [OF assms]]
  by (auto simp: core_rep_def)

lemma has_ready_rep: "core_rep s rs ss \<Longrightarrow> sched_core_has_ready (fst s) \<longleftrightarrow> rs \<noteq> []"
  by (cases rs) (auto simp: core_rep_def sched_core_has_ready_def fifo_def)

text \<open>The link after the threads that wake no later.\<close>

lemma sleep_link_run:
  assumes "path (snd s) (get_link prev s) ys" "th_wake_tick \<circ> snd s = w"
  shows "sleep_link prev tick s = Some (last (prev # takeWhile (\<lambda>u. w u \<le> tick) ys))"
  using assms(1)
proof (induction ys arbitrary: prev)
  case Nil
  then show ?case by (subst sleep_link.simps) simp
next
  case (Cons y ys)
  have y: "get_link prev s = y" "y \<noteq> 0" "get_link y s = th_next (snd s y)"
    using Cons.prems by (cases s; simp add: get_link_def)+
  have "w y = th_wake_tick (snd s y)" using assms(2) by auto
  then show ?case using Cons y by (subst sleep_link.simps) (simp add: Let_def)
qed

lemma path_suffix: "path th p (xs @ ys) \<Longrightarrow> path th (if xs = [] then p else th_next (th (last xs))) ys"
  by (induction xs arbitrary: p) auto

lemma path_insert:
  assumes "path th p (xs @ ys)" "distinct (xs @ ys)" "t \<noteq> 0" "t \<notin> set (xs @ ys)" "xs \<noteq> []"
  shows "path (set_next (last xs) t (set_next t (th_next (th (last xs))) th)) p (xs @ t # ys)"
  using assms
proof (induction xs arbitrary: p)
  case (Cons x xs)
  show ?case
  proof (cases "xs = []")
    case True
    with Cons.prems show ?thesis by auto
  next
    case False
    then have "x \<noteq> last xs" using Cons.prems(2) by auto
    with False Cons show ?thesis by auto
  qed
qed simp

lemma set_link_rep:
  assumes "core_rep s rs (xs @ ys)" "t \<noteq> 0" "t \<notin> set rs" "t \<notin> set (xs @ ys)"
  shows "core_rep (set_link (last (0 # xs)) t (fst s, set_next t (get_link (last (0 # xs)) s) (snd s))) rs (xs @ t # ys)"
proof (cases "xs = []")
  case True
  then show ?thesis using assms core_repD [OF assms(1)]
    by (cases s) (auto simp: core_rep_def set_link_def get_link_def)
next
  case False
  have nz: "last xs \<noteq> 0" "last xs \<notin> set rs"
    using core_repD(5,7) [OF assms(1)] last_in_set [OF False] by auto
  have "path (set_next (last xs) t (set_next t (th_next (snd s (last xs))) (snd s))) (sleepers (fst s)) (xs @ t # ys)"
    by (rule path_insert) (use assms core_repD [OF assms(1)] False in auto)
  then show ?thesis using assms core_repD [OF assms(1)] False nz
    by (cases s) (auto simp: core_rep_def set_link_def get_link_def)
qed

definition due_order :: "tcbs \<Rightarrow> nat \<Rightarrow> nat \<Rightarrow> nat list \<Rightarrow> nat list" where
  "due_order th t tick ss = takeWhile (\<lambda>u. th_wake_tick (th u) \<le> tick) ss @ t # dropWhile (\<lambda>u. th_wake_tick (th u) \<le> tick) ss"

lemma sleep_rep:
  assumes "core_rep s rs ss" "t \<noteq> 0" "t \<notin> set rs" "t \<notin> set ss"
  obtains s' where "sched_core_sleep t tick s = Some s'" "core_rep s' rs (due_order (snd s) t tick ss)"
    "\<And>u. th_state (snd s' u) = (if u = t then THREAD_SLEEPING else th_state (snd s u))"
    "\<And>u. th_wake_tick (snd s' u) = (if u = t then tick else th_wake_tick (snd s u))" "agree (snd s') (snd s)"
    "\<And>u. u \<notin> set ss \<Longrightarrow> u \<noteq> t \<Longrightarrow> snd s' u = snd s u"
proof -
  obtain sc th where s: "s = (sc, th)" by (cases s)
  define th1 where "th1 = (set_state t THREAD_SLEEPING th)(t := set_state t THREAD_SLEEPING th t\<lparr>th_wake_tick := tick\<rparr>)"
  have nx: "th_next (th1 u) = th_next (th u)" for u by (simp add: th1_def)
  have rep: "core_rep (sc, th1) rs ss"
    using assms(1) path_cong [of ss th1 th] fifo_cong [of rs th1 th] nx by (simp add: core_rep_def s)
  let ?P = "\<lambda>u. th_wake_tick (th1 u) \<le> tick"
  let ?xs = "takeWhile ?P ss" and ?ys = "dropWhile ?P ss"
  have split: "ss = ?xs @ ?ys" by simp
  have order: "?xs @ t # ?ys = due_order th t tick ss"
  proof -
    have "?P u = (th_wake_tick (th u) \<le> tick)" if "u \<in> set ss" for u using that assms(4) by (auto simp: th1_def)
    then have "?xs = takeWhile (\<lambda>u. th_wake_tick (th u) \<le> tick) ss" "?ys = dropWhile (\<lambda>u. th_wake_tick (th u) \<le> tick) ss"
      by (auto intro: takeWhile_cong dropWhile_cong)
    then show ?thesis by (simp add: due_order_def)
  qed
  have "path th1 (get_link 0 (sc, th1)) ss" using core_repD(2) [OF rep] by (simp add: get_link_def)
  then have link: "sleep_link 0 tick (sc, th1) = Some (last (0 # ?xs))"
    using sleep_link_run [of "(sc, th1)" 0 ss "th_wake_tick \<circ> th1" tick] by (simp add: comp_def)
  let ?s' = "set_link (last (0 # ?xs)) t (sc, set_next t (get_link (last (0 # ?xs)) (sc, th1)) th1)"
  have run: "sched_core_sleep t tick s = Some ?s'"
    using link by (simp add: s sched_core_sleep_def Let_def th1_def)
  have rep': "core_rep ?s' rs (due_order (snd s) t tick ss)"
    using set_link_rep [of "(sc, th1)" rs ?xs ?ys t] rep assms(2-4) order by (simp add: s)
  have frame: "snd ?s' u = snd s u" if "u \<notin> set ss" "u \<noteq> t" for u
  proof -
    have "last (0 # ?xs) \<noteq> 0 \<Longrightarrow> last (0 # ?xs) \<in> set ss"
      using last_in_set [of ?xs] set_takeWhileD [of _ ?P ss] by (cases "?xs = []") auto
    moreover have "snd (set_link l t (sc, set_next t n th1)) u = th u" if "l \<noteq> 0 \<Longrightarrow> l \<noteq> u" "u \<noteq> t" for l n
      using that by (auto simp: set_link_def th1_def set_next_def set_state_def)
    ultimately show ?thesis using that by (metis s snd_conv)
  qed
  show thesis
    by (rule that [OF run rep' _ _ _ frame], unfold s set_link_def th1_def agree_def) auto
qed

lemma u32_Suc_add: "u32 (u32 (Suc a) + b) = u32 (Suc (a + b))"
  by (simp add: u32_def mod_add_left_eq)

lemma wake_due_loop_rep:
  assumes "core_rep s rs ss" "w = th_wake_tick \<circ> snd s" "woken < 2 ^ 32"
  obtains s' where "wake_due_loop woken now s = Some (u32 (woken + length (takeWhile (\<lambda>u. w u \<le> now) ss)), s')"
    "core_rep s' (rs @ takeWhile (\<lambda>u. w u \<le> now) ss) (dropWhile (\<lambda>u. w u \<le> now) ss)"
    "\<And>u. th_state (snd s' u) = (if u \<in> set (takeWhile (\<lambda>u. w u \<le> now) ss) then THREAD_READY else th_state (snd s u))"
    "th_wake_tick \<circ> snd s' = w" "agree (snd s') (snd s)" "\<And>u. u \<notin> set rs \<Longrightarrow> u \<notin> set ss \<Longrightarrow> snd s' u = snd s u"
  using assms
proof (induction ss arbitrary: s rs woken thesis)
  case Nil
  then have "sleepers (fst s) = 0" by (simp add: core_rep_def)
  then have run: "wake_due_loop woken now s = Some (woken, s)" by (cases s) (subst wake_due_loop.simps, simp)
  show ?case by (rule Nil.prems(1) [of s]) (use Nil.prems(2-4) run in simp_all)
next
  case (Cons t ss)
  obtain sc th where s: "s = (sc, th)" by (cases s)
  have t: "sleepers sc = t" "t \<noteq> 0" "w t = th_wake_tick (th t)" "t \<notin> set rs" "t \<notin> set ss" "path th (th_next (th t)) ss"
    using Cons.prems(2,3) by (auto simp: core_rep_def s)
  show ?case
  proof (cases "w t \<le> now")
    case False
    then have run: "wake_due_loop woken now s = Some (woken, s)" using t by (subst wake_due_loop.simps) (simp add: s)
    show ?thesis by (rule Cons.prems(1) [of s]) (use False Cons.prems(2-4) run in simp_all)
  next
    case True
    let ?s1 = "sched_core_enqueue t (sc\<lparr>sleepers := th_next (th t)\<rparr>, th)"
    have run: "wake_due_loop woken now s = wake_due_loop (u32 (woken + 1)) now ?s1"
      using True t by (subst wake_due_loop.simps) (simp add: s Let_def)
    have rep0: "core_rep (sc\<lparr>sleepers := th_next (th t)\<rparr>, th) rs ss"
      using Cons.prems(2) t by (auto simp: core_rep_def s)
    from rep0 have rep: "core_rep ?s1 (rs @ [t]) ss" by (rule enqueue_rep) (use t in auto)
    have w: "w = th_wake_tick \<circ> snd ?s1" using Cons.prems(3) by (auto simp: s)
    obtain s' where s': "wake_due_loop (u32 (woken + 1)) now ?s1
        = Some (u32 (u32 (woken + 1) + length (takeWhile (\<lambda>u. w u \<le> now) ss)), s')"
      "core_rep s' ((rs @ [t]) @ takeWhile (\<lambda>u. w u \<le> now) ss) (dropWhile (\<lambda>u. w u \<le> now) ss)"
      "\<And>u. th_state (snd s' u) = (if u \<in> set (takeWhile (\<lambda>u. w u \<le> now) ss) then THREAD_READY else th_state (snd ?s1 u))"
      "th_wake_tick \<circ> snd s' = w" "agree (snd s') (snd ?s1)"
      "\<And>u. u \<notin> set (rs @ [t]) \<Longrightarrow> u \<notin> set ss \<Longrightarrow> snd s' u = snd ?s1 u"
      using Cons.IH [OF _ rep w u32_less] by blast
    have frame: "snd s' u = snd s u" if "u \<notin> set rs" "u \<notin> set (t # ss)" for u
      using s'(6) [of u] that ready.push_frame [of "(sc\<lparr>sleepers := th_next (th t)\<rparr>, th)" rs u t]
        core_repD(1) [OF rep0] by (simp add: s)
    have "agree (snd s') (snd s)" by (rule agree_trans [OF s'(5)]) (simp add: s agree_def)
    then show ?thesis by (intro Cons.prems(1) [of s', OF _ _ _ _ _ frame]) (use True s' run in \<open>auto simp: s u32_Suc_add\<close>)
  qed
qed

lemma wake_due_rep:
  assumes "core_rep s rs ss" "w = th_wake_tick \<circ> snd s"
  obtains s' where "sched_core_wake_due now s = Some (u32 (length (takeWhile (\<lambda>u. w u \<le> now) ss)), s')"
    "core_rep s' (rs @ takeWhile (\<lambda>u. w u \<le> now) ss) (dropWhile (\<lambda>u. w u \<le> now) ss)"
    "\<And>u. th_state (snd s' u) = (if u \<in> set (takeWhile (\<lambda>u. w u \<le> now) ss) then THREAD_READY else th_state (snd s u))"
    "th_wake_tick \<circ> snd s' = w" "agree (snd s') (snd s)" "\<And>u. u \<notin> set rs \<Longrightarrow> u \<notin> set ss \<Longrightarrow> snd s' u = snd s u"
  using wake_due_loop_rep [OF assms, of 0 now] unfolding sched_core_wake_due_def by (metis add_0 zero_less_numeral zero_less_power)

lemma sorted_insert_after:
  "sorted ks \<Longrightarrow> sorted (takeWhile (\<lambda>j. j \<le> k) ks @ k # dropWhile (\<lambda>j. j \<le> k) ks)" for k :: nat
  by (induction ks) (auto dest: set_takeWhileD set_dropWhileD)

lemma due_order_sorted:
  assumes "sorted (map w ss)" "w = th_wake_tick \<circ> th" "t \<notin> set ss"
  shows "sorted (map (w(t := tick)) (due_order th t tick ss))"
proof -
  let ?P = "\<lambda>u. w u \<le> tick"
  have "map (w(t := tick)) (due_order th t tick ss) = map w (takeWhile ?P ss) @ tick # map w (dropWhile ?P ss)"
    using assms(3) by (auto simp: due_order_def assms(2) dest: set_takeWhileD set_dropWhileD)
  also have "\<dots> = takeWhile (\<lambda>j. j \<le> tick) (map w ss) @ tick # dropWhile (\<lambda>j. j \<le> tick) (map w ss)"
    by (simp add: takeWhile_map dropWhile_map comp_def)
  finally show ?thesis using sorted_insert_after [OF assms(1)] by simp
qed

end
