(* ===== verification/Sched.thy ===== *)
theory Sched
  imports Sched_Core Pipe_Core Kernel_Errno
begin

text \<open>
  Kernel threads (\<^verbatim>\<open>kernel/sched/sched.c\<close>), the sleeping mutex (\<^verbatim>\<open>kernel/sched/mutex.c\<close>) and the blocking
  transfers of pipes and socket pairs (\<^verbatim>\<open>kernel/fs/pipe.c\<close>, \<^verbatim>\<open>kernel/fs/socket.c\<close>) as one machine.

  There is one processor, and a section with interrupts off runs without interleaving: one step of
  the machine is such a section, from where the thread entered it to its end or to the switch to another
  thread. What a thread does after the switch is its continuation \<open>th_rsp\<close>. A failed \<^verbatim>\<open>KASSERT\<close>
  and a \<^verbatim>\<open>panic\<close> are the value \<open>None\<close>.
\<close>

section \<open>State\<close>

text \<open>
  The helpers of the wait queues get the head and the tail pointer by reference. A \<open>qid\<close> stands for
  that pair of references; the pointers themselves are in one map.
\<close>

datatype qid =
    Q_mutex nat
  | Q_pipe_read nat
  | Q_pipe_write nat
  | Q_sock_read nat nat
  | Q_sock_write nat nat

record pipe =
  pi_core :: pipe_core
  pi_readers :: int
  pi_writers :: int

record socket_pair =
  so_chan :: "nat \<Rightarrow> pipe_core"
  so_end_open :: "nat \<Rightarrow> bool"

text \<open>
  \<open>k_live\<close> is the set of allocated thread control blocks and \<open>k_ret\<close> the last result of a transfer of
  each thread, with the bytes stored in its buffer. A pipe or a socket pair that is not allocated is \<open>None\<close>, and
  using it is a fault. \<open>k_kernel_as\<close> is the address of the kernel address space.
\<close>

record kst =
  k_core :: sched_core
  k_thr :: tcbs
  k_live :: "nat set"
  k_idle :: nat
  k_current :: nat
  k_kernel_as :: nat
  k_active_as :: nat
  k_need_resched :: bool
  k_started :: bool
  k_next_id :: nat
  k_nthreads :: nat
  k_ticks :: nat
  k_rsp0 :: nat
  k_syscall_kstack :: nat
  k_owner :: "nat \<Rightarrow> nat"
  k_wq :: "qid \<Rightarrow> nat \<times> nat"
  k_pipe :: "nat \<Rightarrow> pipe option"
  k_sock :: "nat \<Rightarrow> socket_pair option"
  k_ret :: "nat \<Rightarrow> int \<times> byte list"

definition put_core :: "sched_core \<times> tcbs \<Rightarrow> kst \<Rightarrow> kst" where
  "put_core c s = s\<lparr>k_core := fst c, k_thr := snd c\<rparr>"

definition set_rsp :: "nat \<Rightarrow> cont \<Rightarrow> kst \<Rightarrow> kst" where
  "set_rsp t k s = s\<lparr>k_thr := (k_thr s)(t := k_thr s t\<lparr>th_rsp := k\<rparr>)\<rparr>"

definition set_joiner :: "nat \<Rightarrow> nat \<Rightarrow> kst \<Rightarrow> kst" where
  "set_joiner t j s = s\<lparr>k_thr := (k_thr s)(t := k_thr s t\<lparr>th_joiner := j\<rparr>)\<rparr>"

definition mark :: "nat \<Rightarrow> thread_state \<Rightarrow> kst \<Rightarrow> kst" where
  "mark t st s = s\<lparr>k_thr := set_state t st (k_thr s)\<rparr>"

definition enqueue :: "nat \<Rightarrow> kst \<Rightarrow> kst" where
  "enqueue t s = put_core (sched_core_enqueue t (k_core s, k_thr s)) s"

section \<open>Switching\<close>

text \<open>The part of \<^verbatim>\<open>schedule\<close> after the choice of \<^verbatim>\<open>next\<close>.\<close>

definition switch_to :: "nat \<Rightarrow> kst \<Rightarrow> kst" where
  "switch_to next s =
     (if next = k_current s then mark next THREAD_RUNNING s
      else let s = mark next THREAD_RUNNING s;
               s = s\<lparr>k_current := next, k_rsp0 := th_kstack_top (k_thr s next), k_syscall_kstack := th_kstack_top (k_thr s next)\<rparr>;
               as = (if th_as (k_thr s next) \<noteq> 0 then th_as (k_thr s next) else k_kernel_as s)
           in s\<lparr>k_active_as := as\<rparr>)"

text \<open>The first argument is what the caller goes on with when it runs again.\<close>

definition schedule :: "cont \<Rightarrow> kst \<Rightarrow> kst" where
  "schedule k s =
     (let prev = k_current s;
          s = set_rsp prev k s;
          d = sched_core_dequeue (k_core s, k_thr s)
      in if fst d = 0
         then (if th_state (k_thr s prev) = THREAD_RUNNING then s else switch_to (k_idle s) s)
         else switch_to (fst d) (put_core (snd d) s))"

section \<open>Threads\<close>

definition sched_timer_tick :: "nat \<Rightarrow> kst \<Rightarrow> kst option" where
  "sched_timer_tick now s =
     (case sched_core_wake_due now (k_core s, k_thr s) of
        None \<Rightarrow> None
      | Some (_, c) \<Rightarrow> let s = put_core c s in
          Some (if sched_core_has_ready (k_core s) then s\<lparr>k_need_resched := True\<rparr> else s))"

definition sched_preempt :: "kst \<Rightarrow> kst" where
  "sched_preempt s =
     (if \<not> k_started s \<or> \<not> k_need_resched s then s
      else let s = s\<lparr>k_need_resched := False\<rparr>;
               s = (if k_current s \<noteq> k_idle s then enqueue (k_current s) s else s)
           in schedule (th_rsp (k_thr s (k_current s))) s)"

text \<open>The handler of the timer line and the preemption point of the interrupt dispatcher.\<close>

definition timer_irq :: "kst \<Rightarrow> kst option" where
  "timer_irq s =
     (let s = s\<lparr>k_ticks := u64 (k_ticks s + 1)\<rparr> in
      map_option sched_preempt (sched_timer_tick (k_ticks s) s))"

definition THREAD_STACK_SIZE :: nat where "THREAD_STACK_SIZE = 16 * 1024"

definition stack_top :: "nat \<Rightarrow> nat" where
  "stack_top stack_base = u64 (stack_base + THREAD_STACK_SIZE) div 16 * 16"

text \<open>
  \<^verbatim>\<open>tcb\<close> and \<^verbatim>\<open>stack\<close> are what \<^verbatim>\<open>kzalloc\<close> and \<^verbatim>\<open>kmalloc\<close> returned, 0 when memory ran out.
\<close>

definition thread_create :: "byte list \<Rightarrow> nat \<Rightarrow> nat \<Rightarrow> kst \<Rightarrow> kst option" where
  "thread_create name tcb stack s =
     (if tcb = 0 \<or> stack = 0 then None
      else let t = \<lparr>th_rsp = K_run, th_id = k_next_id s, th_state = THREAD_READY, th_name = name, th_wake_tick = 0,
                     th_joiner = 0, th_next = 0, th_stack_base = stack, th_kstack_top = stack_top stack, th_as = 0, th_pid = 0\<rparr>;
               s = s\<lparr>k_thr := (k_thr s)(tcb := t), k_live := insert tcb (k_live s), k_next_id := u64 (k_next_id s + 1),
                     k_nthreads := u64 (k_nthreads s + 1)\<rparr>
           in Some (enqueue tcb s))"

definition sched_set_addrspace :: "nat \<Rightarrow> kst \<Rightarrow> kst" where
  "sched_set_addrspace as s =
     (let c = k_current s;
          s = s\<lparr>k_thr := (k_thr s)(c := k_thr s c\<lparr>th_as := as\<rparr>)\<rparr>
      in s\<lparr>k_active_as := (if as \<noteq> 0 then as else k_kernel_as s)\<rparr>)"

definition sched_yield :: "kst \<Rightarrow> kst" where
  "sched_yield s = schedule K_run (if k_current s \<noteq> k_idle s then enqueue (k_current s) s else s)"

definition sched_sleep_ticks :: "nat \<Rightarrow> kst \<Rightarrow> kst option" where
  "sched_sleep_ticks ticks s =
     (if ticks = 0 then Some (sched_yield s)
      else if k_current s = k_idle s then None
      else case sched_core_sleep (k_current s) (u64 (k_ticks s + ticks)) (k_core s, k_thr s) of
        None \<Rightarrow> None
      | Some c \<Rightarrow> Some (schedule K_run (put_core c s)))"

text \<open>\<^verbatim>\<open>hz\<close> is the configured timer frequency.\<close>

definition sched_sleep_ms :: "nat \<Rightarrow> nat \<Rightarrow> kst \<Rightarrow> kst option" where
  "sched_sleep_ms hz ms s =
     (if hz = 0 then None
      else let ticks = u64 (u64 (ms * hz) + 999) div 1000 in
           sched_sleep_ticks (if ticks > 0 then ticks else 1) s)"

definition sched_block :: "cont \<Rightarrow> kst \<Rightarrow> kst option" where
  "sched_block k s =
     (if k_current s = k_idle s then None else Some (schedule k (mark (k_current s) THREAD_BLOCKED s)))"

definition sched_wake :: "nat \<Rightarrow> kst \<Rightarrow> kst option" where
  "sched_wake t s = (if th_state (k_thr s t) \<noteq> THREAD_BLOCKED then None else Some (enqueue t s))"

definition thread_exit :: "kst \<Rightarrow> kst option" where
  "thread_exit s =
     (let self = k_current s in
      if self = k_idle s then None
      else let s = mark self THREAD_ZOMBIE s;
               j = th_joiner (k_thr s self);
               s = (if j \<noteq> 0 then set_joiner self 0 (enqueue j s) else s)
           in Some (schedule K_exit s))"

text \<open>\<^verbatim>\<open>thread_join\<close> after the wait, with the release of the stack and the control block.\<close>

definition join_finish :: "nat \<Rightarrow> kst \<Rightarrow> kst option" where
  "join_finish t s =
     (if th_state (k_thr s t) \<noteq> THREAD_ZOMBIE then None
      else Some (set_rsp (k_current s) K_run
        (s\<lparr>k_nthreads := sub64 (k_nthreads s) 1, k_live := k_live s - {t}\<rparr>)))"

definition thread_join :: "nat \<Rightarrow> kst \<Rightarrow> kst option" where
  "thread_join t s =
     (if t = 0 \<or> t = k_current s \<or> t = k_idle s then None
      else if th_state (k_thr s t) \<noteq> THREAD_ZOMBIE then
        (if th_joiner (k_thr s t) \<noteq> 0 then None
         else Some (schedule (K_join t) (mark (k_current s) THREAD_BLOCKED (set_joiner t (k_current s) s))))
      else join_finish t s)"

text \<open>
  The state after \<^verbatim>\<open>sched_init\<close>: thread 0 is the boot context, the idle thread is created, taken off the
  ready queue again and marked ready. \<^verbatim>\<open>kstack_top\<close> and the address space come from the linker and from \<^verbatim>\<open>vmm_init\<close>.
\<close>

definition sched_init :: "nat \<Rightarrow> nat \<Rightarrow> nat \<Rightarrow> nat \<Rightarrow> nat \<Rightarrow> kst \<Rightarrow> kst option" where
  "sched_init boot kstack_top kernel_as tcb stack s =
     (if k_started s then None
      else let b = \<lparr>th_rsp = K_run, th_id = k_next_id s, th_state = THREAD_RUNNING, th_name = cstr ''main'', th_wake_tick = 0,
                     th_joiner = 0, th_next = 0, th_stack_base = 0, th_kstack_top = kstack_top, th_as = 0, th_pid = 0\<rparr>;
               s = s\<lparr>k_core := sched_core_init, k_thr := (k_thr s)(boot := b), k_live := {boot}, k_next_id := u64 (k_next_id s + 1),
                     k_current := boot, k_kernel_as := kernel_as, k_active_as := kernel_as, k_nthreads := 1,
                     k_rsp0 := kstack_top, k_syscall_kstack := kstack_top\<rparr>
           in case thread_create (cstr ''idle'') tcb stack s of
                None \<Rightarrow> None
              | Some s \<Rightarrow>
                let s = s\<lparr>k_idle := tcb\<rparr>; d = sched_core_dequeue (k_core s, k_thr s) in
                if fst d \<noteq> k_idle s then None
                else Some ((mark (k_idle s) THREAD_READY (put_core (snd d) s))\<lparr>k_started := True\<rparr>))"

section \<open>Wait queues\<close>

definition wq_push :: "qid \<Rightarrow> nat \<Rightarrow> kst \<Rightarrow> kst" where
  "wq_push q t s =
     (let s = s\<lparr>k_thr := set_next t 0 (k_thr s)\<rparr>; (h, e) = k_wq s q in
      if e \<noteq> 0 then s\<lparr>k_thr := set_next e t (k_thr s), k_wq := (k_wq s)(q := (h, t))\<rparr>
      else s\<lparr>k_wq := (k_wq s)(q := (t, t))\<rparr>)"

text \<open>Taking the oldest waiter off a queue, the first half of \<^verbatim>\<open>wq_wake_one\<close> and of the handoff in \<^verbatim>\<open>mutex_unlock\<close>.\<close>

definition wq_take :: "qid \<Rightarrow> kst \<Rightarrow> nat \<times> kst" where
  "wq_take q s =
     (let (h, e) = k_wq s q in
      if h = 0 then (0, s)
      else let h' = th_next (k_thr s h) in
           (h, s\<lparr>k_wq := (k_wq s)(q := (h', if h' = 0 then 0 else e)), k_thr := set_next h 0 (k_thr s)\<rparr>))"

definition wq_wake_one :: "qid \<Rightarrow> kst \<Rightarrow> kst option" where
  "wq_wake_one q s = (case wq_take q s of (t, s') \<Rightarrow> if t = 0 then Some s else sched_wake t s')"

partial_function (option) wake_list :: "nat \<Rightarrow> kst \<Rightarrow> kst option" where
  "wake_list t s =
     (if t = 0 then Some s
      else let n = th_next (k_thr s t) in
           case sched_wake t (s\<lparr>k_thr := set_next t 0 (k_thr s)\<rparr>) of
             None \<Rightarrow> None
           | Some s' \<Rightarrow> wake_list n s')"

definition wq_wake_all :: "qid \<Rightarrow> kst \<Rightarrow> kst option" where
  "wq_wake_all q s = wake_list (fst (k_wq s q)) (s\<lparr>k_wq := (k_wq s)(q := (0, 0))\<rparr>)"

section \<open>Mutexes\<close>

definition mutex_init :: "nat \<Rightarrow> kst \<Rightarrow> kst" where
  "mutex_init m s = s\<lparr>k_owner := (k_owner s)(m := 0), k_wq := (k_wq s)(Q_mutex m := (0, 0))\<rparr>"

definition mutex_lock :: "nat \<Rightarrow> kst \<Rightarrow> kst option" where
  "mutex_lock m s =
     (let me = k_current s in
      if k_owner s m = me then None
      else if k_owner s m = 0 then Some (s\<lparr>k_owner := (k_owner s)(m := me)\<rparr>)
      else sched_block (K_lock m) (wq_push (Q_mutex m) me s))"

text \<open>\<^verbatim>\<open>mutex_lock\<close> after the wait.\<close>

definition lock_finish :: "nat \<Rightarrow> kst \<Rightarrow> kst option" where
  "lock_finish m s = (if k_owner s m \<noteq> k_current s then None else Some (set_rsp (k_current s) K_run s))"

definition mutex_unlock :: "nat \<Rightarrow> kst \<Rightarrow> kst option" where
  "mutex_unlock m s =
     (if k_owner s m \<noteq> k_current s then None
      else case wq_take (Q_mutex m) s of (next, s') \<Rightarrow>
        if next \<noteq> 0 then sched_wake next (s'\<lparr>k_owner := (k_owner s')(m := next)\<rparr>)
        else Some (s\<lparr>k_owner := (k_owner s)(m := 0)\<rparr>))"

definition mutex_held :: "nat \<Rightarrow> kst \<Rightarrow> bool" where
  "mutex_held m s \<longleftrightarrow> k_owner s m = k_current s"

section \<open>Pipes\<close>

definition PIPE_CAPACITY :: nat where "PIPE_CAPACITY = 4096"

text \<open>The end of a transfer: the value returned and the bytes delivered.\<close>

definition give :: "int \<Rightarrow> byte list \<Rightarrow> kst \<Rightarrow> kst" where
  "give v bs s = (let c = k_current s; s = set_rsp c K_run s in s\<lparr>k_ret := (k_ret s)(c := (v, bs))\<rparr>)"

definition put_pipe :: "nat \<Rightarrow> pipe \<Rightarrow> kst \<Rightarrow> kst" where
  "put_pipe p pi s = s\<lparr>k_pipe := (k_pipe s)(p := Some pi)\<rparr>"

text \<open>The call up to the loop, and one round of the loop.\<close>

definition pipe_read :: "nat \<Rightarrow> nat \<Rightarrow> kst \<Rightarrow> kst option" where
  "pipe_read p len s = Some (if len = 0 then give 0 [] s else set_rsp (k_current s) (K_pipe_read p len) s)"

definition pipe_read_round :: "nat \<Rightarrow> nat \<Rightarrow> kst \<Rightarrow> kst option" where
  "pipe_read_round p len s =
     (case k_pipe s p of
        None \<Rightarrow> None
      | Some pi \<Rightarrow>
        (case pipe_core_read (pi_core pi) len of (bs, n, pc) \<Rightarrow>
         let s = put_pipe p (pi\<lparr>pi_core := pc\<rparr>) s in
         if n > 0 then map_option (give (int n) bs) (wq_wake_one (Q_pipe_write p) s)
         else if pi_writers pi = 0 then Some (give 0 [] s)
         else sched_block (K_pipe_read p len) (wq_push (Q_pipe_read p) (k_current s) s)))"

definition pipe_write :: "nat \<Rightarrow> byte list \<Rightarrow> kst \<Rightarrow> kst option" where
  "pipe_write p buf s = Some (if buf = [] then give 0 [] s else set_rsp (k_current s) (K_pipe_write p buf 0) s)"

definition pipe_write_round :: "nat \<Rightarrow> byte list \<Rightarrow> nat \<Rightarrow> kst \<Rightarrow> kst option" where
  "pipe_write_round p buf done s =
     (case k_pipe s p of
        None \<Rightarrow> None
      | Some pi \<Rightarrow>
        if pi_readers pi = 0 then Some (give (if done > 0 then int done else - EPIPE) [] s)
        else case pipe_core_write (pi_core pi) (drop done buf) (length buf - done) of (n, pc) \<Rightarrow>
          let s = put_pipe p (pi\<lparr>pi_core := pc\<rparr>) s; done = done + n in
          case (if n > 0 then wq_wake_one (Q_pipe_read p) s else Some s) of
            None \<Rightarrow> None
          | Some s \<Rightarrow>
            if done = length buf then Some (give (int done) [] s)
            else sched_block (K_pipe_write p buf done) (wq_push (Q_pipe_write p) (k_current s) s))"

definition pipe_gone :: "nat \<Rightarrow> pipe \<Rightarrow> kst \<Rightarrow> kst" where
  "pipe_gone p pi s = (if pi_readers pi = 0 \<and> pi_writers pi = 0 then s\<lparr>k_pipe := (k_pipe s)(p := None)\<rparr> else s)"

definition pipe_release_read :: "nat \<Rightarrow> kst \<Rightarrow> kst option" where
  "pipe_release_read p s =
     (case k_pipe s p of
        None \<Rightarrow> None
      | Some pi \<Rightarrow>
        if pi_readers pi \<le> 0 then None
        else let pi = pi\<lparr>pi_readers := pi_readers pi - 1\<rparr>; s = put_pipe p pi s in
          map_option (pipe_gone p pi) (if pi_readers pi = 0 then wq_wake_all (Q_pipe_write p) s else Some s))"

definition pipe_release_write :: "nat \<Rightarrow> kst \<Rightarrow> kst option" where
  "pipe_release_write p s =
     (case k_pipe s p of
        None \<Rightarrow> None
      | Some pi \<Rightarrow>
        if pi_writers pi \<le> 0 then None
        else let pi = pi\<lparr>pi_writers := pi_writers pi - 1\<rparr>; s = put_pipe p pi s in
          map_option (pipe_gone p pi) (if pi_writers pi = 0 then wq_wake_all (Q_pipe_read p) s else Some s))"

text \<open>The three addresses are what the three calls of \<^verbatim>\<open>kzalloc\<close> returned.\<close>

definition pipe_open :: "nat \<Rightarrow> nat \<Rightarrow> nat \<Rightarrow> kst \<Rightarrow> int \<times> kst" where
  "pipe_open p rfile wfile s =
     (if p = 0 \<or> rfile = 0 \<or> wfile = 0 then (- ENOMEM, s)
      else (0, put_pipe p \<lparr>pi_core = pipe_core_init (zeros PIPE_CAPACITY) PIPE_CAPACITY, pi_readers = 1, pi_writers = 1\<rparr>
             (s\<lparr>k_wq := (k_wq s)(Q_pipe_read p := (0, 0), Q_pipe_write p := (0, 0))\<rparr>)))"

section \<open>Socket pairs\<close>

definition SOCK_CAPACITY :: nat where "SOCK_CAPACITY = 4096"
definition AF_UNIX :: int where "AF_UNIX = 1"
definition SOCK_STREAM :: int where "SOCK_STREAM = 1"

definition put_chan :: "nat \<Rightarrow> nat \<Rightarrow> pipe_core \<Rightarrow> socket_pair \<Rightarrow> kst \<Rightarrow> kst" where
  "put_chan sp i pc so s = s\<lparr>k_sock := (k_sock s)(sp := Some (so\<lparr>so_chan := (so_chan so)(i := pc)\<rparr>))\<rparr>"

text \<open>End \<^verbatim>\<open>self\<close> (0 or 1) reads \<^verbatim>\<open>chan[1 - self]\<close> and writes \<^verbatim>\<open>chan[self]\<close>.\<close>

definition socket_read :: "nat \<Rightarrow> nat \<Rightarrow> nat \<Rightarrow> kst \<Rightarrow> kst option" where
  "socket_read sp self len s = Some (if len = 0 then give 0 [] s else set_rsp (k_current s) (K_socket_read sp self len) s)"

definition socket_read_round :: "nat \<Rightarrow> nat \<Rightarrow> nat \<Rightarrow> kst \<Rightarrow> kst option" where
  "socket_read_round sp self len s =
     (case k_sock s sp of
        None \<Rightarrow> None
      | Some so \<Rightarrow>
        (case pipe_core_read (so_chan so (1 - self)) len of (bs, n, pc) \<Rightarrow>
         let s = put_chan sp (1 - self) pc so s in
         if n > 0 then map_option (give (int n) bs) (wq_wake_one (Q_sock_write sp (1 - self)) s)
         else if \<not> so_end_open so (1 - self) then Some (give 0 [] s)
         else sched_block (K_socket_read sp self len) (wq_push (Q_sock_read sp (1 - self)) (k_current s) s)))"

definition socket_write :: "nat \<Rightarrow> nat \<Rightarrow> byte list \<Rightarrow> kst \<Rightarrow> kst option" where
  "socket_write sp self buf s = Some (if buf = [] then give 0 [] s else set_rsp (k_current s) (K_socket_write sp self buf 0) s)"

definition socket_write_round :: "nat \<Rightarrow> nat \<Rightarrow> byte list \<Rightarrow> nat \<Rightarrow> kst \<Rightarrow> kst option" where
  "socket_write_round sp self buf done s =
     (case k_sock s sp of
        None \<Rightarrow> None
      | Some so \<Rightarrow>
        if \<not> so_end_open so (1 - self) then Some (give (if done > 0 then int done else - EPIPE) [] s)
        else case pipe_core_write (so_chan so self) (drop done buf) (length buf - done) of (n, pc) \<Rightarrow>
          let s = put_chan sp self pc so s; done = done + n in
          case (if n > 0 then wq_wake_one (Q_sock_read sp self) s else Some s) of
            None \<Rightarrow> None
          | Some s \<Rightarrow>
            if done = length buf then Some (give (int done) [] s)
            else sched_block (K_socket_write sp self buf done) (wq_push (Q_sock_write sp self) (k_current s) s))"

definition socket_release :: "nat \<Rightarrow> nat \<Rightarrow> kst \<Rightarrow> kst option" where
  "socket_release sp self s =
     (case k_sock s sp of
        None \<Rightarrow> None
      | Some so \<Rightarrow>
        if \<not> so_end_open so self then None
        else let so = so\<lparr>so_end_open := (so_end_open so)(self := False)\<rparr>; s = s\<lparr>k_sock := (k_sock s)(sp := Some so)\<rparr> in
          case wq_wake_all (Q_sock_write sp self) s of
            None \<Rightarrow> None
          | Some s \<Rightarrow>
            case wq_wake_all (Q_sock_read sp (1 - self)) s of
              None \<Rightarrow> None
            | Some s \<Rightarrow>
              Some (if \<not> so_end_open so 0 \<and> \<not> so_end_open so 1 then s\<lparr>k_sock := (k_sock s)(sp := None)\<rparr> else s))"

text \<open>\<^verbatim>\<open>p\<close> and \<^verbatim>\<open>mems\<close> are what the allocations of the pair, the two ends and the two files returned.\<close>

definition socketpair_open :: "int \<Rightarrow> int \<Rightarrow> int \<Rightarrow> nat \<Rightarrow> nat list \<Rightarrow> kst \<Rightarrow> int \<times> kst" where
  "socketpair_open domain type protocol p mems s =
     (if domain \<noteq> AF_UNIX then (- EAFNOSUPPORT, s)
      else if type \<noteq> SOCK_STREAM then (- EPROTONOSUPPORT, s)
      else if protocol \<noteq> 0 then (- EPROTONOSUPPORT, s)
      else if p = 0 \<or> 0 \<in> set mems then (- ENOMEM, s)
      else (0, s\<lparr>k_sock := (k_sock s)(p := Some \<lparr>so_chan = (\<lambda>_. pipe_core_init (zeros SOCK_CAPACITY) SOCK_CAPACITY),
               so_end_open = (\<lambda>i. i < 2)\<rparr>),
             k_wq := (k_wq s)(Q_sock_read p 0 := (0, 0), Q_sock_write p 0 := (0, 0),
               Q_sock_read p 1 := (0, 0), Q_sock_write p 1 := (0, 0))\<rparr>))"

section \<open>Steps\<close>

text \<open>What the running thread may call, the continuation of a call, and the interrupts.\<close>

datatype act =
    A_create "byte list" nat nat
  | A_yield
  | A_sleep nat
  | A_exit
  | A_join nat
  | A_lock nat
  | A_unlock nat
  | A_set_addrspace nat
  | A_pipe_open nat nat nat
  | A_pipe_read nat nat
  | A_pipe_write nat "byte list"
  | A_pipe_release_read nat
  | A_pipe_release_write nat
  | A_socketpair_open int int int nat "nat list"
  | A_socket_read nat nat nat
  | A_socket_write nat nat "byte list"
  | A_socket_release nat nat
  | A_resume
  | A_timer
  | A_irq

definition resume :: "kst \<Rightarrow> kst option" where
  "resume s =
     (case th_rsp (k_thr s (k_current s)) of
        K_run \<Rightarrow> Some s
      | K_lock m \<Rightarrow> lock_finish m s
      | K_join t \<Rightarrow> join_finish t s
      | K_exit \<Rightarrow> None
      | K_pipe_read p len \<Rightarrow> pipe_read_round p len s
      | K_pipe_write p buf done \<Rightarrow> pipe_write_round p buf done s
      | K_socket_read sp self len \<Rightarrow> socket_read_round sp self len s
      | K_socket_write sp self buf done \<Rightarrow> socket_write_round sp self buf done s)"

fun perform :: "act \<Rightarrow> kst \<Rightarrow> kst option" where
  "perform (A_create name tcb stack) s = thread_create name tcb stack s"
| "perform A_yield s = Some (sched_yield s)"
| "perform (A_sleep n) s = sched_sleep_ticks n s"
| "perform A_exit s = thread_exit s"
| "perform (A_join t) s = thread_join t s"
| "perform (A_lock m) s = mutex_lock m s"
| "perform (A_unlock m) s = mutex_unlock m s"
| "perform (A_set_addrspace as) s = Some (sched_set_addrspace as s)"
| "perform (A_pipe_open p rfile wfile) s = Some (snd (pipe_open p rfile wfile s))"
| "perform (A_pipe_read p len) s = pipe_read p len s"
| "perform (A_pipe_write p buf) s = pipe_write p buf s"
| "perform (A_pipe_release_read p) s = pipe_release_read p s"
| "perform (A_pipe_release_write p) s = pipe_release_write p s"
| "perform (A_socketpair_open d ty pr p mems) s = Some (snd (socketpair_open d ty pr p mems s))"
| "perform (A_socket_read sp self len) s = socket_read sp self len s"
| "perform (A_socket_write sp self buf) s = socket_write sp self buf s"
| "perform (A_socket_release sp self) s = socket_release sp self s"
| "perform A_resume s = resume s"
| "perform A_timer s = timer_irq s"
| "perform A_irq s = Some (sched_preempt s)"

text \<open>
  The rules of the callers. Interrupts come only while they are on. The headers state the others: a
  mutex is not locked twice and only its owner unlocks it, each thread is joined exactly once, the idle
  thread makes no call, a thread does not exit with a mutex, and a description of a pipe or a socket is used while
  it is open and released when no thread is inside a transfer on it. An allocation returns an address that is not in use.
\<close>

definition irq_off :: "cont \<Rightarrow> bool" where
  "irq_off k \<longleftrightarrow> (case k of K_lock _ \<Rightarrow> True | K_join _ \<Rightarrow> True | K_exit \<Rightarrow> True | _ \<Rightarrow> False)"

definition inside :: "kst \<Rightarrow> (cont \<Rightarrow> bool) \<Rightarrow> bool" where
  "inside s P \<longleftrightarrow> (\<exists>t \<in> k_live s. P (th_rsp (k_thr s t)))"

fun on_pipe_read :: "nat \<Rightarrow> cont \<Rightarrow> bool" where
  "on_pipe_read p (K_pipe_read p' _) \<longleftrightarrow> p' = p"
| "on_pipe_read p _ \<longleftrightarrow> False"

fun on_pipe_write :: "nat \<Rightarrow> cont \<Rightarrow> bool" where
  "on_pipe_write p (K_pipe_write p' _ _) \<longleftrightarrow> p' = p"
| "on_pipe_write p _ \<longleftrightarrow> False"

fun on_socket :: "nat \<Rightarrow> nat \<Rightarrow> cont \<Rightarrow> bool" where
  "on_socket sp e (K_socket_read sp' e' _) \<longleftrightarrow> sp' = sp \<and> e' = e"
| "on_socket sp e (K_socket_write sp' e' _ _) \<longleftrightarrow> sp' = sp \<and> e' = e"
| "on_socket sp e _ \<longleftrightarrow> False"

definition pipe_readable :: "kst \<Rightarrow> nat \<Rightarrow> bool" where
  "pipe_readable s p \<longleftrightarrow> (case k_pipe s p of None \<Rightarrow> False | Some pi \<Rightarrow> pi_readers pi > 0)"

definition pipe_writable :: "kst \<Rightarrow> nat \<Rightarrow> bool" where
  "pipe_writable s p \<longleftrightarrow> (case k_pipe s p of None \<Rightarrow> False | Some pi \<Rightarrow> pi_writers pi > 0)"

definition socket_usable :: "kst \<Rightarrow> nat \<Rightarrow> nat \<Rightarrow> bool" where
  "socket_usable s sp e \<longleftrightarrow> e < 2 \<and> (case k_sock s sp of None \<Rightarrow> False | Some so \<Rightarrow> so_end_open so e)"

fun call_ok :: "act \<Rightarrow> kst \<Rightarrow> bool" where
  "call_ok (A_create name tcb stack) s \<longleftrightarrow> tcb \<noteq> 0 \<and> stack \<noteq> 0 \<and> tcb \<notin> k_live s \<and> k_nthreads s < 2 ^ 64 - 1"
| "call_ok A_exit s \<longleftrightarrow> (\<forall>m. k_owner s m \<noteq> k_current s)"
| "call_ok (A_join t) s \<longleftrightarrow> t \<in> k_live s \<and> t \<noteq> k_current s \<and> t \<noteq> k_idle s \<and> th_stack_base (k_thr s t) \<noteq> 0
     \<and> \<not> inside s (\<lambda>k. k = K_join t)"
| "call_ok (A_lock m) s \<longleftrightarrow> k_owner s m \<noteq> k_current s"
| "call_ok (A_unlock m) s \<longleftrightarrow> k_owner s m = k_current s"
| "call_ok (A_pipe_open p _ _) s \<longleftrightarrow> k_pipe s p = None"
| "call_ok (A_pipe_read p _) s \<longleftrightarrow> pipe_readable s p"
| "call_ok (A_pipe_write p _) s \<longleftrightarrow> pipe_writable s p"
| "call_ok (A_pipe_release_read p) s \<longleftrightarrow> pipe_readable s p \<and> \<not> inside s (on_pipe_read p)"
| "call_ok (A_pipe_release_write p) s \<longleftrightarrow> pipe_writable s p \<and> \<not> inside s (on_pipe_write p)"
| "call_ok (A_socketpair_open _ _ _ p _) s \<longleftrightarrow> k_sock s p = None"
| "call_ok (A_socket_read sp e _) s \<longleftrightarrow> socket_usable s sp e"
| "call_ok (A_socket_write sp e _) s \<longleftrightarrow> socket_usable s sp e"
| "call_ok (A_socket_release sp e) s \<longleftrightarrow> socket_usable s sp e \<and> \<not> inside s (on_socket sp e)"
| "call_ok _ s \<longleftrightarrow> True"

definition allowed :: "act \<Rightarrow> kst \<Rightarrow> bool" where
  "allowed a s \<longleftrightarrow>
     (let k = th_rsp (k_thr s (k_current s)) in
      case a of A_timer \<Rightarrow> \<not> irq_off k
      | A_irq \<Rightarrow> \<not> irq_off k
      | A_resume \<Rightarrow> k \<noteq> K_run
      | _ \<Rightarrow> k = K_run \<and> k_current s \<noteq> k_idle s \<and> call_ok a s)"

text \<open>Runs of the machine by the rules.\<close>

inductive runs_to :: "kst \<Rightarrow> act list \<Rightarrow> kst \<Rightarrow> bool" where
  run_none: "runs_to s [] s"
| run_step: "runs_to s as s1 \<Longrightarrow> allowed a s1 \<Longrightarrow> perform a s1 = Some s2 \<Longrightarrow> runs_to s (as @ [a]) s2"

inductive_cases runs_to_snoc: "runs_to s (as @ [a]) s'"

end
