(* ===== verification/Sched_Inv.thy ===== *)
theory Sched_Inv
  imports Sched
begin

text \<open>
  The invariant of the thread machine. Every allocated thread is in one place: on the ready queue, on
  the sleep list, on one wait queue, or on no list. \<open>binv X\<close> is the invariant of a state in which the threads of
  \<open>X\<close> are between two places, as the running thread always is.
\<close>

section \<open>Places\<close>

datatype place = P_none | P_ready | P_sleep | P_wait qid

definition rep :: "kst \<Rightarrow> nat list \<Rightarrow> nat list \<Rightarrow> (qid \<Rightarrow> nat list) \<Rightarrow> (nat \<Rightarrow> place) \<Rightarrow> bool" where
  "rep s R S W loc \<longleftrightarrow> core_rep (k_core s, k_thr s) R S \<and> (\<forall>q. fifo (k_thr s) (k_wq s q) (W q))
     \<and> (\<forall>t. t \<in> set R \<longleftrightarrow> loc t = P_ready) \<and> (\<forall>t. t \<in> set S \<longleftrightarrow> loc t = P_sleep)
     \<and> (\<forall>t q. t \<in> set (W q) \<longleftrightarrow> loc t = P_wait q)"

lemma repD:
  assumes "rep s R S W loc"
  shows "core_rep (k_core s, k_thr s) R S" "fifo (k_thr s) (k_wq s q) (W q)" "t \<in> set R \<longleftrightarrow> loc t = P_ready"
    "t \<in> set S \<longleftrightarrow> loc t = P_sleep" "t \<in> set (W q) \<longleftrightarrow> loc t = P_wait q"
  using assms by (auto simp: rep_def)

lemma rep_cong:
  assumes "rep s R S W loc" "k_core s' = k_core s" "k_wq s' = k_wq s" "\<And>t. th_next (k_thr s' t) = th_next (k_thr s t)"
  shows "rep s' R S W loc"
  using assms(1) path_cong [of _ "k_thr s'" "k_thr s", OF assms(4)] fifo_cong [of _ "k_thr s'" "k_thr s", OF assms(4)] assms(2,3)
  by (simp add: rep_def core_rep_def)

lemma k_enqueue_fields [simp]:
  "k_core (enqueue t s) = fst (sched_core_enqueue t (k_core s, k_thr s))"
  "k_thr (enqueue t s) = snd (sched_core_enqueue t (k_core s, k_thr s))"
  "k_live (enqueue t s) = k_live s" "k_idle (enqueue t s) = k_idle s" "k_current (enqueue t s) = k_current s"
  "k_kernel_as (enqueue t s) = k_kernel_as s" "k_active_as (enqueue t s) = k_active_as s"
  "k_need_resched (enqueue t s) = k_need_resched s" "k_started (enqueue t s) = k_started s"
  "k_next_id (enqueue t s) = k_next_id s" "k_nthreads (enqueue t s) = k_nthreads s" "k_ticks (enqueue t s) = k_ticks s"
  "k_rsp0 (enqueue t s) = k_rsp0 s" "k_syscall_kstack (enqueue t s) = k_syscall_kstack s" "k_owner (enqueue t s) = k_owner s"
  "k_wq (enqueue t s) = k_wq s" "k_pipe (enqueue t s) = k_pipe s" "k_sock (enqueue t s) = k_sock s" "k_ret (enqueue t s) = k_ret s"
  by (simp_all add: enqueue_def put_core_def)

lemma rep_enqueue:
  assumes r: "rep s R S W loc" and t: "t \<noteq> 0" "loc t = P_none"
  shows "rep (enqueue t s) (R @ [t]) S W (loc(t := P_ready))"
proof -
  note R = repD [OF r]
  have n: "t \<notin> set R" "t \<notin> set S" "t \<notin> set (W q)" for q using t(2) R(3-5) by (metis place.distinct)+
  have c: "core_rep (sched_core_enqueue t (k_core s, k_thr s)) (R @ [t]) S" by (rule enqueue_rep [OF R(1) t(1) n(1,2)])
  have w: "fifo (snd (sched_core_enqueue t (k_core s, k_thr s))) (k_wq s q) (W q)" for q
    by (rule ready.push_fifo_other [of "(k_core s, k_thr s)" R])
      (use core_repD(1) [OF R(1)] R(2-5) n in auto)
  show ?thesis using c w n R(3-5) by (simp add: rep_def)
qed

lemma rep_dequeue:
  assumes r: "rep s (t # R) S W loc"
  defines "d \<equiv> sched_core_dequeue (k_core s, k_thr s)"
  shows "fst d = t" "t \<noteq> 0" "rep (put_core (snd d) s) R S W (loc(t := P_none))"
proof -
  note R = repD [OF r]
  have n: "t \<notin> set R" "t \<notin> set S" "t \<notin> set (W q)" for q
    using core_repD(3,5) [OF R(1)] R(3,5) [of t] by auto
  show d: "fst d = t" "t \<noteq> 0" using dequeue_rep(1) [OF R(1)] core_repD(6) [OF R(1)] by (auto simp: d_def)
  have c: "core_rep (snd d) R S" using dequeue_rep(2) [OF R(1)] by (simp add: d_def)
  have w: "fifo (snd (snd d)) (k_wq s q) (W q)" for q
    unfolding d_def by (rule ready.pop_fifo_other [of _ t R]) (use core_repD(1) [OF R(1)] R(2) n in auto)
  show "rep (put_core (snd d) s) R S W (loc(t := P_none))"
    using c w n R(3-5) by (auto simp: rep_def put_core_def)
qed

interpretation wait: thread_queue "wq_push q" "wq_take q" "\<lambda>s. k_wq s q" k_thr for q
proof
  fix s :: kst and xs :: "nat list" and t u x :: nat
  obtain h e where q: "k_wq s q = (h, e)" by (cases "k_wq s q")
  show "fifo (k_thr (wq_push q t s)) (k_wq (wq_push q t s) q) (xs @ [t])"
    if "fifo (k_thr s) (k_wq s q) xs" "t \<noteq> 0" "t \<notin> set xs"
    using fifo_push [of "k_thr s" h e xs t] that by (simp add: wq_push_def Let_def q split: if_splits)
  show "k_thr (wq_push q t s) u = k_thr s u" if "fifo (k_thr s) (k_wq s q) xs" "u \<notin> set xs" "u \<noteq> t"
  proof -
    have "e \<noteq> 0 \<Longrightarrow> e \<in> set xs" using that(1) by (auto simp: fifo_def q split: if_splits)
    then show ?thesis using that(2,3) by (auto simp: wq_push_def Let_def q set_next_def)
  qed
  show "fst (wq_take q s) = x \<and> fifo (k_thr (snd (wq_take q s))) (k_wq (snd (wq_take q s)) q) xs"
    if "fifo (k_thr s) (k_wq s q) (x # xs)"
    using fifo_pop [OF that [unfolded q]] by (simp add: wq_take_def q Let_def)
  show "k_thr (snd (wq_take q s)) u = k_thr s u" if "fifo (k_thr s) (k_wq s q) (x # xs)" "u \<noteq> x"
    using fifo_pop [OF that(1) [unfolded q]] that(2) by (auto simp: wq_take_def q Let_def set_next_def)
  show "wq_take q s = (0, s)" if "fifo (k_thr s) (k_wq s q) []"
    using that by (simp add: wq_take_def fifo_def q)
qed

lemma wq_push_fields [simp]:
  "k_live (wq_push q t s) = k_live s"
  "k_idle (wq_push q t s) = k_idle s"
  "k_current (wq_push q t s) = k_current s"
  "k_kernel_as (wq_push q t s) = k_kernel_as s"
  "k_active_as (wq_push q t s) = k_active_as s"
  "k_need_resched (wq_push q t s) = k_need_resched s"
  "k_started (wq_push q t s) = k_started s"
  "k_next_id (wq_push q t s) = k_next_id s"
  "k_nthreads (wq_push q t s) = k_nthreads s"
  "k_ticks (wq_push q t s) = k_ticks s"
  "k_rsp0 (wq_push q t s) = k_rsp0 s"
  "k_syscall_kstack (wq_push q t s) = k_syscall_kstack s"
  "k_owner (wq_push q t s) = k_owner s"
  "k_pipe (wq_push q t s) = k_pipe s"
  "k_sock (wq_push q t s) = k_sock s"
  "k_ret (wq_push q t s) = k_ret s"
  "th_rsp (k_thr (wq_push q t s) u) = th_rsp (k_thr s u)"
  "th_id (k_thr (wq_push q t s) u) = th_id (k_thr s u)"
  "th_name (k_thr (wq_push q t s) u) = th_name (k_thr s u)"
  "th_wake_tick (k_thr (wq_push q t s) u) = th_wake_tick (k_thr s u)"
  "th_joiner (k_thr (wq_push q t s) u) = th_joiner (k_thr s u)"
  "th_stack_base (k_thr (wq_push q t s) u) = th_stack_base (k_thr s u)"
  "th_kstack_top (k_thr (wq_push q t s) u) = th_kstack_top (k_thr s u)"
  "th_as (k_thr (wq_push q t s) u) = th_as (k_thr s u)"
  "th_pid (k_thr (wq_push q t s) u) = th_pid (k_thr s u)"
  "th_state (k_thr (wq_push q t s) u) = th_state (k_thr s u)"
  "k_core (wq_push q t s) = k_core s"
  "q' \<noteq> q \<Longrightarrow> k_wq (wq_push q t s) q' = k_wq s q'"
  by (simp_all add: wq_push_def Let_def split: prod.split)

lemma wq_take_fields [simp]:
  "k_live (snd (wq_take q s)) = k_live s"
  "k_idle (snd (wq_take q s)) = k_idle s"
  "k_current (snd (wq_take q s)) = k_current s"
  "k_kernel_as (snd (wq_take q s)) = k_kernel_as s"
  "k_active_as (snd (wq_take q s)) = k_active_as s"
  "k_need_resched (snd (wq_take q s)) = k_need_resched s"
  "k_started (snd (wq_take q s)) = k_started s"
  "k_next_id (snd (wq_take q s)) = k_next_id s"
  "k_nthreads (snd (wq_take q s)) = k_nthreads s"
  "k_ticks (snd (wq_take q s)) = k_ticks s"
  "k_rsp0 (snd (wq_take q s)) = k_rsp0 s"
  "k_syscall_kstack (snd (wq_take q s)) = k_syscall_kstack s"
  "k_owner (snd (wq_take q s)) = k_owner s"
  "k_pipe (snd (wq_take q s)) = k_pipe s"
  "k_sock (snd (wq_take q s)) = k_sock s"
  "k_ret (snd (wq_take q s)) = k_ret s"
  "th_rsp (k_thr (snd (wq_take q s)) u) = th_rsp (k_thr s u)"
  "th_id (k_thr (snd (wq_take q s)) u) = th_id (k_thr s u)"
  "th_name (k_thr (snd (wq_take q s)) u) = th_name (k_thr s u)"
  "th_wake_tick (k_thr (snd (wq_take q s)) u) = th_wake_tick (k_thr s u)"
  "th_joiner (k_thr (snd (wq_take q s)) u) = th_joiner (k_thr s u)"
  "th_stack_base (k_thr (snd (wq_take q s)) u) = th_stack_base (k_thr s u)"
  "th_kstack_top (k_thr (snd (wq_take q s)) u) = th_kstack_top (k_thr s u)"
  "th_as (k_thr (snd (wq_take q s)) u) = th_as (k_thr s u)"
  "th_pid (k_thr (snd (wq_take q s)) u) = th_pid (k_thr s u)"
  "th_state (k_thr (snd (wq_take q s)) u) = th_state (k_thr s u)"
  "k_core (snd (wq_take q s)) = k_core s"
  "q' \<noteq> q \<Longrightarrow> k_wq (snd (wq_take q s)) q' = k_wq s q'"
  by (simp_all add: wq_take_def Let_def split: prod.split)

lemma rep_push:
  assumes r: "rep s R S W loc" and t: "t \<noteq> 0" "loc t = P_none"
  shows "rep (wq_push q t s) R S (W(q := W q @ [t])) (loc(t := P_wait q))"
proof -
  note R = repD [OF r]
  have n: "t \<notin> set R" "t \<notin> set S" "t \<notin> set (W q')" for q' using t(2) R(3-5) by (metis place.distinct)+
  have d: "set R \<inter> set (W q) = {}" "set S \<inter> set (W q) = {}" "q' \<noteq> q \<Longrightarrow> set (W q') \<inter> set (W q) = {}" for q'
    using R(3-5) by auto
  have c: "core_rep (k_core (wq_push q t s), k_thr (wq_push q t s)) R S"
    using core_repD [OF R(1)] wait.push_fifo_other [OF R(2), of "ready_ends (k_core s, k_thr s)" R q t]
      wait.push_path [OF R(2), of "sleepers (k_core s)" S q t] n d by (auto simp: core_rep_def)
  have "fifo (k_thr (wq_push q t s)) (k_wq (wq_push q t s) q') ((W(q := W q @ [t])) q')" for q'
    using wait.push_fifo [OF R(2) t(1) n(3), of q] wait.push_fifo_other [OF R(2) R(2) [of q'], of q t] n(3) d(3) by auto
  then show ?thesis using c n R(3-5) by (auto simp: rep_def)
qed

lemma rep_take:
  assumes r: "rep s R S W loc" and q: "W q = t # ws"
  shows "fst (wq_take q s) = t" "t \<noteq> 0" "rep (snd (wq_take q s)) R S (W(q := ws)) (loc(t := P_none))"
proof -
  note R = repD [OF r]
  have f: "fifo (k_thr s) (k_wq s q) (t # ws)" using R(2) [of q] q by simp
  show t: "fst (wq_take q s) = t" "t \<noteq> 0" using wait.pop_fifo [OF f] f by (auto simp: fifo_def)
  have l: "loc t = P_wait q" using R(5) [of t q] q by simp
  have n: "t \<notin> set R" "t \<notin> set S" "t \<notin> set ws" "q' \<noteq> q \<Longrightarrow> t \<notin> set (W q')" for q'
    using l R(3-5) f by (auto simp: fifo_def)
  have c: "core_rep (k_core (snd (wq_take q s)), k_thr (snd (wq_take q s))) R S"
    using core_repD [OF R(1)] wait.pop_fifo_other [OF f, of "ready_ends (k_core s, k_thr s)" R]
      wait.pop_path [OF f, of "sleepers (k_core s)" S] n by (auto simp: core_rep_def)
  have "fifo (k_thr (snd (wq_take q s))) (k_wq (snd (wq_take q s)) q') ((W(q := ws)) q')" for q'
    using wait.pop_fifo [OF f] wait.pop_fifo_other [OF f R(2) [of q']] n(4) by auto
  moreover have "u \<in> set ws \<longleftrightarrow> loc u = P_wait q \<and> u \<noteq> t" for u using R(5) [of u q] q n(3) by auto
  ultimately show "rep (snd (wq_take q s)) R S (W(q := ws)) (loc(t := P_none))"
    using c n R(3-5) by (auto simp: rep_def)
qed

section \<open>The invariant\<close>

text \<open>A thread that gets the processor can go on: it owns the mutex it waited for, the thread it joins has exited.\<close>

definition runnable :: "kst \<Rightarrow> nat \<Rightarrow> bool" where
  "runnable s t \<longleftrightarrow> (case th_rsp (k_thr s t) of K_lock m \<Rightarrow> k_owner s m = t
     | K_join u \<Rightarrow> th_state (k_thr s u) = THREAD_ZOMBIE | K_exit \<Rightarrow> False | _ \<Rightarrow> True)"

fun waits :: "qid \<Rightarrow> cont \<Rightarrow> bool" where
  "waits (Q_mutex m) k \<longleftrightarrow> k = K_lock m"
| "waits (Q_pipe_read p) k \<longleftrightarrow> on_pipe_read p k"
| "waits (Q_pipe_write p) k \<longleftrightarrow> on_pipe_write p k"
| "waits (Q_sock_read sp i) k \<longleftrightarrow> (\<exists>e n. k = K_socket_read sp e n \<and> i = 1 - e)"
| "waits (Q_sock_write sp i) k \<longleftrightarrow> (\<exists>b d. k = K_socket_write sp i b d)"

definition status_ok :: "kst \<Rightarrow> (nat \<Rightarrow> place) \<Rightarrow> nat \<Rightarrow> bool" where
  "status_ok s loc t \<longleftrightarrow> (case loc t of
     P_ready \<Rightarrow> th_state (k_thr s t) = THREAD_READY \<and> runnable s t
   | P_sleep \<Rightarrow> th_state (k_thr s t) = THREAD_SLEEPING \<and> th_rsp (k_thr s t) = K_run
   | P_wait q \<Rightarrow> th_state (k_thr s t) = THREAD_BLOCKED \<and> waits q (th_rsp (k_thr s t))
   | P_none \<Rightarrow> th_state (k_thr s t) = THREAD_BLOCKED \<and> (\<exists>u. th_rsp (k_thr s t) = K_join u \<and> th_joiner (k_thr s u) = t)
       \<or> th_state (k_thr s t) = THREAD_ZOMBIE \<and> th_rsp (k_thr s t) = K_exit)"

text \<open>What a thread inside a call relies on.\<close>

fun holds :: "kst \<Rightarrow> cont \<Rightarrow> bool" where
  "holds s (K_join u) \<longleftrightarrow> u \<in> k_live s \<and> u \<noteq> k_idle s \<and> th_stack_base (k_thr s u) \<noteq> 0"
| "holds s (K_pipe_read p _) \<longleftrightarrow> pipe_readable s p"
| "holds s (K_pipe_write p b d) \<longleftrightarrow> pipe_writable s p \<and> d < length b"
| "holds s (K_socket_read sp e _) \<longleftrightarrow> socket_usable s sp e"
| "holds s (K_socket_write sp e b d) \<longleftrightarrow> socket_usable s sp e \<and> d < length b"
| "holds s _ \<longleftrightarrow> True"

text \<open>A queue with a waiter has someone who will wake it.\<close>

fun q_open :: "kst \<Rightarrow> qid \<Rightarrow> bool" where
  "q_open s (Q_mutex m) \<longleftrightarrow> k_owner s m \<noteq> 0"
| "q_open s (Q_pipe_read p) \<longleftrightarrow> pipe_writable s p"
| "q_open s (Q_pipe_write p) \<longleftrightarrow> pipe_readable s p"
| "q_open s _ \<longleftrightarrow> True"

definition inv_base :: "nat set \<Rightarrow> kst \<Rightarrow> (nat \<Rightarrow> place) \<Rightarrow> bool" where
  "inv_base X s loc \<longleftrightarrow> finite (k_live s) \<and> 0 \<notin> k_live s \<and> k_idle s \<in> k_live s \<and> k_nthreads s = card (k_live s)
     \<and> k_nthreads s < 2 ^ 64 \<and> k_started s \<and> (\<forall>t. t \<notin> k_live s \<longrightarrow> loc t = P_none) \<and> loc (k_idle s) = P_none
     \<and> th_rsp (k_thr s (k_idle s)) = K_run \<and> th_state (k_thr s (k_idle s)) \<in> {THREAD_READY, THREAD_RUNNING}
     \<and> X \<subseteq> k_live s \<and> (\<forall>t \<in> X. loc t = P_none)"

definition inv_threads :: "nat set \<Rightarrow> kst \<Rightarrow> (nat \<Rightarrow> place) \<Rightarrow> bool" where
  "inv_threads X s loc \<longleftrightarrow> (\<forall>t \<in> k_live s. (t \<notin> X \<longrightarrow> t \<noteq> k_idle s \<longrightarrow> status_ok s loc t) \<and> holds s (th_rsp (k_thr s t)))"

definition inv_joins :: "nat set \<Rightarrow> kst \<Rightarrow> (nat \<Rightarrow> place) \<Rightarrow> bool" where
  "inv_joins X s loc \<longleftrightarrow>
     (\<forall>t \<in> k_live s. \<forall>t' \<in> k_live s. \<forall>u. th_rsp (k_thr s t) = K_join u \<longrightarrow> th_rsp (k_thr s t') = K_join u \<longrightarrow> t = t')
   \<and> (\<forall>u \<in> k_live s. \<forall>j. th_joiner (k_thr s u) = j \<longrightarrow> j \<noteq> 0 \<longrightarrow> j \<in> k_live s \<and> j \<notin> X \<and> loc j = P_none
        \<and> th_rsp (k_thr s j) = K_join u \<and> th_state (k_thr s j) = THREAD_BLOCKED \<and> th_state (k_thr s u) \<noteq> THREAD_ZOMBIE)"

definition inv_locks :: "kst \<Rightarrow> (nat \<Rightarrow> place) \<Rightarrow> bool" where
  "inv_locks s loc \<longleftrightarrow> (\<forall>m t. k_owner s m = t \<longrightarrow> t \<noteq> 0 \<longrightarrow>
     t \<in> k_live s \<and> t \<noteq> k_idle s \<and> th_state (k_thr s t) \<noteq> THREAD_ZOMBIE \<and> loc t \<noteq> P_wait (Q_mutex m))"

definition inv_lists :: "kst \<Rightarrow> nat list \<Rightarrow> (qid \<Rightarrow> nat list) \<Rightarrow> bool" where
  "inv_lists s S W \<longleftrightarrow> (\<forall>q. W q \<noteq> [] \<longrightarrow> q_open s q) \<and> sorted (map (\<lambda>t. th_wake_tick (k_thr s t)) S)"

definition inv_objects :: "kst \<Rightarrow> bool" where
  "inv_objects s \<longleftrightarrow>
     (\<forall>p pi. k_pipe s p = Some pi \<longrightarrow> pipe_inv (pi_core pi) \<and> pi_readers pi \<ge> 0 \<and> pi_writers pi \<ge> 0
        \<and> (pi_readers pi > 0 \<or> pi_writers pi > 0))
   \<and> (\<forall>sp so. k_sock s sp = Some so \<longrightarrow> pipe_inv (so_chan so 0) \<and> pipe_inv (so_chan so 1) \<and> (so_end_open so 0 \<or> so_end_open so 1))"

definition binv :: "nat set \<Rightarrow> kst \<Rightarrow> nat list \<Rightarrow> nat list \<Rightarrow> (qid \<Rightarrow> nat list) \<Rightarrow> (nat \<Rightarrow> place) \<Rightarrow> bool" where
  "binv X s R S W loc \<longleftrightarrow> rep s R S W loc \<and> inv_base X s loc \<and> inv_threads X s loc \<and> inv_joins X s loc
     \<and> inv_locks s loc \<and> inv_lists s S W \<and> inv_objects s"

text \<open>The processor is set up for the current thread.\<close>

definition inv_cpu :: "kst \<Rightarrow> bool" where
  "inv_cpu s \<longleftrightarrow> (let c = k_thr s (k_current s) in
     k_active_as s = (if th_as c \<noteq> 0 then th_as c else k_kernel_as s)
   \<and> k_rsp0 s = th_kstack_top c \<and> k_syscall_kstack s = th_kstack_top c)"

definition sinv :: "kst \<Rightarrow> nat list \<Rightarrow> nat list \<Rightarrow> (qid \<Rightarrow> nat list) \<Rightarrow> (nat \<Rightarrow> place) \<Rightarrow> bool" where
  "sinv s R S W loc \<longleftrightarrow> binv {k_current s} s R S W loc \<and> th_state (k_thr s (k_current s)) = THREAD_RUNNING
     \<and> runnable s (k_current s) \<and> inv_cpu s"

section \<open>Moving threads\<close>

lemma holds_cong:
  assumes "k_live s' = k_live s" "k_idle s' = k_idle s" "k_pipe s' = k_pipe s" "k_sock s' = k_sock s"
    "\<And>u. th_stack_base (k_thr s' u) = th_stack_base (k_thr s u)"
  shows "holds s' k = holds s k"
  by (cases k) (simp_all add: assms pipe_readable_def pipe_writable_def socket_usable_def)

lemma q_open_cong:
  assumes "k_owner s' = k_owner s" "k_pipe s' = k_pipe s"
  shows "q_open s' q = q_open s q"
  by (cases q) (simp_all add: assms pipe_readable_def pipe_writable_def)

lemma runnable_keep:
  assumes "runnable s u" "th_rsp (k_thr s' u) = th_rsp (k_thr s u)" "\<And>m. k_owner s m = u \<Longrightarrow> k_owner s' m = u"
    "\<And>v. th_rsp (k_thr s u) = K_join v \<Longrightarrow> th_state (k_thr s v) = THREAD_ZOMBIE \<Longrightarrow> th_state (k_thr s' v) = THREAD_ZOMBIE"
  shows "runnable s' u"
  using assms by (auto simp: runnable_def split: cont.splits)

lemma status_keep:
  assumes "status_ok s loc u" "loc' u = loc u" "th_state (k_thr s' u) = th_state (k_thr s u)"
    "th_rsp (k_thr s' u) = th_rsp (k_thr s u)" "\<And>m. k_owner s m = u \<Longrightarrow> k_owner s' m = u"
    "\<And>v. th_rsp (k_thr s u) = K_join v \<Longrightarrow> th_state (k_thr s v) = THREAD_ZOMBIE \<Longrightarrow> th_state (k_thr s' v) = THREAD_ZOMBIE"
    "\<And>v. th_rsp (k_thr s u) = K_join v \<Longrightarrow> th_joiner (k_thr s v) = u \<Longrightarrow> th_joiner (k_thr s' v) = u"
  shows "status_ok s' loc' u"
proof -
  have r: "runnable s u \<Longrightarrow> runnable s' u" using runnable_keep [OF _ assms(4,5,6)] by blast
  show ?thesis
  proof (cases "loc u")
    case P_none
    then show ?thesis using assms(1,2,3,4) assms(7) by (auto simp: status_ok_def)
  qed (use assms(1,2,3,4) r in \<open>simp_all add: status_ok_def\<close>)
qed

lemma binvD:
  assumes "binv X s R S W loc"
  shows "rep s R S W loc" "inv_base X s loc" "inv_threads X s loc" "inv_joins X s loc" "inv_locks s loc"
    "inv_lists s S W" "inv_objects s"
  using assms by (simp_all add: binv_def)

lemma binv_member:
  assumes "binv X s R S W loc" "t \<in> X"
  shows "t \<in> k_live s" "t \<noteq> 0" "loc t = P_none"
  using binvD(2) [OF assms(1)] assms(2) unfolding inv_base_def by (metis subsetD)+

lemma inv_threadsI:
  assumes "\<And>t. t \<in> k_live s \<Longrightarrow> t \<notin> X \<Longrightarrow> t \<noteq> k_idle s \<Longrightarrow> status_ok s loc t"
    "\<And>t. t \<in> k_live s \<Longrightarrow> holds s (th_rsp (k_thr s t))"
  shows "inv_threads X s loc"
  using assms by (simp add: inv_threads_def)

lemma inv_threadsD:
  assumes "inv_threads X s loc" "t \<in> k_live s"
  shows "t \<notin> X \<Longrightarrow> t \<noteq> k_idle s \<Longrightarrow> status_ok s loc t" "holds s (th_rsp (k_thr s t))"
  using assms by (simp_all add: inv_threads_def)

lemma inv_joinsI:
  assumes "\<And>a b u. a \<in> k_live s \<Longrightarrow> b \<in> k_live s \<Longrightarrow> th_rsp (k_thr s a) = K_join u \<Longrightarrow> th_rsp (k_thr s b) = K_join u \<Longrightarrow> a = b"
    "\<And>u j. u \<in> k_live s \<Longrightarrow> th_joiner (k_thr s u) = j \<Longrightarrow> j \<noteq> 0 \<Longrightarrow> j \<in> k_live s \<and> j \<notin> X \<and> loc j = P_none
      \<and> th_rsp (k_thr s j) = K_join u \<and> th_state (k_thr s j) = THREAD_BLOCKED \<and> th_state (k_thr s u) \<noteq> THREAD_ZOMBIE"
  shows "inv_joins X s loc"
  unfolding inv_joins_def using assms by blast

lemma inv_joinsD:
  assumes "inv_joins X s loc"
  shows "a \<in> k_live s \<Longrightarrow> b \<in> k_live s \<Longrightarrow> th_rsp (k_thr s a) = K_join u \<Longrightarrow> th_rsp (k_thr s b) = K_join u \<Longrightarrow> a = b"
    "u \<in> k_live s \<Longrightarrow> th_joiner (k_thr s u) = j \<Longrightarrow> j \<noteq> 0 \<Longrightarrow> j \<in> k_live s \<and> j \<notin> X \<and> loc j = P_none
      \<and> th_rsp (k_thr s j) = K_join u \<and> th_state (k_thr s j) = THREAD_BLOCKED \<and> th_state (k_thr s u) \<noteq> THREAD_ZOMBIE"
  using assms unfolding inv_joins_def by blast+

lemma binv_enqueue:
  assumes b: "binv (insert t X) s R S W loc" and t: "t \<notin> X" "t \<noteq> k_idle s" "runnable s t"
    and st: "th_state (k_thr s t) \<noteq> THREAD_ZOMBIE"
  shows "binv X (enqueue t s) (R @ [t]) S W (loc(t := P_ready))"
proof -
  note B = binvD [OF b]
  have t0: "t \<in> k_live s" "t \<noteq> 0" "loc t = P_none" using binv_member [OF b] by simp_all
  have "rep (enqueue t s) (R @ [t]) S W (loc(t := P_ready))" by (rule rep_enqueue [OF B(1) t0(2,3)])
  moreover have "inv_base X (enqueue t s) (loc(t := P_ready))"
    using B(2) t t0 by (auto simp: inv_base_def)
  moreover have "inv_threads X (enqueue t s) (loc(t := P_ready))"
  proof (rule inv_threadsI)
    fix u assume u: "u \<in> k_live (enqueue t s)" "u \<notin> X" "u \<noteq> k_idle (enqueue t s)"
    show "status_ok (enqueue t s) (loc(t := P_ready)) u"
    proof (cases "u = t")
      case True
      have "runnable (enqueue t s) t" by (rule runnable_keep [OF t(3)]) (use st in auto)
      then show ?thesis by (simp add: True status_ok_def)
    next
      case False
      show ?thesis
        by (rule status_keep [OF inv_threadsD(1) [OF B(3)]]) (use u False st in auto)
    qed
  next
    fix u assume "u \<in> k_live (enqueue t s)"
    then show "holds (enqueue t s) (th_rsp (k_thr (enqueue t s) u))"
      using inv_threadsD(2) [OF B(3), of u] holds_cong [of "enqueue t s" s] by simp
  qed
  moreover have "inv_joins X (enqueue t s) (loc(t := P_ready))"
    using B(4) t t0 unfolding inv_joins_def by auto
  moreover have "inv_locks (enqueue t s) (loc(t := P_ready))"
    using B(5) t t0 unfolding inv_locks_def by auto
  moreover have "inv_lists (enqueue t s) S W"
    using B(6) q_open_cong [of "enqueue t s" s] unfolding inv_lists_def by auto
  moreover have "inv_objects (enqueue t s)"
    using B(7) unfolding inv_objects_def by auto
  ultimately show ?thesis by (simp add: binv_def)
qed

text \<open>Threads leave their places.\<close>

definition vacate :: "nat set \<Rightarrow> (nat \<Rightarrow> place) \<Rightarrow> nat \<Rightarrow> place" where
  "vacate T loc u = (if u \<in> T then P_none else loc u)"

lemma vacate_one: "vacate {t} loc = loc(t := P_none)"
  by (auto simp: vacate_def)

lemma binv_vacate:
  assumes b: "binv X s R S W loc" and T: "\<And>t. t \<in> T \<Longrightarrow> loc t \<noteq> P_none"
    and r: "rep s' R' S' W' (vacate T loc)" and l: "inv_lists s' S' W'"
    and same: "k_live s' = k_live s" "k_idle s' = k_idle s" "k_nthreads s' = k_nthreads s" "k_started s' = k_started s"
      "k_pipe s' = k_pipe s" "k_sock s' = k_sock s" "k_owner s' = k_owner s"
    and thr: "\<And>u. th_rsp (k_thr s' u) = th_rsp (k_thr s u)" "\<And>u. th_state (k_thr s' u) = th_state (k_thr s u)"
      "\<And>u. th_joiner (k_thr s' u) = th_joiner (k_thr s u)" "\<And>u. th_stack_base (k_thr s' u) = th_stack_base (k_thr s u)"
  shows "\<And>t. t \<in> T \<Longrightarrow> t \<in> k_live s \<and> t \<noteq> k_idle s \<and> t \<notin> X \<and> status_ok s loc t" "binv (T \<union> X) s' R' S' W' (vacate T loc)"
proof -
  note B = binvD [OF b]
  show t1: "t \<in> k_live s \<and> t \<noteq> k_idle s \<and> t \<notin> X \<and> status_ok s loc t" if "t \<in> T" for t
  proof -
    have "t \<in> k_live s" "t \<noteq> k_idle s" "t \<notin> X" using B(2) T [OF that] unfolding inv_base_def by metis+
    then show ?thesis using inv_threadsD(1) [OF B(3)] by blast
  qed
  have "inv_base (T \<union> X) s' (vacate T loc)" using B(2) t1 same thr by (auto simp: inv_base_def vacate_def)
  moreover have "inv_threads (T \<union> X) s' (vacate T loc)"
  proof (rule inv_threadsI)
    fix u assume u: "u \<in> k_live s'" "u \<notin> T \<union> X" "u \<noteq> k_idle s'"
    show "status_ok s' (vacate T loc) u"
      by (rule status_keep [OF inv_threadsD(1) [OF B(3)]]) (use u same thr in \<open>auto simp: vacate_def\<close>)
  next
    fix u assume "u \<in> k_live s'"
    then show "holds s' (th_rsp (k_thr s' u))"
      using inv_threadsD(2) [OF B(3), of u] holds_cong [of s' s] same thr by simp
  qed
  moreover have "inv_joins (T \<union> X) s' (vacate T loc)"
    using B(4) T unfolding inv_joins_def same thr vacate_def by auto
  moreover have "inv_locks s' (vacate T loc)" using B(5) unfolding inv_locks_def same thr vacate_def by auto
  moreover have "inv_objects s'" using B(7) unfolding inv_objects_def same by simp
  ultimately show "binv (T \<union> X) s' R' S' W' (vacate T loc)" using r l by (simp add: binv_def)
qed

lemma binv_leave:
  assumes b: "binv X s R S W loc" and t: "loc t \<noteq> P_none"
    and r: "rep s' R' S' W' (loc(t := P_none))" and l: "inv_lists s' S' W'"
    and same: "k_live s' = k_live s" "k_idle s' = k_idle s" "k_nthreads s' = k_nthreads s" "k_started s' = k_started s"
      "k_pipe s' = k_pipe s" "k_sock s' = k_sock s" "k_owner s' = k_owner s"
    and thr: "\<And>u. th_rsp (k_thr s' u) = th_rsp (k_thr s u)" "\<And>u. th_state (k_thr s' u) = th_state (k_thr s u)"
      "\<And>u. th_joiner (k_thr s' u) = th_joiner (k_thr s u)" "\<And>u. th_stack_base (k_thr s' u) = th_stack_base (k_thr s u)"
  shows "t \<in> k_live s" "t \<noteq> k_idle s" "t \<notin> X" "status_ok s loc t" "binv (insert t X) s' R' S' W' (loc(t := P_none))"
  using binv_vacate [OF b, of "{t}" s' R' S' W', unfolded vacate_one, OF _ r l same thr] t by auto

lemma binv_take:
  assumes b: "binv X s R S W loc" and q: "W q = t # ws"
  defines "s' \<equiv> snd (wq_take q s)"
  shows "fst (wq_take q s) = t" "t \<in> k_live s" "t \<noteq> k_idle s" "t \<notin> X" "t \<noteq> 0" "th_state (k_thr s t) = THREAD_BLOCKED"
    "waits q (th_rsp (k_thr s t))" "binv (insert t X) s' R S (W(q := ws)) (loc(t := P_none))"
proof -
  note B = binvD [OF b]
  have l: "loc t = P_wait q" using repD(5) [OF B(1), of t q] q by simp
  then have n: "loc t \<noteq> P_none" by simp
  have r: "rep s' R S (W(q := ws)) (loc(t := P_none))" unfolding s'_def by (rule rep_take [OF B(1) q])
  have "inv_lists s' S (W(q := ws))"
    using B(6) q q_open_cong [of s' s] unfolding inv_lists_def s'_def by auto
  note L = binv_leave [OF b n r this]
  show "fst (wq_take q s) = t" "t \<noteq> 0" using rep_take [OF B(1) q] by simp_all
  show "t \<in> k_live s" "t \<noteq> k_idle s" "t \<notin> X" "binv (insert t X) s' R S (W(q := ws)) (loc(t := P_none))"
    by (rule L; simp add: s'_def)+
  have "status_ok s loc t" by (rule L; simp add: s'_def)
  then show "th_state (k_thr s t) = THREAD_BLOCKED" "waits q (th_rsp (k_thr s t))" using l by (simp_all add: status_ok_def)
qed

text \<open>A thread between two places arrives at one.\<close>

lemma binv_place:
  assumes b: "binv (insert t X) s R S W loc" and t: "t \<notin> X" "t \<noteq> k_idle s" "th_state (k_thr s t) \<noteq> THREAD_ZOMBIE"
    and r: "rep s' R' S' W' (loc(t := pl))" and l: "inv_lists s' S' W'"
    and same: "k_live s' = k_live s" "k_idle s' = k_idle s" "k_nthreads s' = k_nthreads s" "k_started s' = k_started s"
      "k_pipe s' = k_pipe s" "k_sock s' = k_sock s" "k_owner s' = k_owner s"
    and thr: "\<And>u. u \<noteq> t \<Longrightarrow> th_rsp (k_thr s' u) = th_rsp (k_thr s u)"
      "\<And>u. u \<noteq> t \<Longrightarrow> th_state (k_thr s' u) = th_state (k_thr s u)"
      "\<And>u. th_joiner (k_thr s' u) = th_joiner (k_thr s u)" "\<And>u. th_stack_base (k_thr s' u) = th_stack_base (k_thr s u)"
    and ok: "status_ok s' (loc(t := pl)) t" "holds s (th_rsp (k_thr s' t))" "\<And>u. th_rsp (k_thr s' t) \<noteq> K_join u"
    and own: "\<And>m. k_owner s m = t \<Longrightarrow> th_state (k_thr s' t) \<noteq> THREAD_ZOMBIE \<and> pl \<noteq> P_wait (Q_mutex m)"
    and z: "th_state (k_thr s' t) = THREAD_ZOMBIE \<Longrightarrow> th_joiner (k_thr s t) = 0"
  shows "binv X s' R' S' W' (loc(t := pl))"
proof -
  note B = binvD [OF b]
  have t0: "t \<in> k_live s" using binv_member [OF b] by simp
  have zk: "th_state (k_thr s v) = THREAD_ZOMBIE \<Longrightarrow> th_state (k_thr s' v) = THREAD_ZOMBIE" for v
    using thr(2) t(3) by (cases "v = t") auto
  have "inv_base X s' (loc(t := pl))" using B(2) t t0 same thr by (auto simp: inv_base_def)
  moreover have "inv_threads X s' (loc(t := pl))"
  proof (rule inv_threadsI)
    fix u assume u: "u \<in> k_live s'" "u \<notin> X" "u \<noteq> k_idle s'"
    show "status_ok s' (loc(t := pl)) u"
    proof (cases "u = t")
      case False
      show ?thesis
        by (rule status_keep [OF inv_threadsD(1) [OF B(3)]])
          (use u False same thr zk in auto)
    qed (use ok(1) in simp)
  next
    fix u assume u: "u \<in> k_live s'"
    have c: "holds s' k = holds s k" for k by (rule holds_cong) (use same thr(4) in auto)
    show "holds s' (th_rsp (k_thr s' u))"
      unfolding c using inv_threadsD(2) [OF B(3), of u] ok(2) thr(1) [of u] u same(1) by metis
  qed
  moreover have "inv_joins X s' (loc(t := pl))"
  proof (rule inv_joinsI)
    fix a b u assume *: "a \<in> k_live s'" "b \<in> k_live s'" "th_rsp (k_thr s' a) = K_join u" "th_rsp (k_thr s' b) = K_join u"
    then have "a \<noteq> t" "b \<noteq> t" using ok(3) by auto
    then show "a = b" using * inv_joinsD(1) [OF B(4), of a b u] thr(1) same(1) by simp
  next
    fix u j assume *: "u \<in> k_live s'" "th_joiner (k_thr s' u) = j" "j \<noteq> 0"
    then have j: "j \<in> k_live s \<and> j \<notin> insert t X \<and> loc j = P_none \<and> th_rsp (k_thr s j) = K_join u
        \<and> th_state (k_thr s j) = THREAD_BLOCKED \<and> th_state (k_thr s u) \<noteq> THREAD_ZOMBIE"
      using inv_joinsD(2) [OF B(4), of u j] same(1) thr(3) by simp
    moreover have "th_state (k_thr s' u) \<noteq> THREAD_ZOMBIE" using j z * thr(2,3) by (cases "u = t") auto
    ultimately show "j \<in> k_live s' \<and> j \<notin> X \<and> (loc(t := pl)) j = P_none \<and> th_rsp (k_thr s' j) = K_join u
        \<and> th_state (k_thr s' j) = THREAD_BLOCKED \<and> th_state (k_thr s' u) \<noteq> THREAD_ZOMBIE"
      using thr(1,2) same(1) by simp
  qed
  moreover have "inv_locks s' (loc(t := pl))"
    unfolding inv_locks_def
  proof (intro allI impI)
    fix m u assume "k_owner s' m = u" "u \<noteq> 0"
    then show "u \<in> k_live s' \<and> u \<noteq> k_idle s' \<and> th_state (k_thr s' u) \<noteq> THREAD_ZOMBIE \<and> (loc(t := pl)) u \<noteq> P_wait (Q_mutex m)"
      using B(5) own [of m] thr(2) [of u] same unfolding inv_locks_def by (cases "u = t") auto
  qed
  moreover have "inv_objects s'" using B(7) same unfolding inv_objects_def by simp
  ultimately show ?thesis using r l by (simp add: binv_def)
qed

lemma set_rsp_fields [simp]:
  "k_core (set_rsp t k s) = k_core s" "k_live (set_rsp t k s) = k_live s" "k_idle (set_rsp t k s) = k_idle s"
  "k_current (set_rsp t k s) = k_current s" "k_kernel_as (set_rsp t k s) = k_kernel_as s" "k_active_as (set_rsp t k s) = k_active_as s"
  "k_need_resched (set_rsp t k s) = k_need_resched s" "k_started (set_rsp t k s) = k_started s" "k_nthreads (set_rsp t k s) = k_nthreads s"
  "k_ticks (set_rsp t k s) = k_ticks s" "k_rsp0 (set_rsp t k s) = k_rsp0 s" "k_syscall_kstack (set_rsp t k s) = k_syscall_kstack s"
  "k_owner (set_rsp t k s) = k_owner s" "k_wq (set_rsp t k s) = k_wq s" "k_pipe (set_rsp t k s) = k_pipe s" "k_sock (set_rsp t k s) = k_sock s"
  "th_rsp (k_thr (set_rsp t k s) u) = (if u = t then k else th_rsp (k_thr s u))"
  "th_state (k_thr (set_rsp t k s) u) = th_state (k_thr s u)" "th_joiner (k_thr (set_rsp t k s) u) = th_joiner (k_thr s u)"
  "th_next (k_thr (set_rsp t k s) u) = th_next (k_thr s u)" "th_wake_tick (k_thr (set_rsp t k s) u) = th_wake_tick (k_thr s u)"
  "th_stack_base (k_thr (set_rsp t k s) u) = th_stack_base (k_thr s u)" "th_kstack_top (k_thr (set_rsp t k s) u) = th_kstack_top (k_thr s u)"
  "th_as (k_thr (set_rsp t k s) u) = th_as (k_thr s u)"
  by (simp_all add: set_rsp_def)

lemma set_joiner_fields [simp]:
  "k_core (set_joiner t j s) = k_core s" "k_live (set_joiner t j s) = k_live s" "k_idle (set_joiner t j s) = k_idle s"
  "k_current (set_joiner t j s) = k_current s" "k_kernel_as (set_joiner t j s) = k_kernel_as s" "k_active_as (set_joiner t j s) = k_active_as s"
  "k_need_resched (set_joiner t j s) = k_need_resched s" "k_started (set_joiner t j s) = k_started s" "k_nthreads (set_joiner t j s) = k_nthreads s"
  "k_ticks (set_joiner t j s) = k_ticks s" "k_rsp0 (set_joiner t j s) = k_rsp0 s" "k_syscall_kstack (set_joiner t j s) = k_syscall_kstack s"
  "k_owner (set_joiner t j s) = k_owner s" "k_wq (set_joiner t j s) = k_wq s" "k_pipe (set_joiner t j s) = k_pipe s" "k_sock (set_joiner t j s) = k_sock s"
  "th_rsp (k_thr (set_joiner t j s) u) = th_rsp (k_thr s u)"
  "th_state (k_thr (set_joiner t j s) u) = th_state (k_thr s u)" "th_joiner (k_thr (set_joiner t j s) u) = (if u = t then j else th_joiner (k_thr s u))"
  "th_next (k_thr (set_joiner t j s) u) = th_next (k_thr s u)" "th_wake_tick (k_thr (set_joiner t j s) u) = th_wake_tick (k_thr s u)"
  "th_stack_base (k_thr (set_joiner t j s) u) = th_stack_base (k_thr s u)" "th_kstack_top (k_thr (set_joiner t j s) u) = th_kstack_top (k_thr s u)"
  "th_as (k_thr (set_joiner t j s) u) = th_as (k_thr s u)"
  by (simp_all add: set_joiner_def)

lemma mark_fields [simp]:
  "k_core (mark t st s) = k_core s" "k_thr (mark t st s) = set_state t st (k_thr s)" "k_live (mark t st s) = k_live s" "k_idle (mark t st s) = k_idle s"
  "k_current (mark t st s) = k_current s" "k_kernel_as (mark t st s) = k_kernel_as s" "k_active_as (mark t st s) = k_active_as s"
  "k_need_resched (mark t st s) = k_need_resched s" "k_started (mark t st s) = k_started s" "k_nthreads (mark t st s) = k_nthreads s"
  "k_ticks (mark t st s) = k_ticks s" "k_rsp0 (mark t st s) = k_rsp0 s" "k_syscall_kstack (mark t st s) = k_syscall_kstack s"
  "k_owner (mark t st s) = k_owner s" "k_wq (mark t st s) = k_wq s" "k_pipe (mark t st s) = k_pipe s" "k_sock (mark t st s) = k_sock s"
  by (simp_all add: mark_def)

lemma put_core_fields [simp]:
  "k_core (put_core c s) = fst c" "k_thr (put_core c s) = snd c" "k_live (put_core c s) = k_live s" "k_idle (put_core c s) = k_idle s"
  "k_current (put_core c s) = k_current s" "k_kernel_as (put_core c s) = k_kernel_as s" "k_active_as (put_core c s) = k_active_as s"
  "k_need_resched (put_core c s) = k_need_resched s" "k_started (put_core c s) = k_started s" "k_nthreads (put_core c s) = k_nthreads s"
  "k_ticks (put_core c s) = k_ticks s" "k_rsp0 (put_core c s) = k_rsp0 s" "k_syscall_kstack (put_core c s) = k_syscall_kstack s"
  "k_owner (put_core c s) = k_owner s" "k_wq (put_core c s) = k_wq s" "k_pipe (put_core c s) = k_pipe s" "k_sock (put_core c s) = k_sock s"
  by (simp_all add: put_core_def)

lemma binv_wait:
  assumes b: "binv (insert t X) s R S W loc" and t: "t \<notin> X" "t \<noteq> k_idle s" "th_state (k_thr s t) \<noteq> THREAD_ZOMBIE"
    and k: "waits q k" "holds s k" "q_open s q" "\<And>m. q = Q_mutex m \<Longrightarrow> k_owner s m \<noteq> t"
  shows "binv X (set_rsp t k (mark t THREAD_BLOCKED (wq_push q t s))) R S (W(q := W q @ [t])) (loc(t := P_wait q))"
proof (rule binv_place [OF b t])
  let ?s = "set_rsp t k (mark t THREAD_BLOCKED (wq_push q t s))"
  note t0 = binv_member [OF b insertI1] and B = binvD [OF b]
  show "rep ?s R S (W(q := W q @ [t])) (loc(t := P_wait q))"
    by (rule rep_cong [OF rep_push [OF B(1) t0(2,3)]]) simp_all
  show "inv_lists ?s S (W(q := W q @ [t]))"
    using B(6) k(3) q_open_cong [of ?s s] unfolding inv_lists_def by auto
  show "status_ok ?s (loc(t := P_wait q)) t" using k(1) by (simp add: status_ok_def)
  show "th_rsp (k_thr ?s t) \<noteq> K_join u" for u using k(1) by (cases q) auto
qed (use k in auto)

lemma rep_sleep:
  assumes r: "rep s R S W loc" and t: "t \<noteq> 0" "loc t = P_none"
  obtains c where "sched_core_sleep t tick (k_core s, k_thr s) = Some c"
    "rep (put_core c s) R (due_order (k_thr s) t tick S) W (loc(t := P_sleep))"
    "\<And>u. th_state (snd c u) = (if u = t then THREAD_SLEEPING else th_state (k_thr s u))"
    "\<And>u. th_wake_tick (snd c u) = (if u = t then tick else th_wake_tick (k_thr s u))" "agree (snd c) (k_thr s)"
proof -
  note R = repD [OF r]
  have n: "t \<notin> set R" "t \<notin> set S" "t \<notin> set (W q)" for q using t(2) R(3-5) by (metis place.distinct)+
  obtain c where c: "sched_core_sleep t tick (k_core s, k_thr s) = Some c" "core_rep c R (due_order (k_thr s) t tick S)"
    "\<And>u. th_state (snd c u) = (if u = t then THREAD_SLEEPING else th_state (k_thr s u))"
    "\<And>u. th_wake_tick (snd c u) = (if u = t then tick else th_wake_tick (k_thr s u))" "agree (snd c) (k_thr s)"
    "\<And>u. u \<notin> set S \<Longrightarrow> u \<noteq> t \<Longrightarrow> snd c u = k_thr s u"
    using sleep_rep [OF R(1) t(1) n(1,2), of tick] by (metis snd_conv)
  have w: "fifo (snd c) (k_wq s q) (W q)" for q
  proof -
    have "th_next (snd c u) = th_next (k_thr s u)" if "u \<in> set (W q)" for u
      using c(6) [of u] that n(3) [of q] R(4,5) [of u] by force
    then show ?thesis using R(2) [of q] fifo_cong [of "W q" "snd c" "k_thr s"] by blast
  qed
  have "set (due_order (k_thr s) t tick S) = insert t (set S)"
    by (simp add: due_order_def) (metis set_append takeWhile_dropWhile_id)
  then have "rep (put_core c s) R (due_order (k_thr s) t tick S) W (loc(t := P_sleep))"
    using c(2) w n R(3-5) by (auto simp: rep_def)
  then show thesis using that c(1,3-5) by blast
qed

lemma agreeD:
  assumes "agree th' th"
  shows "th_rsp (th' u) = th_rsp (th u)" "th_id (th' u) = th_id (th u)" "th_joiner (th' u) = th_joiner (th u)"
    "th_stack_base (th' u) = th_stack_base (th u)" "th_kstack_top (th' u) = th_kstack_top (th u)" "th_as (th' u) = th_as (th u)"
  using assms by (simp_all add: agree_def)

lemma binv_sleep:
  assumes b: "binv (insert t X) s R S W loc" and t: "t \<notin> X" "t \<noteq> k_idle s" "th_state (k_thr s t) \<noteq> THREAD_ZOMBIE"
  obtains c S' where "sched_core_sleep t tick (k_core s, k_thr s) = Some c"
    "binv X (set_rsp t K_run (put_core c s)) R S' W (loc(t := P_sleep))" "agree (snd c) (k_thr s)"
    "\<And>u. th_state (snd c u) = (if u = t then THREAD_SLEEPING else th_state (k_thr s u))"
proof -
  note t0 = binv_member [OF b insertI1] and B = binvD [OF b]
  obtain c where c: "sched_core_sleep t tick (k_core s, k_thr s) = Some c"
    "rep (put_core c s) R (due_order (k_thr s) t tick S) W (loc(t := P_sleep))"
    "\<And>u. th_state (snd c u) = (if u = t then THREAD_SLEEPING else th_state (k_thr s u))"
    "\<And>u. th_wake_tick (snd c u) = (if u = t then tick else th_wake_tick (k_thr s u))" "agree (snd c) (k_thr s)"
    using rep_sleep [OF B(1) t0(2,3)] by blast
  note A = agreeD [OF c(5)]
  let ?s = "set_rsp t K_run (put_core c s)"
  have "binv X ?s R (due_order (k_thr s) t tick S) W (loc(t := P_sleep))"
  proof (rule binv_place [OF b t])
    show "rep ?s R (due_order (k_thr s) t tick S) W (loc(t := P_sleep))" by (rule rep_cong [OF c(2)]) simp_all
    have "t \<notin> set S" using repD(4) [OF B(1), of t] t0(3) by simp
    from due_order_sorted [OF _ refl this, of "k_thr s" tick] B(6)
    have "sorted (map (\<lambda>u. if u = t then tick else th_wake_tick (k_thr s u)) (due_order (k_thr s) t tick S))"
      by (simp add: inv_lists_def comp_def fun_upd_def)
    then show "inv_lists ?s (due_order (k_thr s) t tick S) W"
      using B(6) q_open_cong [of ?s s] c(4) by (simp add: inv_lists_def)
    show "status_ok ?s (loc(t := P_sleep)) t" by (simp add: status_ok_def c(3))
  qed (use A c(3) in auto)
  then show thesis using that c(1,3,5) by blast
qed

lemma binv_wake_due:
  assumes b: "binv X s R S W loc"
  obtains n c R' S' loc' where "sched_core_wake_due now (k_core s, k_thr s) = Some (n, c)"
    "binv X (put_core c s) (R @ R') S' W loc'" "agree (snd c) (k_thr s)" "S = R' @ S'"
    "\<And>u. loc u = P_none \<Longrightarrow> loc' u = P_none" "\<And>u. loc u = P_none \<Longrightarrow> th_state (snd c u) = th_state (k_thr s u)"
    "R' = takeWhile (\<lambda>u. th_wake_tick (k_thr s u) \<le> now) S"
proof -
  note B = binvD [OF b]
  note R = repD [OF B(1)]
  define w where "w = th_wake_tick \<circ> k_thr s"
  then have w: "w = th_wake_tick \<circ> snd (k_core s, k_thr s)" by simp
  let ?A = "takeWhile (\<lambda>u. w u \<le> now) S" and ?D = "dropWhile (\<lambda>u. w u \<le> now) S"
  obtain c where c: "sched_core_wake_due now (k_core s, k_thr s) = Some (u32 (length ?A), c)" "core_rep c (R @ ?A) ?D"
    "\<And>u. th_state (snd c u) = (if u \<in> set ?A then THREAD_READY else th_state (k_thr s u))"
    "th_wake_tick \<circ> snd c = w" "agree (snd c) (k_thr s)" "\<And>u. u \<notin> set R \<Longrightarrow> u \<notin> set S \<Longrightarrow> snd c u = k_thr s u"
    using wake_due_rep [OF R(1) w, of now, unfolded snd_conv] by blast
  define loc' where "loc' u = (if u \<in> set ?A then P_ready else loc u)" for u
  let ?s = "put_core c s"
  have S: "S = ?A @ ?D" by simp
  have A: "u \<in> set ?A \<Longrightarrow> loc u = P_sleep" for u using R(4) [of u] set_takeWhileD by metis
  have "set S = set ?A \<union> set ?D" by (simp flip: set_append)
  moreover have "distinct (?A @ ?D)" using core_repD(4) [OF R(1)] by simp
  ultimately have D: "u \<in> set ?D \<longleftrightarrow> u \<in> set S \<and> u \<notin> set ?A" for u by (auto simp only: distinct_append)
  note G = agreeD [OF c(5)]
  have w': "fifo (snd c) (k_wq s q) (W q)" for q
  proof -
    have "th_next (snd c u) = th_next (k_thr s u)" if "u \<in> set (W q)" for u using c(6) [of u] that R(3-5) [of u] by force
    then show ?thesis using R(2) [of q] fifo_cong [of "W q" "snd c" "k_thr s"] by blast
  qed
  have "rep ?s (R @ ?A) ?D W loc'"
    using c(2) w' R(3-5) D A by (auto simp: rep_def loc'_def)
  moreover have "inv_base X ?s loc'"
  proof -
    have L: "loc u = P_none \<Longrightarrow> loc' u = P_none" for u using A [of u] by (auto simp: loc'_def)
    have "loc (k_idle s) = P_none" using B(2) by (simp add: inv_base_def)
    then have "k_idle s \<notin> set ?A" using A [of "k_idle s"] by auto
    then show ?thesis using B(2) L G(1) c(3) [of "k_idle s"] by (simp add: inv_base_def)
  qed
  moreover have "inv_threads X ?s loc'"
  proof (rule inv_threadsI)
    fix u assume u: "u \<in> k_live ?s" "u \<notin> X" "u \<noteq> k_idle ?s"
    have st: "status_ok s loc u" using inv_threadsD(1) [OF B(3)] u by simp
    have zk: "th_state (snd c v) = THREAD_ZOMBIE" if "th_state (k_thr s v) = THREAD_ZOMBIE" for v
    proof -
      have "loc v \<noteq> P_sleep"
      proof
        assume l: "loc v = P_sleep"
        then have "v \<in> k_live s" "v \<notin> X" "v \<noteq> k_idle s"
          using B(2) unfolding inv_base_def by (metis place.distinct)+
        then show False using inv_threadsD(1) [OF B(3), of v] l that by (simp add: status_ok_def)
      qed
      then show ?thesis using A [of v] c(3) that by auto
    qed
    show "status_ok ?s loc' u"
    proof (cases "u \<in> set ?A")
      case True
      then have "th_rsp (k_thr s u) = K_run" using st A [OF True] by (simp add: status_ok_def)
      then show ?thesis using True c(3) G by (simp add: status_ok_def loc'_def runnable_def)
    next
      case False
      show ?thesis by (rule status_keep [OF st]) (use False c(3) G zk in \<open>auto simp: loc'_def\<close>)
    qed
  next
    fix u assume "u \<in> k_live ?s"
    then show "holds ?s (th_rsp (k_thr ?s u))"
      using inv_threadsD(2) [OF B(3), of u] holds_cong [of ?s s] G by simp
  qed
  moreover have "inv_joins X ?s loc'"
  proof (rule inv_joinsI)
    fix a b u assume "a \<in> k_live ?s" "b \<in> k_live ?s" "th_rsp (k_thr ?s a) = K_join u" "th_rsp (k_thr ?s b) = K_join u"
    then show "a = b" using inv_joinsD(1) [OF B(4), of a b u] G by simp
  next
    fix u j assume "u \<in> k_live ?s" "th_joiner (k_thr ?s u) = j" "j \<noteq> 0"
    then have j: "j \<in> k_live s \<and> j \<notin> X \<and> loc j = P_none \<and> th_rsp (k_thr s j) = K_join u
        \<and> th_state (k_thr s j) = THREAD_BLOCKED \<and> th_state (k_thr s u) \<noteq> THREAD_ZOMBIE"
      using inv_joinsD(2) [OF B(4), of u j] G by simp
    then have "j \<notin> set ?A" using A by auto
    with j show "j \<in> k_live ?s \<and> j \<notin> X \<and> loc' j = P_none \<and> th_rsp (k_thr ?s j) = K_join u
        \<and> th_state (k_thr ?s j) = THREAD_BLOCKED \<and> th_state (k_thr ?s u) \<noteq> THREAD_ZOMBIE"
      using G c(3) by (simp add: loc'_def)
  qed
  moreover have "inv_locks ?s loc'" using B(5) c(3) unfolding inv_locks_def loc'_def by auto
  moreover have "inv_lists ?s ?D W"
  proof -
    have "th_wake_tick (snd c u) = th_wake_tick (k_thr s u)" for u using c(4) by (metis comp_apply w_def)
    then show ?thesis using B(6) q_open_cong [of ?s s] unfolding inv_lists_def
      by (simp add: dropWhile_eq_drop flip: drop_map)
  qed
  moreover have "inv_objects ?s" using B(7) unfolding inv_objects_def by simp
  ultimately have "binv X ?s (R @ ?A) ?D W loc'" by (simp add: binv_def)
  then show thesis
    by (rule that [OF c(1) _ c(5) S]) (use A c(3) in \<open>auto simp: loc'_def w_def\<close>)
qed

section \<open>Switching\<close>

lemma binv_dequeue:
  assumes b: "binv X s (t # R) S W loc"
  defines "d \<equiv> sched_core_dequeue (k_core s, k_thr s)"
  shows "fst d = t" "t \<noteq> 0" "t \<in> k_live s" "t \<noteq> k_idle s" "t \<notin> X" "th_state (k_thr s t) = THREAD_READY" "runnable s t"
    "binv (insert t X) (put_core (snd d) s) R S W (loc(t := P_none))"
proof -
  let ?s = "put_core (snd d) s"
  note B = binvD [OF b]
  have l: "loc t = P_ready" using repD(3) [OF B(1), of t] by simp
  then have n: "loc t \<noteq> P_none" by simp
  show d: "fst d = t" "t \<noteq> 0" using rep_dequeue(1,2) [OF B(1)] by (simp_all add: d_def)
  have r: "rep ?s R S W (loc(t := P_none))" unfolding d_def by (rule rep_dequeue [OF B(1)])
  have "inv_lists ?s S W" using B(6) q_open_cong [of ?s s] unfolding inv_lists_def d_def by auto
  note L = binv_leave [OF b n r this]
  show "t \<in> k_live s" "t \<noteq> k_idle s" "t \<notin> X" "binv (insert t X) ?s R S W (loc(t := P_none))"
    by (rule L; simp add: d_def)+
  have "status_ok s loc t" by (rule L; simp add: d_def)
  then show "th_state (k_thr s t) = THREAD_READY" "runnable s t" using l by (simp_all add: status_ok_def)
qed

text \<open>What the invariant does not read may change.\<close>

lemma binv_cong:
  assumes b: "binv X s R S W loc"
    and same: "k_core s' = k_core s" "k_wq s' = k_wq s" "k_live s' = k_live s" "k_idle s' = k_idle s"
      "k_nthreads s' = k_nthreads s" "k_started s' = k_started s" "k_pipe s' = k_pipe s" "k_sock s' = k_sock s" "k_owner s' = k_owner s"
    and thr: "\<And>u. th_rsp (k_thr s' u) = th_rsp (k_thr s u)" "\<And>u. th_state (k_thr s' u) = th_state (k_thr s u)"
      "\<And>u. th_joiner (k_thr s' u) = th_joiner (k_thr s u)" "\<And>u. th_stack_base (k_thr s' u) = th_stack_base (k_thr s u)"
      "\<And>u. th_next (k_thr s' u) = th_next (k_thr s u)" "\<And>u. th_wake_tick (k_thr s' u) = th_wake_tick (k_thr s u)"
  shows "binv X s' R S W loc"
proof -
  note B = binvD [OF b]
  have "rep s' R S W loc" by (rule rep_cong [OF B(1)]) (use same thr in auto)
  moreover have "inv_base X s' loc" using B(2) by (simp add: inv_base_def same thr)
  moreover have "inv_threads X s' loc"
  proof (rule inv_threadsI)
    fix u assume u: "u \<in> k_live s'" "u \<notin> X" "u \<noteq> k_idle s'"
    show "status_ok s' loc u" by (rule status_keep [OF inv_threadsD(1) [OF B(3)]]) (use u same thr in auto)
  next
    fix u assume "u \<in> k_live s'"
    then show "holds s' (th_rsp (k_thr s' u))"
      using inv_threadsD(2) [OF B(3), of u] holds_cong [of s' s] same thr by simp
  qed
  moreover have "inv_joins X s' loc" using B(4) by (simp add: inv_joins_def same thr)
  moreover have "inv_locks s' loc" using B(5) by (simp add: inv_locks_def same thr)
  moreover have "inv_lists s' S W" using B(6) q_open_cong [of s' s] by (simp add: inv_lists_def same thr)
  moreover have "inv_objects s'" using B(7) by (simp add: inv_objects_def same)
  ultimately show ?thesis by (simp add: binv_def)
qed

lemma binv_mark:
  assumes b: "binv (insert t X) s R S W loc" and st: "th_state (k_thr s t) \<noteq> THREAD_ZOMBIE"
  shows "binv (insert t X) (mark t THREAD_RUNNING s) R S W loc"
proof -
  let ?s = "mark t THREAD_RUNNING s"
  note B = binvD [OF b]
  have "rep ?s R S W loc" by (rule rep_cong [OF B(1)]) simp_all
  moreover have "inv_base (insert t X) ?s loc" using B(2) by (simp add: inv_base_def)
  moreover have "inv_threads (insert t X) ?s loc"
  proof (rule inv_threadsI)
    fix u assume u: "u \<in> k_live ?s" "u \<notin> insert t X" "u \<noteq> k_idle ?s"
    show "status_ok ?s loc u" by (rule status_keep [OF inv_threadsD(1) [OF B(3)]]) (use u st in auto)
  next
    fix u assume "u \<in> k_live ?s"
    then show "holds ?s (th_rsp (k_thr ?s u))"
      using inv_threadsD(2) [OF B(3), of u] holds_cong [of ?s s] by simp
  qed
  moreover have "inv_joins (insert t X) ?s loc" using B(4) unfolding inv_joins_def by auto
  moreover have "inv_locks ?s loc" using B(5) unfolding inv_locks_def by auto
  moreover have "inv_lists ?s S W" using B(6) q_open_cong [of ?s s] by (simp add: inv_lists_def)
  moreover have "inv_objects ?s" using B(7) by (simp add: inv_objects_def)
  ultimately show ?thesis by (simp add: binv_def)
qed

lemma binv_release_idle:
  assumes b: "binv {} s R S W loc"
  shows "binv {k_idle s} s R S W loc"
proof -
  note B = binvD [OF b]
  have "inv_joins {k_idle s} s loc" using B(2,4) unfolding inv_joins_def inv_base_def by auto
  then show ?thesis using B unfolding binv_def inv_base_def inv_threads_def by simp
qed

lemma switch_fields:
  "k_current (switch_to n s) = n" "th_state (k_thr (switch_to n s) n) = THREAD_RUNNING"
  by (simp_all add: switch_to_def Let_def)

lemma switch_inv:
  assumes b: "binv {n} s R S W loc" and n: "runnable s n" "th_state (k_thr s n) \<noteq> THREAD_ZOMBIE" and c: "inv_cpu s"
  shows "sinv (switch_to n s) R S W loc"
proof -
  have m: "binv {n} (mark n THREAD_RUNNING s) R S W loc" using binv_mark [of n "{}"] b n(2) by simp
  have "binv {n} (switch_to n s) R S W loc"
    by (rule binv_cong [OF m]) (simp_all add: switch_to_def Let_def)
  moreover have "runnable (switch_to n s) n"
    by (rule runnable_keep [OF n(1)]) (use n(2) in \<open>auto simp: switch_to_def Let_def\<close>)
  moreover have "inv_cpu (switch_to n s)" using c by (auto simp: inv_cpu_def switch_to_def Let_def)
  ultimately show ?thesis by (simp add: sinv_def switch_fields)
qed

lemma schedule_inv:
  assumes b: "binv {} (set_rsp (k_current s) k s) R S W loc" and c: "inv_cpu s"
    and i: "k_current s = k_idle s \<Longrightarrow> th_state (k_thr s (k_idle s)) = THREAD_RUNNING" and l: "k_current s \<in> k_live s"
  obtains loc' where "sinv (schedule k s) (tl R) S W loc'"
    "k_current (schedule k s) = (if R = [] then k_idle s else hd R)"
proof -
  let ?s = "set_rsp (k_current s) k s"
  let ?d = "sched_core_dequeue (k_core ?s, k_thr ?s)"
  have c': "inv_cpu ?s" using c by (simp add: inv_cpu_def Let_def)
  show thesis
  proof (cases R)
    case (Cons n R')
    note D = binv_dequeue [OF b [unfolded Cons]]
    have b': "binv {n} (put_core (snd ?d) ?s) R' S W (loc(n := P_none))" using D(8) by simp
    have "sinv (switch_to n (put_core (snd ?d) ?s)) R' S W (loc(n := P_none))"
    proof (rule switch_inv [OF b'])
      show "runnable (put_core (snd ?d) ?s) n" by (rule runnable_keep [OF D(7)]) auto
    qed (use D(6) c' in \<open>auto simp: inv_cpu_def Let_def\<close>)
    moreover have "schedule k s = switch_to n (put_core (snd ?d) ?s)"
      using D(1,2) by (simp add: schedule_def Let_def)
    ultimately show ?thesis using that Cons switch_fields(1) by simp
  next
    case Nil
    have e: "fst ?d = 0" using core_repD(1) [OF repD(1) [OF binvD(1) [OF b]]] Nil ready.pop_empty by simp
    note id = binv_release_idle [OF b]
    show ?thesis
    proof (cases "k_current s = k_idle s")
      case True
      then have "schedule k s = ?s" using e i by (simp add: schedule_def Let_def)
      moreover have "sinv ?s [] S W loc"
        using id Nil True i c' binvD(2) [OF b] by (auto simp: sinv_def runnable_def inv_base_def)
      ultimately show ?thesis using that Nil True by simp
    next
      case False
      have "status_ok ?s loc (k_current s)" by (rule inv_threadsD(1) [OF binvD(3) [OF b]]) (use False l in auto)
      then have "th_state (k_thr s (k_current s)) \<noteq> THREAD_RUNNING" by (auto simp: status_ok_def split: place.splits)
      then have "schedule k s = switch_to (k_idle s) ?s" using e by (simp add: schedule_def Let_def)
      moreover have "sinv (switch_to (k_idle s) ?s) [] S W loc"
        by (rule switch_inv) (use id Nil binvD(2) [OF b] c' in \<open>auto simp: inv_base_def runnable_def\<close>)
      ultimately show ?thesis using that Nil switch_fields(1) by simp
    qed
  qed
qed

end
