(* ===== verification/Sched_Steps.thy ===== *)
theory Sched_Steps
  imports Sched_Inv
begin

text \<open>
  Every operation of the thread machine keeps the invariant, trips no assertion when the callers keep
  their rules, and changes the ready queue only by appending to it and by dispatching its head.
\<close>

section \<open>Outcomes\<close>

text \<open>
  \<open>moved\<close> describes a step: the threads \<open>ys\<close> were made ready, in this order, and then, if \<open>sw\<close>, the
  oldest ready thread or the idle thread was dispatched.
\<close>

definition moved :: "kst \<Rightarrow> nat list \<Rightarrow> kst \<Rightarrow> nat list \<Rightarrow> (qid \<Rightarrow> nat list) \<Rightarrow> nat list \<Rightarrow> bool \<Rightarrow> bool" where
  "moved s R s' S' W' ys sw \<longleftrightarrow> (\<exists>loc'. sinv s' (if sw then tl (R @ ys) else R @ ys) S' W' loc')
     \<and> k_current s' = (if sw then if R @ ys = [] then k_idle s else hd (R @ ys) else k_current s) \<and> k_idle s' = k_idle s"

lemma schedule_idle [simp]: "k_idle (schedule k s) = k_idle s"
  by (simp add: schedule_def switch_to_def Let_def)

lemma schedule_moved:
  assumes "binv {} (set_rsp (k_current s) k s) (R @ ys) S' W' loc" "inv_cpu s"
    "k_current s = k_idle s \<Longrightarrow> th_state (k_thr s (k_idle s)) = THREAD_RUNNING" "k_current s \<in> k_live s" "k_idle s = k_idle s0"
  shows "moved s0 R (schedule k s) S' W' ys True"
  by (rule schedule_inv [OF assms(1-4)]) (use assms(5) in \<open>auto simp: moved_def\<close>)

lemma sinvD:
  assumes "sinv s R S W loc"
  shows "binv {k_current s} s R S W loc" "th_state (k_thr s (k_current s)) = THREAD_RUNNING" "runnable s (k_current s)" "inv_cpu s"
    "k_current s \<in> k_live s" "k_current s \<noteq> 0" "k_idle s \<noteq> 0"
proof -
  show b: "binv {k_current s} s R S W loc" using assms by (simp add: sinv_def)
  show "th_state (k_thr s (k_current s)) = THREAD_RUNNING" "runnable s (k_current s)" "inv_cpu s" using assms by (simp_all add: sinv_def)
  show "k_current s \<in> k_live s" "k_current s \<noteq> 0" using binv_member [OF b] by simp_all
  show "k_idle s \<noteq> 0" using binvD(2) [OF b] unfolding inv_base_def by metis
qed

lemma live_nonzero: "binv X s R S W loc \<Longrightarrow> u \<in> k_live s \<Longrightarrow> u \<noteq> 0"
  using binvD(2) [of X s R S W loc] unfolding inv_base_def by metis

lemma moved_stay:
  assumes "sinv s' (R @ ys) S' W' loc'" "k_current s' = k_current s" "k_idle s' = k_idle s"
  shows "moved s R s' S' W' ys False"
  using assms by (auto simp: moved_def)

lemma moved_append:
  assumes "moved t (R @ R') s' S' W' ys sw" "k_current t = k_current s" "k_idle t = k_idle s"
  shows "moved s R s' S' W' (R' @ ys) sw"
  using assms unfolding moved_def append_assoc by metis

lemma set_rsp_same: "set_rsp t (th_rsp (k_thr s t)) s = s"
  by (simp add: set_rsp_def)

lemma set_rsp_enqueue: "set_rsp u k (enqueue t s) = enqueue t (set_rsp u k s)"
  by (auto simp: set_rsp_def enqueue_def put_core_def sched_core_enqueue_def Let_def set_next_def set_state_def fun_eq_iff)

lemma set_joiner_enqueue: "set_joiner u j (enqueue t s) = enqueue t (set_joiner u j s)"
  by (auto simp: set_joiner_def enqueue_def put_core_def sched_core_enqueue_def Let_def set_next_def set_state_def fun_eq_iff)

section \<open>Waking and blocking\<close>

text \<open>What a wakeup leaves alone.\<close>

definition quiet :: "kst \<Rightarrow> kst \<Rightarrow> bool" where
  "quiet s' s \<longleftrightarrow> k_live s' = k_live s \<and> k_idle s' = k_idle s \<and> k_current s' = k_current s \<and> k_kernel_as s' = k_kernel_as s
     \<and> k_active_as s' = k_active_as s \<and> k_rsp0 s' = k_rsp0 s \<and> k_syscall_kstack s' = k_syscall_kstack s \<and> k_owner s' = k_owner s
     \<and> k_pipe s' = k_pipe s \<and> k_sock s' = k_sock s \<and> k_ret s' = k_ret s
     \<and> (\<forall>u. th_rsp (k_thr s' u) = th_rsp (k_thr s u) \<and> th_joiner (k_thr s' u) = th_joiner (k_thr s u)
          \<and> th_as (k_thr s' u) = th_as (k_thr s u) \<and> th_kstack_top (k_thr s' u) = th_kstack_top (k_thr s u))
     \<and> (\<forall>u. th_state (k_thr s u) \<noteq> THREAD_BLOCKED \<longrightarrow> th_state (k_thr s' u) = th_state (k_thr s u))"

lemma quiet_refl [simp]: "quiet s s"
  by (simp add: quiet_def)

lemma quiet_trans: "quiet a b \<Longrightarrow> quiet b c \<Longrightarrow> quiet a c"
  unfolding quiet_def by metis

lemma quiet_cpu: "quiet s' s \<Longrightarrow> inv_cpu s \<Longrightarrow> inv_cpu s'"
  by (simp add: quiet_def inv_cpu_def Let_def)

lemma quiet_runnable:
  assumes "quiet s' s" "runnable s u"
  shows "runnable s' u"
  by (rule runnable_keep [OF assms(2)]) (use assms(1) in \<open>auto simp: quiet_def\<close>)

lemma quiet_sinv:
  assumes "sinv s R S W loc" "quiet s' s" "binv {k_current s} s' R' S' W' loc'"
  shows "sinv s' R' S' W' loc'"
  using assms(3) sinvD [OF assms(1)] quiet_cpu [OF assms(2)] quiet_runnable [OF assms(2), of "k_current s"] assms(2)
  by (simp add: sinv_def quiet_def)

lemma wake_one_inv:
  assumes b: "binv X s R S W loc" and q: "\<And>m. q \<noteq> Q_mutex m"
  obtains s' loc' where "wq_wake_one q s = Some s'" "binv X s' (R @ take 1 (W q)) S (W(q := tl (W q))) loc'" "quiet s' s"
proof (cases "W q")
  case Nil
  have "wq_take q s = (0, s)" by (rule wait.pop_empty) (use repD(2) [OF binvD(1) [OF b], of q] Nil in simp)
  then show ?thesis using that [of s loc] b Nil by (simp add: wq_wake_one_def fun_upd_idem)
next
  case (Cons t ws)
  note T = binv_take [OF b Cons]
  let ?s = "snd (wq_take q s)"
  have "runnable s t" using T(7) q by (cases q) (auto simp: runnable_def elim!: on_pipe_read.elims on_pipe_write.elims)
  then have r: "runnable ?s t" by (rule runnable_keep) simp_all
  have "binv X (enqueue t ?s) (R @ [t]) S (W(q := ws)) ((loc(t := P_none))(t := P_ready))"
    by (rule binv_enqueue [OF T(8) T(4)]) (use T(3,6) r in simp_all)
  moreover have "wq_wake_one q s = Some (enqueue t ?s)"
    using T(1,5,6) by (simp add: wq_wake_one_def sched_wake_def case_prod_beta)
  moreover have "quiet (enqueue t ?s) s" using T(6) by (auto simp: quiet_def)
  ultimately show ?thesis using that Cons by simp
qed

lemma set_next_enqueue_path:
  assumes r: "rep s R S W loc" and p: "path (k_thr s) t (t # ts)" and d: "distinct (t # ts)" and l: "\<forall>u \<in> set (t # ts). loc u = P_none"
  shows "path (k_thr (enqueue t (s\<lparr>k_thr := set_next t 0 (k_thr s)\<rparr>))) (th_next (k_thr s t)) ts"
proof -
  let ?s = "s\<lparr>k_thr := set_next t 0 (k_thr s)\<rparr>"
  have n: "u \<notin> set R" if "u \<in> set (t # ts)" for u using l that repD(3) [OF r, of u] by auto
  have "fifo (k_thr ?s) (ready_ends (k_core ?s, k_thr ?s)) R"
    using core_repD(1) [OF repD(1) [OF r]] n [of t] by simp
  then show ?thesis
    using ready.push_path [of "(k_core ?s, k_thr ?s)" R "th_next (k_thr s t)" ts t] p d n by (auto simp: disjoint_iff)
qed

lemma wake_list_inv:
  assumes "binv (set ts \<union> X) s R S W loc" "path (k_thr s) t ts" "distinct ts"
    and "\<And>u. u \<in> set ts \<Longrightarrow> u \<notin> X \<and> u \<noteq> k_idle s \<and> th_state (k_thr s u) = THREAD_BLOCKED \<and> runnable s u"
  obtains s' loc' where "wake_list t s = Some s'" "binv X s' (R @ ts) S W loc'" "quiet s' s"
  using assms
proof (induction ts arbitrary: t s R loc thesis)
  case Nil
  have "wake_list t s = Some s" using Nil.prems(3) by (subst wake_list.simps) simp
  then show ?case using Nil.prems(1) [of s loc] Nil.prems(2) by simp
next
  case (Cons u ts)
  have u: "t = u" "u \<noteq> 0" "u \<notin> set ts" using Cons.prems(3,4) by auto
  let ?s1 = "s\<lparr>k_thr := set_next u 0 (k_thr s)\<rparr>" and ?Y = "set ts \<union> X"
  note B = binvD [OF Cons.prems(2)]
  have l: "\<forall>v \<in> set (u # ts). loc v = P_none" using B(2) by (simp add: inv_base_def)
  have ok: "u \<notin> ?Y" "u \<noteq> k_idle s" "th_state (k_thr s u) = THREAD_BLOCKED" "runnable s u"
    using Cons.prems(5) [of u] u(3) by auto
  have r1: "rep ?s1 R S W loc"
  proof -
    have "u \<notin> set R" "u \<notin> set S" "u \<notin> set (W q)" for q using l repD(3-5) [OF B(1), of u] by auto
    then show ?thesis using B(1) by (simp add: rep_def core_rep_def)
  qed
  have l1: "inv_lists ?s1 S W" using B(6) q_open_cong [of ?s1 s] by (simp add: inv_lists_def)
  have "vacate {} loc = loc" by (simp add: vacate_def fun_eq_iff)
  then have "binv (insert u ?Y) ?s1 R S W loc"
    using binv_vacate(2) [OF Cons.prems(2), of "{}" ?s1 R S W] r1 l1 by simp
  moreover have "runnable ?s1 u" by (rule runnable_keep [OF ok(4)]) simp_all
  ultimately have b2: "binv ?Y (enqueue u ?s1) (R @ [u]) S W (loc(u := P_ready))"
    by (intro binv_enqueue) (use ok in auto)
  have q2: "quiet (enqueue u ?s1) s" using ok(3) by (auto simp: quiet_def)
  have p2: "path (k_thr (enqueue u ?s1)) (th_next (k_thr s u)) ts"
    by (rule set_next_enqueue_path [OF B(1) _ _ l]) (use Cons.prems(3,4) u in auto)
  have "v \<notin> X \<and> v \<noteq> k_idle (enqueue u ?s1) \<and> th_state (k_thr (enqueue u ?s1) v) = THREAD_BLOCKED \<and> runnable (enqueue u ?s1) v"
    if "v \<in> set ts" for v
    using Cons.prems(5) [of v] that u(3) quiet_runnable [OF q2, of v] by auto
  then obtain s' loc' where s': "wake_list (th_next (k_thr s u)) (enqueue u ?s1) = Some s'"
    "binv X s' ((R @ [u]) @ ts) S W loc'" "quiet s' (enqueue u ?s1)"
    using Cons.IH [OF _ b2 p2] Cons.prems(4) by auto
  have "wake_list t s = Some s'"
    using u ok(3) s'(1) by (subst wake_list.simps) (simp add: sched_wake_def Let_def)
  then show ?case using Cons.prems(1) [of s' loc'] s'(2) quiet_trans [OF s'(3) q2] by simp
qed

lemma wake_all_inv:
  assumes b: "binv X s R S W loc" and q: "\<And>m. q \<noteq> Q_mutex m"
  obtains s' loc' where "wq_wake_all q s = Some s'" "binv X s' (R @ W q) S (W(q := [])) loc'" "quiet s' s"
proof -
  let ?s = "s\<lparr>k_wq := (k_wq s)(q := (0, 0))\<rparr>" and ?T = "set (W q)"
  note B = binvD [OF b]
  note R = repD [OF B(1)]
  have T: "loc t = P_wait q" if "t \<in> ?T" for t using R(5) that by blast
  have "fifo (k_thr s) (k_wq ?s q') ((W(q := [])) q')" for q' using R(2) [of q'] by (simp add: fifo_def)
  then have r: "rep ?s R S (W(q := [])) (vacate ?T loc)"
    using R(1,3-5) T by (auto simp: rep_def vacate_def)
  have l: "inv_lists ?s S (W(q := []))" using B(6) q_open_cong [of ?s s] by (auto simp: inv_lists_def)
  have V: "t \<in> k_live s \<and> t \<noteq> k_idle s \<and> t \<notin> X \<and> status_ok s loc t" if "t \<in> ?T" for t
    by (rule binv_vacate(1) [OF b _ r l]) (use T that in auto)
  have b': "binv (?T \<union> X) ?s R S (W(q := [])) (vacate ?T loc)"
    by (rule binv_vacate(2) [OF b _ r l]) (use T in auto)
  have ok: "u \<notin> X \<and> u \<noteq> k_idle ?s \<and> th_state (k_thr ?s u) = THREAD_BLOCKED \<and> runnable ?s u" if "u \<in> ?T" for u
  proof -
    have "th_state (k_thr s u) = THREAD_BLOCKED" "waits q (th_rsp (k_thr s u))"
      using V [OF that] T [OF that] by (simp_all add: status_ok_def)
    moreover from this(2) q have "runnable s u"
      by (cases q) (auto simp: runnable_def elim!: on_pipe_read.elims on_pipe_write.elims)
    then have "runnable ?s u" by (rule runnable_keep) simp_all
    ultimately show ?thesis using V [OF that] by simp
  qed
  have p: "path (k_thr ?s) (fst (k_wq s q)) (W q)" "distinct (W q)" using R(2) [of q] by (simp_all add: fifo_def)
  obtain s' loc' where "wake_list (fst (k_wq s q)) ?s = Some s'" "binv X s' (R @ W q) S (W(q := [])) loc'" "quiet s' ?s"
    using wake_list_inv [OF b' p ok] by blast
  then show thesis using that by (simp add: wq_wake_all_def quiet_def)
qed

lemma block_moved:
  assumes b: "binv {k_current s} s (R @ ys) S W loc" and s: "k_current s \<noteq> k_idle s" "th_state (k_thr s (k_current s)) = THREAD_RUNNING" "inv_cpu s"
    and k: "waits q k" "holds s k" "q_open s q" "\<And>m. q = Q_mutex m \<Longrightarrow> k_owner s m \<noteq> k_current s" and i: "k_idle s = k_idle s0"
  obtains s' where "sched_block k (wq_push q (k_current s) s) = Some s'"
    "moved s0 R s' S (W(q := W q @ [k_current s])) ys True"
proof -
  let ?c = "k_current s"
  let ?s = "mark ?c THREAD_BLOCKED (wq_push q ?c s)"
  have "binv {} (set_rsp ?c k ?s) (R @ ys) S (W(q := W q @ [?c])) (loc(?c := P_wait q))"
    by (rule binv_wait) (use assms in auto)
  then have "moved s0 R (schedule k ?s) S (W(q := W q @ [?c])) ys True"
    by (intro schedule_moved) (use s binv_member [OF b] i in \<open>auto simp: inv_cpu_def Let_def\<close>)
  moreover have "sched_block k (wq_push q ?c s) = Some (schedule k ?s)" using s by (simp add: sched_block_def)
  ultimately show thesis using that by blast
qed

section \<open>Threads\<close>

lemma binv_drop_idle:
  assumes "binv {k_idle s} s R S W loc"
  shows "binv {} s R S W loc"
  using assms unfolding binv_def inv_base_def inv_threads_def inv_joins_def by auto

text \<open>The running thread goes to the end of the ready queue.\<close>

lemma requeue_moved:
  assumes k: "sinv s R S W loc"
  shows "moved s R (schedule (th_rsp (k_thr s (k_current s))) (if k_current s \<noteq> k_idle s then enqueue (k_current s) s else s))
    S W (if k_current s \<noteq> k_idle s then [k_current s] else []) True"
proof (cases "k_current s = k_idle s")
  case True
  have "binv {} s R S W loc" by (rule binv_drop_idle) (use sinvD(1) [OF k] True in simp)
  then show ?thesis using True sinvD [OF k] by (intro schedule_moved) (auto simp: set_rsp_same)
next
  case False
  let ?c = "k_current s"
  have "binv {} (enqueue ?c s) (R @ [?c]) S W (loc(?c := P_ready))"
    by (rule binv_enqueue) (use sinvD [OF k] False in auto)
  moreover have "set_rsp (k_current (enqueue ?c s)) (th_rsp (k_thr s ?c)) (enqueue ?c s) = enqueue ?c s"
    using set_rsp_same [of ?c "enqueue ?c s"] by simp
  ultimately show ?thesis using False sinvD [OF k]
    by simp (intro schedule_moved, auto simp: inv_cpu_def Let_def)
qed

lemma yield_moved:
  assumes "sinv s R S W loc" "th_rsp (k_thr s (k_current s)) = K_run"
  shows "moved s R (sched_yield s) S W (if k_current s \<noteq> k_idle s then [k_current s] else []) True"
  using requeue_moved [OF assms(1)] assms(2) by (simp add: sched_yield_def)

lemma sinv_cong:
  assumes "sinv s R S W loc" "binv {k_current s} s' R S W loc" "k_current s' = k_current s"
    "\<And>u. th_rsp (k_thr s' u) = th_rsp (k_thr s u)" "\<And>u. th_state (k_thr s' u) = th_state (k_thr s u)" "k_owner s' = k_owner s" "inv_cpu s'"
  shows "sinv s' R S W loc"
  using assms runnable_keep [OF sinvD(3) [OF assms(1)], of s'] by (simp add: sinv_def)

lemma preempt_moved:
  assumes k: "sinv s R S W loc"
  shows "moved s R (sched_preempt s) S W (if k_need_resched s \<and> k_current s \<noteq> k_idle s then [k_current s] else []) (k_need_resched s)"
proof (cases "k_need_resched s")
  case False
  then show ?thesis using k by (auto simp: sched_preempt_def moved_def)
next
  case True
  let ?s = "s\<lparr>k_need_resched := False\<rparr>"
  have st: "k_started s" using binvD(2) [OF sinvD(1) [OF k]] by (simp add: inv_base_def)
  have "sinv ?s R S W loc"
  proof (rule sinv_cong [OF k])
    show "binv {k_current s} ?s R S W loc" by (rule binv_cong [OF sinvD(1) [OF k]]) simp_all
  qed (use sinvD(4) [OF k] in \<open>simp_all add: inv_cpu_def Let_def\<close>)
  from requeue_moved [OF this] show ?thesis
    using True st by (cases "k_current s = k_idle s") (simp_all add: sched_preempt_def moved_def Let_def)
qed

lemma timer_moved:
  assumes k: "sinv s R S W loc"
  obtains s' S' ys where "timer_irq s = Some s'" "moved s R s' S' W ys (k_need_resched s \<or> R \<noteq> [] \<or> ys \<noteq> [])"
    "\<exists>as. ys = takeWhile (\<lambda>u. th_wake_tick (k_thr s u) \<le> u64 (k_ticks s + 1)) S @ as"
proof -
  let ?now = "u64 (k_ticks s + 1)"
  let ?s = "s\<lparr>k_ticks := ?now\<rparr>"
  have b: "binv {k_current s} ?s R S W loc" by (rule binv_cong [OF sinvD(1) [OF k]]) simp_all
  obtain n c R' S' loc' where w: "sched_core_wake_due ?now (k_core ?s, k_thr ?s) = Some (n, c)"
    "binv {k_current s} (put_core c ?s) (R @ R') S' W loc'" "agree (snd c) (k_thr ?s)"
    "\<And>u. loc u = P_none \<Longrightarrow> th_state (snd c u) = th_state (k_thr ?s u)"
    "R' = takeWhile (\<lambda>u. th_wake_tick (k_thr ?s u) \<le> ?now) S"
    by (rule binv_wake_due [OF b, of ?now]) (rule that, assumption+)
  let ?need = "sched_core_has_ready (fst c)"
  define t where "t = (if ?need then (put_core c ?s)\<lparr>k_need_resched := True\<rparr> else put_core c ?s)"
  note A = agreeD [OF w(3)]
  have T: "k_core t = fst c" "k_thr t = snd c" "k_current t = k_current s" "k_idle t = k_idle s" "k_live t = k_live s"
    "k_nthreads t = k_nthreads s" "k_started t = k_started s" "k_pipe t = k_pipe s" "k_sock t = k_sock s" "k_owner t = k_owner s"
    "k_wq t = k_wq s" "k_kernel_as t = k_kernel_as s" "k_active_as t = k_active_as s" "k_rsp0 t = k_rsp0 s"
    "k_syscall_kstack t = k_syscall_kstack s" "k_need_resched t \<longleftrightarrow> k_need_resched s \<or> ?need"
    by (simp_all add: t_def)
  have need: "?need \<longleftrightarrow> R @ R' \<noteq> []" using has_ready_rep [OF repD(1) [OF binvD(1) [OF w(2)]]] by simp
  have c: "loc (k_current s) = P_none" using binv_member [OF sinvD(1) [OF k]] by simp
  have "binv {k_current s} t (R @ R') S' W loc'" by (rule binv_cong [OF w(2)]) (simp_all add: T)
  moreover have "runnable t (k_current s)"
  proof (rule runnable_keep [OF sinvD(3) [OF k]])
    fix v assume v: "th_rsp (k_thr s (k_current s)) = K_join v" "th_state (k_thr s v) = THREAD_ZOMBIE"
    have "holds s (K_join v)" using inv_threadsD(2) [OF binvD(3) [OF sinvD(1) [OF k]], of "k_current s"] sinvD(5) [OF k] v(1) by simp
    then have "v \<in> k_live s" "v \<noteq> k_idle s" by simp_all
    moreover have "v \<noteq> k_current s" using v(2) sinvD(2) [OF k] by auto
    ultimately have "status_ok s loc v" by (intro inv_threadsD(1) [OF binvD(3) [OF sinvD(1) [OF k]]]) auto
    then have "loc v = P_none" using v(2) by (auto simp: status_ok_def split: place.splits)
    then show "th_state (k_thr t v) = THREAD_ZOMBIE" using w(4) v(2) by (simp add: T)
  qed (use A in \<open>simp_all add: T\<close>)
  ultimately have t: "sinv t (R @ R') S' W loc'"
    using w(4) [OF c] sinvD(2,4) [OF k] A by (simp add: sinv_def inv_cpu_def Let_def T)
  have m: "moved s R (sched_preempt t) S' W (R' @ (if k_need_resched t \<and> k_current s \<noteq> k_idle s then [k_current s] else [])) (k_need_resched t)"
    by (rule moved_append [OF preempt_moved [OF t, unfolded T(3,4)] T(3,4)])
  have run: "timer_irq s = Some (sched_preempt t)" using w(1) by (simp add: timer_irq_def sched_timer_tick_def Let_def t_def)
  have R': "R' = takeWhile (\<lambda>u. th_wake_tick (k_thr s u) \<le> ?now) S" using w(5) by simp
  have nr: "k_need_resched t \<longleftrightarrow> k_need_resched s \<or> R \<noteq> [] \<or> R' \<noteq> []" using need T(16) by auto
  show thesis
  proof (rule that [OF run])
    show "moved s R (sched_preempt t) S' W (R' @ (if k_need_resched t \<and> k_current s \<noteq> k_idle s then [k_current s] else []))
        (k_need_resched s \<or> R \<noteq> [] \<or> R' @ (if k_need_resched t \<and> k_current s \<noteq> k_idle s then [k_current s] else []) \<noteq> [])"
      using m nr by (cases "k_need_resched t") auto
  qed (use R' in blast)
qed

lemma create_moved:
  assumes k: "sinv s R S W loc" and t: "tcb \<noteq> 0" "stack \<noteq> 0" "tcb \<notin> k_live s" "k_nthreads s < 2 ^ 64 - 1"
  obtains s' where "thread_create name tcb stack s = Some s'" "moved s R s' S W [tcb] False"
proof -
  define th where "th = \<lparr>th_rsp = K_run, th_id = k_next_id s, th_state = THREAD_READY, th_name = name, th_wake_tick = 0,
    th_joiner = 0, th_next = 0, th_stack_base = stack, th_kstack_top = stack_top stack, th_as = 0, th_pid = 0\<rparr>"
  define s1 where "s1 = s\<lparr>k_thr := (k_thr s)(tcb := th), k_live := insert tcb (k_live s), k_next_id := u64 (k_next_id s + 1),
    k_nthreads := u64 (k_nthreads s + 1)\<rparr>"
  let ?c = "k_current s"
  note b = sinvD(1) [OF k]
  note B = binvD [OF b]
  have l: "loc tcb = P_none" using B(2) t(3) by (simp add: inv_base_def)
  have old: "k_thr s1 u = k_thr s u" if "u \<in> k_live s" for u using that t(3) by (auto simp: s1_def)
  have new: "th_rsp (k_thr s1 tcb) = K_run" "th_state (k_thr s1 tcb) = THREAD_READY" "th_joiner (k_thr s1 tcb) = 0"
    by (simp_all add: s1_def th_def)
  have F: "k_live s1 = insert tcb (k_live s)" "k_idle s1 = k_idle s" "k_nthreads s1 = k_nthreads s + 1" "k_started s1 = k_started s"
    "k_pipe s1 = k_pipe s" "k_sock s1 = k_sock s" "k_owner s1 = k_owner s" "k_core s1 = k_core s" "k_wq s1 = k_wq s" "k_current s1 = ?c"
    using t(4) by (simp_all add: s1_def)
  have n: "tcb \<notin> set R" "tcb \<notin> set S" "tcb \<notin> set (W q)" for q
    using repD(3,4) [OF B(1), of tcb] repD(5) [OF B(1), of tcb q] l by auto
  have H: "holds s k \<Longrightarrow> holds s1 k" for k
    by (cases k) (auto simp: F old pipe_readable_def pipe_writable_def socket_usable_def)
  have K: "v \<in> k_live s" if "u \<in> k_live s" "th_rsp (k_thr s u) = K_join v" for u v
    using inv_threadsD(2) [OF B(3) that(1)] that(2) by simp
  have "rep s1 R S W loc"
  proof -
    have e: "th_next (k_thr s1 u) = th_next (k_thr s u)" if "u \<noteq> tcb" for u using that by (simp add: s1_def)
    have "fifo (k_thr s1) q xs \<longleftrightarrow> fifo (k_thr s) q xs" "path (k_thr s1) p xs \<longleftrightarrow> path (k_thr s) p xs" if "tcb \<notin> set xs" for q p xs
      by (rule fifo_cong path_cong, rule e, use that in blast)+
    then show ?thesis using B(1) n by (simp add: rep_def core_rep_def F)
  qed
  moreover have "inv_base (insert tcb {?c}) s1 loc" using B(2) t l old unfolding inv_base_def F by auto
  moreover have "inv_threads (insert tcb {?c}) s1 loc"
  proof (rule inv_threadsI)
    fix u assume "u \<in> k_live s1" "u \<notin> insert tcb {?c}" "u \<noteq> k_idle s1"
    then have u: "u \<in> k_live s" "u \<notin> {?c}" "u \<noteq> k_idle s" by (simp_all add: F)
    show "status_ok s1 loc u"
      by (rule status_keep [OF inv_threadsD(1) [OF B(3) u]]) (use u K [OF u(1)] old in \<open>auto simp: F\<close>)
  next
    fix u assume "u \<in> k_live s1"
    then show "holds s1 (th_rsp (k_thr s1 u))" using inv_threadsD(2) [OF B(3), of u] H old new by (auto simp: F)
  qed
  moreover have "inv_joins (insert tcb {?c}) s1 loc"
  proof (rule inv_joinsI)
    fix a b u assume *: "a \<in> k_live s1" "b \<in> k_live s1" "th_rsp (k_thr s1 a) = K_join u" "th_rsp (k_thr s1 b) = K_join u"
    then have "a \<in> k_live s" "b \<in> k_live s" using new(1) by (auto simp: F)
    then show "a = b" using * inv_joinsD(1) [OF B(4), of a b u] old by simp
  next
    fix u j assume *: "u \<in> k_live s1" "th_joiner (k_thr s1 u) = j" "j \<noteq> 0"
    then have u: "u \<in> k_live s" using new(3) by (auto simp: F)
    then have "j \<in> k_live s \<and> j \<notin> {?c} \<and> loc j = P_none \<and> th_rsp (k_thr s j) = K_join u
        \<and> th_state (k_thr s j) = THREAD_BLOCKED \<and> th_state (k_thr s u) \<noteq> THREAD_ZOMBIE"
      using inv_joinsD(2) [OF B(4) u, of j] * old by simp
    then show "j \<in> k_live s1 \<and> j \<notin> insert tcb {?c} \<and> loc j = P_none \<and> th_rsp (k_thr s1 j) = K_join u
        \<and> th_state (k_thr s1 j) = THREAD_BLOCKED \<and> th_state (k_thr s1 u) \<noteq> THREAD_ZOMBIE"
      using old u t(3) by (auto simp: F)
  qed
  moreover have "inv_locks s1 loc" using B(5) old unfolding inv_locks_def F by auto
  moreover have "inv_lists s1 S W"
  proof -
    have m: "map (\<lambda>t. th_wake_tick (k_thr s1 t)) S = map (\<lambda>t. th_wake_tick (k_thr s t)) S" using n(2) by (auto simp: s1_def)
    show ?thesis using B(6) q_open_cong [OF F(7,5)] unfolding inv_lists_def m by simp
  qed
  moreover have "inv_objects s1" using B(7) unfolding inv_objects_def F by simp
  ultimately have "binv (insert tcb {?c}) s1 R S W loc" by (simp add: binv_def)
  then have b': "binv {?c} (enqueue tcb s1) (R @ [tcb]) S W (loc(tcb := P_ready))"
    by (rule binv_enqueue) (use t sinvD(5) [OF k] B(2) new in \<open>auto simp: F runnable_def inv_base_def\<close>)
  have oc: "k_thr s1 ?c = k_thr s ?c" using old sinvD(5) [OF k] by simp
  have nc: "?c \<noteq> tcb" using t(3) sinvD(5) [OF k] by auto
  have "runnable (enqueue tcb s1) ?c"
    by (rule runnable_keep [OF sinvD(3) [OF k]]) (use oc K [OF sinvD(5) [OF k]] old t(3) in \<open>auto simp: F\<close>)
  then have "sinv (enqueue tcb s1) (R @ [tcb]) S W (loc(tcb := P_ready))"
    using b' sinvD(2,4) [OF k] oc nc by (simp add: sinv_def F inv_cpu_def Let_def) (simp add: s1_def)
  moreover have "thread_create name tcb stack s = Some (enqueue tcb s1)"
    using t by (simp add: thread_create_def Let_def s1_def th_def)
  ultimately show thesis using that moved_stay [of _ R "[tcb]"] F(2,10) by (metis k_enqueue_fields(4,5))
qed

lemma sleep_moved:
  assumes k: "sinv s R S W loc" and c: "k_current s \<noteq> k_idle s" "th_rsp (k_thr s (k_current s)) = K_run"
  obtains s' S' ys where "sched_sleep_ticks n s = Some s'" "moved s R s' S' W ys True"
proof (cases "n = 0")
  case True
  then show ?thesis using that yield_moved [OF k c(2)] by (simp add: sched_sleep_ticks_def)
next
  case False
  let ?c = "k_current s"
  obtain c' S' where s: "sched_core_sleep ?c (u64 (k_ticks s + n)) (k_core s, k_thr s) = Some c'"
    "binv {} (set_rsp ?c K_run (put_core c' s)) R S' W (loc(?c := P_sleep))" "agree (snd c') (k_thr s)"
    by (rule binv_sleep [OF sinvD(1) [OF k], of "u64 (k_ticks s + n)"])
      (use c sinvD(2) [OF k] that in \<open>auto\<close>)
  have "moved s R (schedule K_run (put_core c' s)) S' W [] True"
    by (rule schedule_moved) (use s(2) c sinvD [OF k] agreeD [OF s(3)] in \<open>auto simp: inv_cpu_def Let_def\<close>)
  then show ?thesis using that False c s(1) by (simp add: sched_sleep_ticks_def)
qed

lemma set_joiner_mark: "set_joiner u j (mark t st s) = mark t st (set_joiner u j s)"
  by (auto simp: set_joiner_def mark_def set_state_def fun_eq_iff)

text \<open>The joiner of an exiting thread is taken out of its slot.\<close>

lemma binv_unjoin:
  assumes b: "binv (insert c X) s R S W loc" and j: "th_joiner (k_thr s c) = j" "j \<noteq> 0"
  shows "binv (insert c (insert j X)) (set_joiner c 0 s) R S W loc" "j \<notin> insert c X" "j \<noteq> k_idle s"
    "th_rsp (k_thr s j) = K_join c" "th_state (k_thr s j) = THREAD_BLOCKED"
proof -
  let ?s = "set_joiner c 0 s"
  note B = binvD [OF b] and c = binv_member [OF b insertI1]
  have J: "j \<in> k_live s" "j \<notin> insert c X" "loc j = P_none" "th_rsp (k_thr s j) = K_join c" "th_state (k_thr s j) = THREAD_BLOCKED"
    using inv_joinsD(2) [OF B(4) c(1) j] by blast+
  then show "j \<notin> insert c X" "th_rsp (k_thr s j) = K_join c" "th_state (k_thr s j) = THREAD_BLOCKED" by blast+
  show ji: "j \<noteq> k_idle s" using J(4) B(2) by (auto simp: inv_base_def)
  have "rep ?s R S W loc" by (rule rep_cong [OF B(1)]) simp_all
  moreover have "inv_base (insert c (insert j X)) ?s loc" using B(2) J(1,3) by (simp add: inv_base_def)
  moreover have "inv_threads (insert c (insert j X)) ?s loc"
  proof (rule inv_threadsI)
    fix u assume u: "u \<in> k_live ?s" "u \<notin> insert c (insert j X)" "u \<noteq> k_idle ?s"
    show "status_ok ?s loc u"
      by (rule status_keep [OF inv_threadsD(1) [OF B(3)]]) (use u j(1) in auto)
  next
    fix u assume "u \<in> k_live ?s"
    then show "holds ?s (th_rsp (k_thr ?s u))" using inv_threadsD(2) [OF B(3), of u] holds_cong [of ?s s] by simp
  qed
  moreover have "inv_joins (insert c (insert j X)) ?s loc"
  proof (rule inv_joinsI)
    fix a b u assume "a \<in> k_live ?s" "b \<in> k_live ?s" "th_rsp (k_thr ?s a) = K_join u" "th_rsp (k_thr ?s b) = K_join u"
    then show "a = b" using inv_joinsD(1) [OF B(4), of a b u] by simp
  next
    fix u i assume *: "u \<in> k_live ?s" "th_joiner (k_thr ?s u) = i" "i \<noteq> 0"
    then have u: "u \<noteq> c" "u \<in> k_live s" "th_joiner (k_thr s u) = i" by (auto split: if_splits)
    note I = inv_joinsD(2) [OF B(4) u(2,3) *(3)]
    then have "i \<noteq> j" using J(4) u(1) by auto
    then show "i \<in> k_live ?s \<and> i \<notin> insert c (insert j X) \<and> loc i = P_none \<and> th_rsp (k_thr ?s i) = K_join u
        \<and> th_state (k_thr ?s i) = THREAD_BLOCKED \<and> th_state (k_thr ?s u) \<noteq> THREAD_ZOMBIE" using I by simp
  qed
  moreover have "inv_locks ?s loc" using B(5) by (simp add: inv_locks_def)
  moreover have "inv_lists ?s S W" using B(6) q_open_cong [of ?s s] by (simp add: inv_lists_def)
  moreover have "inv_objects ?s" using B(7) by (simp add: inv_objects_def)
  ultimately show "binv (insert c (insert j X)) ?s R S W loc" by (simp add: binv_def)
qed

lemma binv_zombie:
  assumes b: "binv (insert c X) s R S W loc" and c: "c \<notin> X" "c \<noteq> k_idle s" "th_state (k_thr s c) \<noteq> THREAD_ZOMBIE"
    "\<And>m. k_owner s m \<noteq> c" "th_joiner (k_thr s c) = 0"
  shows "binv X (set_rsp c K_exit (mark c THREAD_ZOMBIE s)) R S W loc"
proof -
  let ?s = "set_rsp c K_exit (mark c THREAD_ZOMBIE s)"
  note B = binvD [OF b]
  have l: "loc(c := P_none) = loc" using binv_member(3) [OF b insertI1] by auto
  have "binv X ?s R S W (loc(c := P_none))"
  proof (rule binv_place [OF b c(1-3)])
    show "rep ?s R S W (loc(c := P_none))" unfolding l by (rule rep_cong [OF B(1)]) simp_all
    show "inv_lists ?s S W" using B(6) q_open_cong [of ?s s] by (simp add: inv_lists_def)
  qed (use c in \<open>auto simp: status_ok_def\<close>)
  then show ?thesis by (simp add: l)
qed

lemma exit_moved:
  assumes k: "sinv s R S W loc" and c: "k_current s \<noteq> k_idle s" "\<And>m. k_owner s m \<noteq> k_current s"
  obtains s' ys where "thread_exit s = Some s'" "moved s R s' S W ys True"
proof -
  let ?c = "k_current s"
  note b = sinvD(1) [OF k]
  show thesis
  proof (cases "th_joiner (k_thr s ?c) = 0")
    case True
    have "binv {} (set_rsp ?c K_exit (mark ?c THREAD_ZOMBIE s)) R S W loc"
      by (rule binv_zombie [OF b]) (use c True sinvD(2) [OF k] in auto)
    then have "moved s R (schedule K_exit (mark ?c THREAD_ZOMBIE s)) S W [] True"
      by (intro schedule_moved) (use c sinvD [OF k] in \<open>auto simp: inv_cpu_def Let_def\<close>)
    then show ?thesis using that c(1) True by (simp add: thread_exit_def Let_def)
  next
    case False
    let ?j = "th_joiner (k_thr s ?c)"
    let ?s1 = "set_rsp ?c K_exit (mark ?c THREAD_ZOMBIE (set_joiner ?c 0 s))"
    note J = binv_unjoin [OF b refl False]
    have "binv {?j} ?s1 R S W loc"
      by (rule binv_zombie) (use J c sinvD(2) [OF k] in auto)
    then have "binv {} (enqueue ?j ?s1) (R @ [?j]) S W (loc(?j := P_ready))"
      by (rule binv_enqueue) (use J in \<open>auto simp: runnable_def\<close>)
    moreover have "enqueue ?j ?s1 = set_rsp ?c K_exit (set_joiner ?c 0 (enqueue ?j (mark ?c THREAD_ZOMBIE s)))"
      by (simp add: set_joiner_enqueue set_rsp_enqueue set_joiner_mark)
    ultimately have "moved s R (schedule K_exit (set_joiner ?c 0 (enqueue ?j (mark ?c THREAD_ZOMBIE s)))) S W [?j] True"
      by (intro schedule_moved) (use c sinvD [OF k] J in \<open>auto simp: inv_cpu_def Let_def\<close>)
    then show ?thesis using that c(1) False by (simp add: thread_exit_def Let_def)
  qed
qed

lemma binv_join:
  assumes b: "binv {c} s R S W loc" and c: "c \<noteq> k_idle s" "th_state (k_thr s c) \<noteq> THREAD_ZOMBIE" "\<And>m. th_rsp (k_thr s c) \<noteq> K_join m"
    and t: "t \<in> k_live s" "t \<noteq> c" "t \<noteq> k_idle s" "th_stack_base (k_thr s t) \<noteq> 0" "th_joiner (k_thr s t) = 0"
      "th_state (k_thr s t) \<noteq> THREAD_ZOMBIE" "\<And>u. u \<in> k_live s \<Longrightarrow> th_rsp (k_thr s u) \<noteq> K_join t"
  shows "binv {} (set_rsp c (K_join t) (mark c THREAD_BLOCKED (set_joiner t c s))) R S W loc"
proof -
  let ?s = "set_rsp c (K_join t) (mark c THREAD_BLOCKED (set_joiner t c s))"
  note B = binvD [OF b] and c0 = binv_member [OF b insertI1]
  have "rep ?s R S W loc" by (rule rep_cong [OF B(1)]) simp_all
  moreover have "inv_base {} ?s loc" using B(2) c(1) by (simp add: inv_base_def)
  moreover have "inv_threads {} ?s loc"
  proof (rule inv_threadsI)
    fix u assume u: "u \<in> k_live ?s" "u \<notin> {}" "u \<noteq> k_idle ?s"
    show "status_ok ?s loc u"
    proof (cases "u = c")
      case True
      then show ?thesis using c0(3) by (simp add: status_ok_def)
    next
      case False
      show ?thesis
        by (rule status_keep [OF inv_threadsD(1) [OF B(3)]]) (use u False c(2) t(7) [of u] in auto)
    qed
  next
    fix u assume u: "u \<in> k_live ?s"
    have h: "holds ?s k = holds s k" for k by (rule holds_cong) simp_all
    show "holds ?s (th_rsp (k_thr ?s u))"
      unfolding h using inv_threadsD(2) [OF B(3), of u] u t by (cases "u = c") auto
  qed
  moreover have "inv_joins {} ?s loc"
  proof (rule inv_joinsI)
    fix a b u assume "a \<in> k_live ?s" "b \<in> k_live ?s" "th_rsp (k_thr ?s a) = K_join u" "th_rsp (k_thr ?s b) = K_join u"
    then show "a = b" using inv_joinsD(1) [OF B(4), of a b u] t(7) [of a] t(7) [of b] by (auto split: if_splits)
  next
    fix u j assume *: "u \<in> k_live ?s" "th_joiner (k_thr ?s u) = j" "j \<noteq> 0"
    show "j \<in> k_live ?s \<and> j \<notin> {} \<and> loc j = P_none \<and> th_rsp (k_thr ?s j) = K_join u
        \<and> th_state (k_thr ?s j) = THREAD_BLOCKED \<and> th_state (k_thr ?s u) \<noteq> THREAD_ZOMBIE"
    proof (cases "u = t")
      case True
      then show ?thesis using * c0 t by auto
    next
      case False
      then have "th_joiner (k_thr s u) = j" "u \<in> k_live s" using * by auto
      from inv_joinsD(2) [OF B(4) this(2,1) *(3)] show ?thesis using False by auto
    qed
  qed
  moreover have "inv_locks ?s loc" using B(5) by (auto simp: inv_locks_def)
  moreover have "inv_lists ?s S W" using B(6) q_open_cong [of ?s s] by (simp add: inv_lists_def)
  moreover have "inv_objects ?s" using B(7) by (simp add: inv_objects_def)
  ultimately show ?thesis by (simp add: binv_def)
qed

text \<open>The end of a join: the zombie is released.\<close>

lemma join_finish_moved:
  assumes k: "sinv s R S W loc" and t: "t \<in> k_live s" "t \<noteq> k_idle s" "th_state (k_thr s t) = THREAD_ZOMBIE"
    "\<And>u. u \<in> k_live s \<Longrightarrow> th_rsp (k_thr s u) = K_join t \<Longrightarrow> u = k_current s"
  obtains s' where "join_finish t s = Some s'" "moved s R s' S W [] False"
proof -
  let ?c = "k_current s"
  define s' where "s' = set_rsp ?c K_run (s\<lparr>k_nthreads := sub64 (k_nthreads s) 1, k_live := k_live s - {t}\<rparr>)"
  note b = sinvD(1) [OF k]
  note B = binvD [OF b]
  have tc: "t \<noteq> ?c" using t(3) sinvD(2) [OF k] by auto
  have fin: "finite (k_live s)" "k_nthreads s = card (k_live s)" "k_nthreads s < 2 ^ 64" using B(2) by (simp_all add: inv_base_def)
  then have n: "sub64 (k_nthreads s) 1 = card (k_live s - {t})" "card (k_live s - {t}) < 2 ^ 64"
    using t(1) card_gt_0_iff [of "k_live s"] by auto
  have F: "k_live s' = k_live s - {t}" "k_idle s' = k_idle s" "k_nthreads s' = card (k_live s - {t})" "k_started s' = k_started s"
    "k_pipe s' = k_pipe s" "k_sock s' = k_sock s" "k_owner s' = k_owner s" "k_core s' = k_core s" "k_wq s' = k_wq s" "k_current s' = ?c"
    "\<And>u. th_state (k_thr s' u) = th_state (k_thr s u)" "\<And>u. th_rsp (k_thr s' u) = (if u = ?c then K_run else th_rsp (k_thr s u))"
    "\<And>u. th_joiner (k_thr s' u) = th_joiner (k_thr s u)" "\<And>u. th_stack_base (k_thr s' u) = th_stack_base (k_thr s u)"
    "\<And>u. th_next (k_thr s' u) = th_next (k_thr s u)" "\<And>u. th_wake_tick (k_thr s' u) = th_wake_tick (k_thr s u)"
    using n(1) by (simp_all add: s'_def set_rsp_def)
  have lt: "loc t = P_none"
    using inv_threadsD(1) [OF B(3) t(1)] tc t(2,3) by (auto simp: status_ok_def split: place.splits)
  have "rep s' R S W loc" by (rule rep_cong [OF B(1)]) (simp_all add: F)
  moreover have "inv_base {?c} s' loc" using B(2) n fin t tc lt by (auto simp: inv_base_def F)
  moreover have "inv_threads {?c} s' loc"
  proof (rule inv_threadsI)
    fix u assume u: "u \<in> k_live s'" "u \<notin> {?c}" "u \<noteq> k_idle s'"
    show "status_ok s' loc u" by (rule status_keep [OF inv_threadsD(1) [OF B(3)]]) (use u in \<open>auto simp: F\<close>)
  next
    fix u assume u: "u \<in> k_live s'"
    have "holds s kk \<Longrightarrow> kk \<noteq> K_join t \<Longrightarrow> holds s' kk" for kk
      by (cases kk) (auto simp: F pipe_readable_def pipe_writable_def socket_usable_def)
    then show "holds s' (th_rsp (k_thr s' u))"
      using inv_threadsD(2) [OF B(3), of u] t(4) [of u] u by (auto simp: F)
  qed
  moreover have "inv_joins {?c} s' loc"
  proof (rule inv_joinsI)
    fix a b u assume "a \<in> k_live s'" "b \<in> k_live s'" "th_rsp (k_thr s' a) = K_join u" "th_rsp (k_thr s' b) = K_join u"
    then show "a = b" using inv_joinsD(1) [OF B(4), of a b u] by (auto simp: F split: if_splits)
  next
    fix u j assume *: "u \<in> k_live s'" "th_joiner (k_thr s' u) = j" "j \<noteq> 0"
    have "j \<in> k_live s \<and> j \<notin> {?c} \<and> loc j = P_none \<and> th_rsp (k_thr s j) = K_join u
        \<and> th_state (k_thr s j) = THREAD_BLOCKED \<and> th_state (k_thr s u) \<noteq> THREAD_ZOMBIE"
      using inv_joinsD(2) [OF B(4), of u j] * by (simp add: F)
    then show "j \<in> k_live s' \<and> j \<notin> {?c} \<and> loc j = P_none \<and> th_rsp (k_thr s' j) = K_join u
        \<and> th_state (k_thr s' j) = THREAD_BLOCKED \<and> th_state (k_thr s' u) \<noteq> THREAD_ZOMBIE"
      using t(3) by (auto simp: F)
  qed
  moreover have "inv_locks s' loc" using B(5) t(3) by (auto simp: inv_locks_def F)
  moreover have "inv_lists s' S W" using B(6) q_open_cong [OF F(7,5)] by (simp add: inv_lists_def F)
  moreover have "inv_objects s'" using B(7) by (simp add: inv_objects_def F)
  ultimately have "binv {?c} s' R S W loc" by (simp add: binv_def)
  then have "sinv s' R S W loc"
    using sinvD(2,4) [OF k] by (simp add: sinv_def F runnable_def inv_cpu_def Let_def) (simp add: s'_def)
  moreover have "join_finish t s = Some s'" using t(3) by (simp add: join_finish_def s'_def)
  ultimately show thesis using that moved_stay [of s' R "[]"] F(2,10) by (metis append_Nil2)
qed

lemma join_moved:
  assumes k: "sinv s R S W loc" and c: "k_current s \<noteq> k_idle s" "th_rsp (k_thr s (k_current s)) = K_run" and ok: "call_ok (A_join t) s"
  obtains s' sw where "thread_join t s = Some s'" "moved s R s' S W [] sw"
proof -
  let ?c = "k_current s"
  note b = sinvD(1) [OF k]
  have t: "t \<in> k_live s" "t \<noteq> ?c" "t \<noteq> k_idle s" "th_stack_base (k_thr s t) \<noteq> 0"
    "\<And>u. u \<in> k_live s \<Longrightarrow> th_rsp (k_thr s u) \<noteq> K_join t" using ok by (auto simp: inside_def)
  have t0: "t \<noteq> 0" using t(1) binvD(2) [OF b] unfolding inv_base_def by metis
  show thesis
  proof (cases "th_state (k_thr s t) = THREAD_ZOMBIE")
    case True
    obtain s' where "join_finish t s = Some s'" "moved s R s' S W [] False"
      by (rule join_finish_moved [OF k t(1,3) True]) (use t(5) in blast)+
    then show ?thesis using that True t t0 by (simp add: thread_join_def)
  next
    case False
    have j: "th_joiner (k_thr s t) = 0"
    proof (rule ccontr)
      assume "th_joiner (k_thr s t) \<noteq> 0"
      with inv_joinsD(2) [OF binvD(4) [OF b] t(1) refl] t(5) show False by blast
    qed
    let ?s = "mark ?c THREAD_BLOCKED (set_joiner t ?c s)"
    have "binv {} (set_rsp ?c (K_join t) ?s) R S W loc"
      by (rule binv_join [OF b]) (use c t j False sinvD(2) [OF k] in auto)
    then have "moved s R (schedule (K_join t) ?s) S W [] True"
      by (intro schedule_moved) (use c sinvD [OF k] in \<open>auto simp: inv_cpu_def Let_def\<close>)
    then show ?thesis using that False t t0 j by (simp add: thread_join_def)
  qed
qed

end
