(* ===== verification/Spec2Isabelle.thy ===== *)
theory Spec2Isabelle
  imports Pipe_Core Pmm_Core Gfs_Theorems Gfs_Codec Process_Inv Vfs_Theorems Gfs_Walk Elf_Load Sched_Steps
begin

text \<open>
  A verification library for the \<^verbatim>\<open>hallucinate\<close> kernel (C sources under \<^verbatim>\<open>src/kernel\<close>).

  The kernel separates pure logic (\<^verbatim>\<open>*_core.c\<close>, \<^verbatim>\<open>lib/\<close>, \<^verbatim>\<open>vfs_path.c\<close>) from hardware access.
  This library models the pure logic as executable functions, one theory per source file.
\<close>

end
